(* ===== verification/Prelude.thy ===== *)
theory Prelude
  imports Main "HOL-Library.Word"
begin

text \<open>
  The vocabulary shared by every component: the type names of the C++ sources, the outcomes a
  C++ function call can have, the collections of facts the component proofs draw on, and the
  generic lemmas on lists and products they share.
\<close>

section \<open>Collections of facts\<close>

named_theorems outcome_simps "how outcomes and results compose"
named_theorems machine_simps "exact readings of the machine integer operations"
named_theorems layout_simps "suffix products and row-major offsets"
named_theorems owner_simps "effects of the smart pointer operations"
named_theorems codec_simps "names of enumerators and their parsers"

section \<open>Type names\<close>

type_synonym u8 = "8 word"
type_synonym u16 = "16 word"
type_synonym u32 = "32 word"
type_synonym u64 = "64 word"
type_synonym i32 = "32 word"
type_synonym i64 = "64 word"

text \<open>The platform is LP64: \<open>size_t\<close> and pointers have 64 bits.\<close>

type_synonym size_t = "64 word"
type_synonym addr = "64 word"

section \<open>Outcomes of a C++ call\<close>

text \<open>
  A call returns, throws one of the standard exceptions the sources use, calls
  \<open>std::terminate\<close>, or has undefined behaviour (signed overflow, division by zero, an access
  through a dangling pointer). Every function of the sources in whose body one of the last three
  can be written down has an \<open>outcome\<close> as its result.
\<close>

datatype exn =
    Invalid_argument_exn string
  | Out_of_range_exn
  | Logic_error_exn string

datatype 'a outcome =
    Returns 'a
  | Throws exn
  | Terminates
  | Undefined

primrec bnd :: "'a outcome \<Rightarrow> ('a \<Rightarrow> 'b outcome) \<Rightarrow> 'b outcome" where
  "bnd (Returns a) k = k a"
| "bnd (Throws e) k = Throws e"
| "bnd Terminates k = Terminates"
| "bnd Undefined k = Undefined"

text \<open>Short-circuit evaluation of \<open>&&\<close> and \<open>||\<close>.\<close>

definition c_and :: "bool \<Rightarrow> bool outcome \<Rightarrow> bool outcome" where
  "c_and b m = (if b then m else Returns False)"

definition c_or :: "bool outcome \<Rightarrow> bool outcome \<Rightarrow> bool outcome" where
  "c_or m n = bnd m (\<lambda>b. if b then Returns True else n)"

lemma bnd_eq_Returns [outcome_simps]:
  "bnd m k = Returns b \<longleftrightarrow> (\<exists>a. m = Returns a \<and> k a = Returns b)"
  by (cases m) auto

lemma bnd_Returns_right [simp]: "bnd m Returns = m"
  by (cases m) auto

lemma bnd_assoc: "bnd (bnd m k) h = bnd m (\<lambda>x. bnd (k x) h)"
  by (cases m) auto

lemma c_and_simps [simp]: "c_and True m = m" "c_and False m = Returns False"
  by (simp_all add: c_and_def)

lemma c_or_Returns [simp]: "c_or (Returns b) n = (if b then Returns True else n)"
  by (simp add: c_or_def)

section \<open>Products over lists\<close>

lemma mult_ge_1:
  fixes a b :: int
  shows "1 \<le> a \<Longrightarrow> 1 \<le> b \<Longrightarrow> 1 \<le> a * b"
  using mult_mono [of 1 a 1 b] by simp

lemma prod_list_ge_1:
  fixes xs :: "int list"
  shows "\<forall>x\<in>set xs. 1 \<le> x \<Longrightarrow> 1 \<le> prod_list xs"
proof (induction xs)
  case Nil
  then show ?case by simp
next
  case (Cons x xs)
  then show ?case by (simp add: mult_ge_1)
qed

lemma prod_list_nonneg:
  fixes xs :: "int list"
  shows "\<forall>x\<in>set xs. 0 \<le> x \<Longrightarrow> 0 \<le> prod_list xs"
  by (induction xs) auto

lemma prod_list_zero_iff_int:
  fixes xs :: "int list"
  shows "prod_list xs = 0 \<longleftrightarrow> 0 \<in> set xs"
  by (induction xs) auto

lemma le_mult_ge_1:
  fixes a b :: int
  shows "0 \<le> a \<Longrightarrow> 1 \<le> b \<Longrightarrow> a \<le> a * b"
  using mult_left_mono [of 1 b a] by simp

lemma le_mult_ge_1_left:
  fixes a b :: int
  shows "0 \<le> a \<Longrightarrow> 1 \<le> b \<Longrightarrow> a \<le> b * a"
  using le_mult_ge_1 [of a b] by (simp add: mult.commute)

section \<open>Lists\<close>

lemma list_eq_nthI:
  "length xs = length ys \<Longrightarrow> (\<And>i. i < length ys \<Longrightarrow> xs ! i = ys ! i) \<Longrightarrow> xs = ys"
  by (simp add: nth_equalityI)

lemma takeWhile_id: "\<forall>x\<in>set xs. P x \<Longrightarrow> takeWhile P xs = xs"
  by (simp add: takeWhile_eq_all_conv)

lemma dropWhile_Nil: "\<forall>x\<in>set xs. P x \<Longrightarrow> dropWhile P xs = []"
  by (simp add: dropWhile_eq_Nil_conv)

end
