(* ===== verification/Floats.thy ===== *)
theory Floats
  imports Prelude Complex_Main "HOL-Library.Log_Nat"
begin

text \<open>
  The floating-point values of the platform: \<open>float\<close>, \<open>double\<close> and the 80-bit \<open>long double\<close> of x86-64, as
  exact binary numbers with a sign (of zero, too), infinities and not-a-number, and the conversions
  between the formats, which round to nearest with ties to even.
\<close>

section \<open>Values\<close>

datatype fp = NaN | Infinity bool | Finite bool rat

text \<open>\<open>Finite negative magnitude\<close>.\<close>

fun fp_value :: "fp \<Rightarrow> rat" where
  "fp_value (Finite negative m) = (if negative then - m else m)"
| "fp_value _ = 0"

fun isfinite :: "fp \<Rightarrow> bool" where
  "isfinite (Finite _ _) = True"
| "isfinite _ = False"

text \<open>The comparisons of IEEE 754: nothing compares with a NaN, and the zeros are equal.\<close>

fun fp_eq :: "fp \<Rightarrow> fp \<Rightarrow> bool" where
  "fp_eq (Finite s a) (Finite t b) \<longleftrightarrow> fp_value (Finite s a) = fp_value (Finite t b)"
| "fp_eq (Infinity s) (Infinity t) \<longleftrightarrow> s = t"
| "fp_eq _ _ \<longleftrightarrow> False"

fun fp_less :: "fp \<Rightarrow> fp \<Rightarrow> bool" where
  "fp_less NaN _ \<longleftrightarrow> False"
| "fp_less _ NaN \<longleftrightarrow> False"
| "fp_less (Finite s a) (Finite t b) \<longleftrightarrow> fp_value (Finite s a) < fp_value (Finite t b)"
| "fp_less (Infinity s) (Infinity t) \<longleftrightarrow> s \<and> \<not> t"
| "fp_less (Infinity s) (Finite _ _) \<longleftrightarrow> s"
| "fp_less (Finite _ _) (Infinity t) \<longleftrightarrow> \<not> t"

fun fp_neg :: "fp \<Rightarrow> fp" where
  "fp_neg NaN = NaN"
| "fp_neg (Infinity s) = Infinity (\<not> s)"
| "fp_neg (Finite s m) = Finite (\<not> s) m"

definition fp_of_int :: "int \<Rightarrow> fp" where
  "fp_of_int i = Finite (i < 0) (of_int \<bar>i\<bar>)"

text \<open>\<open>std::trunc\<close>, which keeps the sign.\<close>

definition trunc_rat :: "rat \<Rightarrow> int" where
  "trunc_rat m = (if 0 \<le> m then \<lfloor>m\<rfloor> else \<lceil>m\<rceil>)"

fun fp_trunc :: "fp \<Rightarrow> fp" where
  "fp_trunc (Finite s m) = Finite s (of_int (trunc_rat m))"
| "fp_trunc x = x"

section \<open>Formats\<close>

record fp_format =
  fp_precision :: nat
  fp_emax :: int

definition binary32 :: fp_format where
  "binary32 = \<lparr>fp_precision = 24, fp_emax = 127\<rparr>"

definition binary64 :: fp_format where
  "binary64 = \<lparr>fp_precision = 53, fp_emax = 1023\<rparr>"

definition extended80 :: fp_format where
  "extended80 = \<lparr>fp_precision = 64, fp_emax = 16383\<rparr>"

definition fp_emin :: "fp_format \<Rightarrow> int" where
  "fp_emin f = 1 - fp_emax f"

text \<open>\<open>std::numeric_limits<T>::max()\<close>.\<close>

definition fp_max :: "fp_format \<Rightarrow> rat" where
  "fp_max f = (2 ^ fp_precision f - 1) * 2 powi (fp_emax f - int (fp_precision f) + 1)"

text \<open>The exponent of the leading bit of a positive number.\<close>

definition ilog2 :: "rat \<Rightarrow> int" where
  "ilog2 m = (case quotient_of m of (a, b) \<Rightarrow>
     let k = int (floorlog 2 (nat a)) - int (floorlog 2 (nat b))
     in if 2 powi k \<le> m then k else k - 1)"

definition round_half_even :: "rat \<Rightarrow> int" where
  "round_half_even q =
     (let f = \<lfloor>q\<rfloor>; d = q - of_int f
      in if d < 1 / 2 then f else if 1 / 2 < d then f + 1 else if even f then f else f + 1)"

text \<open>The exponent of the last bit that the format has for a number of this magnitude.\<close>

definition ulp_exponent :: "fp_format \<Rightarrow> rat \<Rightarrow> int" where
  "ulp_exponent f m = max (ilog2 m) (fp_emin f) - int (fp_precision f) + 1"

definition round_magnitude :: "fp_format \<Rightarrow> rat \<Rightarrow> rat" where
  "round_magnitude f m =
     (if m \<le> 0 then m
      else of_int (round_half_even (m / 2 powi ulp_exponent f m)) * 2 powi ulp_exponent f m)"

text \<open>\<open>static_cast\<close> to a format of a value that is in its range.\<close>

fun fp_convert :: "fp_format \<Rightarrow> fp \<Rightarrow> fp" where
  "fp_convert f (Finite s m) = Finite s (round_magnitude f m)"
| "fp_convert f x = x"

text \<open>The values of a format: at most \<open>precision\<close> bits, down to the last bit of the subnormal numbers.\<close>

definition magnitude_in :: "fp_format \<Rightarrow> rat \<Rightarrow> bool" where
  "magnitude_in f m \<longleftrightarrow> (\<exists>n e. 0 \<le> n \<and> n < 2 ^ fp_precision f \<and> fp_emin f - int (fp_precision f) + 1 \<le> e \<and>
     m = of_int n * 2 powi e) \<and> m \<le> fp_max f"

fun fp_in :: "fp_format \<Rightarrow> fp \<Rightarrow> bool" where
  "fp_in f (Finite s m) \<longleftrightarrow> magnitude_in f m"
| "fp_in f _ \<longleftrightarrow> True"

section \<open>Lemmas\<close>

lemma isfinite_iff: "isfinite x \<longleftrightarrow> (\<exists>s m. x = Finite s m)"
  by (cases x) auto

lemma fp_value_of_int [simp]: "fp_value (fp_of_int i) = of_int i" "isfinite (fp_of_int i)"
  by (auto simp: fp_of_int_def)

lemma fp_eq_finite: "isfinite x \<Longrightarrow> isfinite y \<Longrightarrow> fp_eq x y \<longleftrightarrow> fp_value x = fp_value y"
  by (auto simp: isfinite_iff)

lemma fp_less_finite: "isfinite x \<Longrightarrow> isfinite y \<Longrightarrow> fp_less x y \<longleftrightarrow> fp_value x < fp_value y"
  by (auto simp: isfinite_iff)

lemma fp_eq_of_int: "fp_eq x (fp_of_int i) \<longleftrightarrow> isfinite x \<and> fp_value x = of_int i"
  by (cases x) (auto simp: fp_of_int_def)

lemma trunc_rat_id: "of_int (trunc_rat m) = m \<longleftrightarrow> m \<in> \<int>"
  by (auto simp: trunc_rat_def Ints_def)

lemma fp_trunc_eq: "isfinite x \<Longrightarrow> fp_eq (fp_trunc x) x \<longleftrightarrow> (\<exists>i. fp_value x = of_int i)"
proof -
  assume "isfinite x"
  then obtain s m where x: "x = Finite s m" by (auto simp: isfinite_iff)
  have "fp_eq (fp_trunc x) x \<longleftrightarrow> of_int (trunc_rat m) = m" by (simp add: x)
  also have "\<dots> \<longleftrightarrow> fp_value x \<in> \<int>" by (simp add: trunc_rat_id x)
  also have "\<dots> \<longleftrightarrow> (\<exists>i. fp_value x = of_int i)" by (auto simp: Ints_def)
  finally show ?thesis .
qed

lemma round_half_even_int [simp]: "round_half_even (of_int i) = i"
  by (simp add: round_half_even_def)

lemma round_half_even_error: "\<bar>of_int (round_half_even q) - q\<bar> \<le> 1 / 2"
proof -
  let ?f = "of_int \<lfloor>q\<rfloor> :: rat"
  have b: "?f \<le> q" "q < ?f + 1" using floor_correct [of q] by simp_all
  have r: "(of_int (round_half_even q) = ?f \<and> q - ?f \<le> 1 / 2) \<or>
      (of_int (round_half_even q) = ?f + 1 \<and> 1 / 2 \<le> q - ?f)"
    by (cases "q - ?f < 1 / 2"; cases "1 / 2 < q - ?f"; cases "even \<lfloor>q\<rfloor>")
      (simp_all add: round_half_even_def Let_def)
  show ?thesis unfolding abs_le_iff using b r by linarith
qed

lemma floorlog2_bounds: "0 < n \<Longrightarrow> (2 :: rat) powi (int (floorlog 2 n) - 1) \<le> of_nat n \<and> of_nat n < (2 :: rat) powi int (floorlog 2 n)"
proof -
  assume n: "0 < n"
  then have b: "2 ^ (floorlog 2 n - 1) \<le> n" "n < 2 ^ floorlog 2 n"
    using floorlog_bounds [of n 2] by simp_all
  have l: "0 < floorlog 2 n" using n by (simp add: floorlog_eq_zero_iff flip: neq0_conv)
  have "(of_nat (2 ^ (floorlog 2 n - 1)) :: rat) \<le> of_nat n" "(of_nat n :: rat) < of_nat (2 ^ floorlog 2 n)"
    using b by (simp_all only: of_nat_le_iff of_nat_less_iff)
  moreover have "(2 :: rat) powi (int (floorlog 2 n) - 1) = 2 ^ (floorlog 2 n - 1)"
  proof -
    have "int (floorlog 2 n) - 1 = int (floorlog 2 n - 1)" using l by simp
    then show ?thesis by (simp only: power_int_of_nat)
  qed
  ultimately show ?thesis by simp
qed

lemma ilog2_bounds:
  assumes "0 < m"
  shows "2 powi ilog2 m \<le> m" "m < 2 powi (ilog2 m + 1)"
proof -
  obtain a b where q: "quotient_of m = (a, b)" by (cases "quotient_of m")
  have b: "0 < b" and m: "m = of_int a / of_int b"
    using quotient_of_denom_pos [OF q] quotient_of_div [OF q] by simp_all
  have a: "0 < a" using assms b m by (simp add: zero_less_divide_iff)
  let ?A = "int (floorlog 2 (nat a))" and ?B = "int (floorlog 2 (nat b))"
  have ra: "2 powi (?A - 1) \<le> (of_int a :: rat)" "(of_int a :: rat) < 2 powi ?A"
    using floorlog2_bounds [of "nat a"] a by simp_all
  have rb: "2 powi (?B - 1) \<le> (of_int b :: rat)" "(of_int b :: rat) < 2 powi ?B"
    using floorlog2_bounds [of "nat b"] b by simp_all
  have ab: "0 < (of_int a :: rat)" "0 < (of_int b :: rat)" using a b by simp_all
  have up: "m < 2 powi (?A - ?B + 1)"
  proof -
    have "m < 2 powi ?A / of_int b" using ra(2) ab(2) m by (simp add: divide_strict_right_mono)
    also have "\<dots> \<le> 2 powi ?A / 2 powi (?B - 1)" using rb(1) ra(2) ab by (intro divide_left_mono mult_pos_pos) simp_all
    also have "\<dots> = 2 powi (?A - ?B + 1)" by (simp add: power_int_diff power_int_add)
    finally show ?thesis .
  qed
  have low: "2 powi (?A - ?B - 1) \<le> m"
  proof -
    have "2 powi (?A - ?B - 1) = (2 powi (?A - 1) / 2 powi ?B :: rat)" by (simp add: power_int_diff)
    also have "\<dots> \<le> 2 powi (?A - 1) / of_int b" using rb(2) ab(2) by (intro divide_left_mono) simp_all
    also have "\<dots> \<le> m" using ra(1) ab(2) m by (simp add: divide_right_mono)
    finally show ?thesis .
  qed
  have "ilog2 m = (if 2 powi (?A - ?B) \<le> m then ?A - ?B else ?A - ?B - 1)"
    by (simp add: ilog2_def q Let_def)
  then show "2 powi ilog2 m \<le> m" "m < 2 powi (ilog2 m + 1)" using up low by auto
qed

lemma ilog2_less: "0 < m \<Longrightarrow> m < 2 powi k \<Longrightarrow> ilog2 m < k"
proof -
  assume m: "0 < m" "m < 2 powi k"
  then have less: "(2 :: rat) powi ilog2 m < 2 powi k" using ilog2_bounds(1) [OF m(1)] by simp
  show ?thesis
  proof (rule ccontr)
    assume "\<not> ilog2 m < k"
    then have "(2 :: rat) powi k \<le> 2 powi ilog2 m" by (intro power_int_increasing) simp_all
    with less show False by simp
  qed
qed

section \<open>Conversions\<close>

text \<open>A value of a format is converted to itself.\<close>

lemma round_magnitude_id:
  assumes "magnitude_in f m"
  shows "round_magnitude f m = m"
proof (cases "m \<le> 0")
  case False
  obtain n e where ne: "0 \<le> n" "n < 2 ^ fp_precision f" "fp_emin f - int (fp_precision f) + 1 \<le> e"
      "m = of_int n * 2 powi e"
    using assms by (auto simp: magnitude_in_def)
  have "(of_int n :: rat) < of_int (2 ^ fp_precision f)" using ne(2) by (simp only: of_int_less_iff)
  then have "m < 2 ^ fp_precision f * 2 powi e" unfolding ne(4) by simp
  also have "\<dots> = 2 powi (int (fp_precision f) + e)" by (simp add: power_int_add)
  finally have "ilog2 m < int (fp_precision f) + e" using False by (intro ilog2_less) simp_all
  then have le: "ulp_exponent f m \<le> e" using ne(3) by (simp add: ulp_exponent_def)
  define k where "k = nat (e - ulp_exponent f m)"
  have k: "e = int k + ulp_exponent f m" using le by (simp add: k_def)
  have "m = of_int n * 2 powi (int k + ulp_exponent f m)" unfolding k [symmetric] by (rule ne(4))
  then have scaled: "m = of_int (n * 2 ^ k) * 2 powi ulp_exponent f m"
    by (simp add: power_int_add mult.assoc)
  then have "m / 2 powi ulp_exponent f m = of_int (n * 2 ^ k)" by (simp add: field_simps)
  then show ?thesis
    using scaled False unfolding round_magnitude_def by (simp only: round_half_even_int if_False)
qed (simp add: round_magnitude_def)

lemma fp_convert_id: "fp_in f x \<Longrightarrow> fp_convert f x = x"
  by (cases x) (simp_all add: round_magnitude_id)

text \<open>Otherwise the error is at most half of the last bit.\<close>

lemma round_magnitude_error:
  assumes "0 < m"
  shows "\<bar>round_magnitude f m - m\<bar> \<le> 2 powi ulp_exponent f m / 2"
proof -
  let ?u = "2 powi ulp_exponent f m :: rat"
  have u: "0 < ?u" by simp
  have "round_magnitude f m - m = (of_int (round_half_even (m / ?u)) - m / ?u) * ?u"
    using assms by (simp add: round_magnitude_def left_diff_distrib)
  then have "\<bar>round_magnitude f m - m\<bar> = \<bar>of_int (round_half_even (m / ?u)) - m / ?u\<bar> * ?u"
    using u by (simp add: abs_mult)
  also have "\<dots> \<le> 1 / 2 * ?u" using round_half_even_error [of "m / ?u"] u by (intro mult_right_mono) simp_all
  finally show ?thesis by simp
qed

text \<open>Every 64-bit integer is a value of \<open>long double\<close>.\<close>

lemma magnitude_in_int:
  assumes "0 \<le> i" "i < 2 ^ 64"
  shows "magnitude_in extended80 (of_int i)"
proof -
  have "(of_int i :: rat) = of_int i * 2 powi 0" by simp
  moreover have "(of_int i :: rat) \<le> fp_max extended80"
  proof -
    have p: "fp_precision extended80 = 64" and e: "0 \<le> fp_emax extended80 - int (fp_precision extended80) + 1"
      by (simp_all add: extended80_def)
    have "(of_int i :: rat) \<le> of_int (2 ^ 64 - 1)" using assms(2) by (simp only: of_int_le_iff)
    also have "\<dots> = (2 ^ 64 - 1) * 1" by simp
    also have "\<dots> \<le> (2 ^ 64 - 1) * 2 powi (fp_emax extended80 - int (fp_precision extended80) + 1)"
      by (intro mult_left_mono one_le_power_int e) simp_all
    finally show ?thesis unfolding fp_max_def p .
  qed
  moreover have "i < 2 ^ fp_precision extended80" "fp_emin extended80 - int (fp_precision extended80) + 1 \<le> 0"
    using assms by (simp_all add: extended80_def fp_emin_def)
  ultimately show ?thesis using assms(1) unfolding magnitude_in_def by blast
qed


section \<open>The formats and their order\<close>

definition fp_format_ok :: "fp_format \<Rightarrow> bool" where
  "fp_format_ok f \<longleftrightarrow> 1 \<le> fp_precision f \<and> 1 \<le> fp_emax f"

text \<open>Every value of the first format is a value of the second.\<close>

definition fp_coarser :: "fp_format \<Rightarrow> fp_format \<Rightarrow> bool" where
  "fp_coarser f g \<longleftrightarrow> f = g \<or> (fp_precision f \<le> fp_precision g \<and> fp_emax f < fp_emax g \<and>
     fp_emin g - int (fp_precision g) \<le> fp_emin f - int (fp_precision f))"

lemma fp_formats_ok [simp]:
  "fp_format_ok binary32" "fp_format_ok binary64" "fp_format_ok extended80"
  by (simp_all add: fp_format_ok_def binary32_def binary64_def extended80_def)

lemma fp_formats_coarser [simp]:
  "fp_coarser f f" "fp_coarser binary32 binary64" "fp_coarser binary32 extended80"
  "fp_coarser binary64 extended80"
  by (simp_all add: fp_coarser_def binary32_def binary64_def extended80_def fp_emin_def)

lemma fp_max_bounds:
  assumes "fp_format_ok f"
  shows "2 powi fp_emax f \<le> fp_max f" "fp_max f < 2 powi (fp_emax f + 1)" "0 < fp_max f"
proof -
  let ?p = "fp_precision f" and ?u = "2 powi (fp_emax f - int (fp_precision f) + 1) :: rat"
  have u: "0 < ?u" by simp
  have s: "?p = Suc (?p - 1)" using assms by (simp add: fp_format_ok_def)
  have p: "(1 :: rat) \<le> 2 ^ (?p - 1)" "2 ^ ?p = (2 :: rat) * 2 ^ (?p - 1)"
    by simp (subst s, rule power_Suc)
  have "2 powi fp_emax f = (2 powi (int (?p - 1) + (fp_emax f - int ?p + 1)) :: rat)"
    using assms by (simp add: fp_format_ok_def)
  also have "\<dots> = 2 ^ (?p - 1) * ?u" by (subst power_int_add) simp_all
  finally have low: "2 powi fp_emax f = 2 ^ (?p - 1) * ?u" .
  have "2 powi (fp_emax f + 1) = (2 powi (int ?p + (fp_emax f - int ?p + 1)) :: rat)" by simp
  also have "\<dots> = 2 ^ ?p * ?u" by (subst power_int_add) simp_all
  finally have high: "2 powi (fp_emax f + 1) = 2 ^ ?p * ?u" .
  show "2 powi fp_emax f \<le> fp_max f" unfolding fp_max_def low
    by (rule mult_right_mono) (use p u in linarith)+
  show "fp_max f < 2 powi (fp_emax f + 1)" unfolding fp_max_def high
    by (rule mult_strict_right_mono) (use u in linarith)+
  show "0 < fp_max f" unfolding fp_max_def
    by (rule mult_pos_pos) (use p u in linarith)+
qed

lemma fp_max_coarser:
  assumes "fp_format_ok f" "fp_format_ok g" "fp_coarser f g"
  shows "fp_max f \<le> fp_max g"
proof (cases "f = g")
  case False
  then have "fp_emax f + 1 \<le> fp_emax g" using assms(3) by (simp add: fp_coarser_def)
  then have "(2 :: rat) powi (fp_emax f + 1) \<le> 2 powi fp_emax g" by (intro power_int_increasing) simp_all
  then show ?thesis using fp_max_bounds [OF assms(1)] fp_max_bounds [OF assms(2)] by linarith
qed simp

lemma magnitude_in_coarser:
  assumes "magnitude_in f m" "fp_format_ok f" "fp_format_ok g" "fp_coarser f g"
  shows "magnitude_in g m"
proof (cases "f = g")
  case False
  obtain n e where ne: "0 \<le> n" "n < 2 ^ fp_precision f" "fp_emin f - int (fp_precision f) + 1 \<le> e"
      "m = of_int n * 2 powi e"
    using assms(1) by (auto simp: magnitude_in_def)
  have "(2 :: int) ^ fp_precision f \<le> 2 ^ fp_precision g"
    using assms(4) False by (intro power_increasing) (simp_all add: fp_coarser_def)
  then have "n < 2 ^ fp_precision g" using ne(2) by linarith
  moreover have "fp_emin g - int (fp_precision g) + 1 \<le> e"
    using assms(4) False ne(3) by (simp add: fp_coarser_def)
  moreover have "m \<le> fp_max g"
    using assms(1) fp_max_coarser [OF assms(2-4)] by (simp add: magnitude_in_def)
  ultimately show ?thesis unfolding magnitude_in_def using ne(1,4) by blast
qed (use assms in simp)

lemma fp_in_coarser: "fp_in f x \<Longrightarrow> fp_format_ok f \<Longrightarrow> fp_format_ok g \<Longrightarrow> fp_coarser f g \<Longrightarrow> fp_in g x"
  by (cases x) (auto intro: magnitude_in_coarser)

lemma magnitude_in_max: "fp_format_ok f \<Longrightarrow> magnitude_in f (fp_max f)"
  unfolding magnitude_in_def
  by (intro conjI exI [where x = "2 ^ fp_precision f - 1"] exI [where x = "fp_emax f - int (fp_precision f) + 1"])
    (simp_all add: fp_max_def fp_emin_def fp_format_ok_def)

section \<open>Rounding gives a nearest value of the format\<close>

lemma round_half_even_nearest: "\<bar>of_int (round_half_even q) - q\<bar> \<le> \<bar>of_int k - q\<bar>"
proof (cases "k = round_half_even q")
  case False
  let ?r = "round_half_even q"
  have "(1 :: rat) \<le> \<bar>of_int k - of_int ?r\<bar>"
  proof -
    have "1 \<le> \<bar>k - ?r\<bar>" using False by simp
    then have "(of_int 1 :: rat) \<le> of_int \<bar>k - ?r\<bar>" by (simp only: of_int_le_iff)
    then show ?thesis by simp
  qed
  then show ?thesis using round_half_even_error [of q] by linarith
qed simp

lemma round_half_even_mono_int: "q \<le> of_int k \<Longrightarrow> round_half_even q \<le> k"
proof (rule ccontr)
  assume q: "q \<le> of_int k" and "\<not> round_half_even q \<le> k"
  then have "k + 1 \<le> round_half_even q" by simp
  then have "(of_int (k + 1) :: rat) \<le> of_int (round_half_even q)" by (simp only: of_int_le_iff)
  then show False using q round_half_even_nearest [of q k] by simp
qed

lemma round_half_even_nonneg: "0 \<le> q \<Longrightarrow> 0 \<le> round_half_even q"
  by (auto simp: round_half_even_def Let_def)


text \<open>The last bit: at or above the one of the subnormal numbers, and below the largest number.\<close>

lemma ulp_exponent_le:
  assumes "fp_format_ok f" "0 < m" "m \<le> fp_max f"
  shows "ulp_exponent f m \<le> fp_emax f - int (fp_precision f) + 1"
proof -
  have "m < 2 powi (fp_emax f + 1)" using fp_max_bounds(2) [OF assms(1)] assms(3) by linarith
  then have "ilog2 m < fp_emax f + 1" by (rule ilog2_less [OF assms(2)])
  then show ?thesis using assms(1) by (simp add: ulp_exponent_def fp_emin_def fp_format_ok_def)
qed

lemma scaled_below:
  assumes "fp_format_ok f" "0 < m"
  shows "m / 2 powi ulp_exponent f m \<le> of_int (2 ^ fp_precision f)"
proof -
  have "m < 2 powi (ilog2 m + 1)" by (rule ilog2_bounds(2) [OF assms(2)])
  also have "\<dots> \<le> 2 powi (int (fp_precision f) + ulp_exponent f m)"
    by (rule power_int_increasing) (simp_all add: ulp_exponent_def)
  also have "\<dots> = 2 ^ fp_precision f * 2 powi ulp_exponent f m" by (simp add: power_int_add)
  finally have "m \<le> of_int (2 ^ fp_precision f) * 2 powi ulp_exponent f m" by simp
  then show ?thesis by (simp only: pos_divide_le_eq zero_less_power_int zero_less_numeral)
qed

lemma times_powi_le:
  "a \<le> b \<Longrightarrow> (a :: rat) * 2 powi e \<le> b * 2 powi e"
  by (simp add: mult_right_mono)

lemma round_magnitude_in:
  assumes f: "fp_format_ok f" and m: "0 \<le> m" "m \<le> fp_max f"
  shows "magnitude_in f (round_magnitude f m)"
proof (cases "m = 0")
  case True
  have "magnitude_in f 0" unfolding magnitude_in_def using fp_max_bounds(3) [OF f]
    by (intro conjI exI [where x = 0] exI [where x = "fp_emin f - int (fp_precision f) + 1"]) simp_all
  then show ?thesis using True by (simp add: round_magnitude_def)
next
  case False
  then have pos: "0 < m" using m by simp
  let ?p = "fp_precision f" and ?e = "ulp_exponent f m"
  let ?q = "m / 2 powi ?e"
  define n where "n = round_half_even ?q"
  have val: "round_magnitude f m = of_int n * 2 powi ?e"
    using pos by (simp add: round_magnitude_def n_def)
  have n0: "0 \<le> n" unfolding n_def by (rule round_half_even_nonneg) (use pos in simp)
  have n1: "n \<le> 2 ^ ?p" unfolding n_def by (rule round_half_even_mono_int [OF scaled_below [OF f pos]])
  have e0: "fp_emin f - int ?p + 1 \<le> ?e" by (simp add: ulp_exponent_def)
  have e1: "?e \<le> fp_emax f - int ?p + 1" by (rule ulp_exponent_le [OF f pos m(2)])
  have le_max: "round_magnitude f m \<le> fp_max f"
  proof (cases "?e = fp_emax f - int ?p + 1")
    case True
    have "?q \<le> of_int (2 ^ ?p - 1)"
      using m(2) by (simp add: fp_max_def True pos_divide_le_eq)
    then have "n \<le> 2 ^ ?p - 1" unfolding n_def by (rule round_half_even_mono_int)
    then have "(of_int n :: rat) \<le> of_int (2 ^ ?p - 1)" by (simp only: of_int_le_iff)
    from times_powi_le [OF this, of ?e] show ?thesis unfolding val by (simp add: fp_max_def True)
  next
    case False
    have "(of_int n :: rat) \<le> of_int (2 ^ ?p)" using n1 by (simp only: of_int_le_iff)
    from times_powi_le [OF this, of ?e]
    have "round_magnitude f m \<le> 2 powi (int ?p + ?e)" unfolding val by (simp add: power_int_add)
    also have "\<dots> \<le> 2 powi fp_emax f" by (rule power_int_increasing) (use False e1 in simp_all)
    also have "\<dots> \<le> fp_max f" by (rule fp_max_bounds(1) [OF f])
    finally show ?thesis .
  qed
  show ?thesis
  proof (cases "n = 2 ^ ?p")
    case True
    have "round_magnitude f m = of_int (2 ^ (?p - 1)) * 2 powi (?e + 1)"
    proof -
      have s: "?p = Suc (?p - 1)" using f by (simp add: fp_format_ok_def)
      have "(2 :: rat) ^ ?p = 2 ^ (?p - 1) * 2" by (subst s) (simp only: power_Suc2)
      then show ?thesis unfolding val True by (simp add: power_int_add)
    qed
    moreover have "(2 :: int) ^ (?p - 1) < 2 ^ ?p"
      by (rule power_strict_increasing) (use f in \<open>simp_all add: fp_format_ok_def\<close>)
    moreover have "fp_emin f - int ?p + 1 \<le> ?e + 1" using e0 by simp
    moreover have "(0 :: int) \<le> 2 ^ (?p - 1)" by simp
    ultimately show ?thesis unfolding magnitude_in_def using le_max by blast
  next
    case False
    then have "n < 2 ^ ?p" using n1 by simp
    then show ?thesis unfolding magnitude_in_def using le_max n0 e0 val by blast
  qed
qed

lemma round_magnitude_nearest:
  assumes f: "fp_format_ok f" and m: "0 < m" and x: "magnitude_in f x"
  shows "\<bar>round_magnitude f m - m\<bar> \<le> \<bar>x - m\<bar>"
proof -
  let ?p = "fp_precision f" and ?e = "ulp_exponent f m"
  let ?u = "2 powi ?e :: rat"
  have u: "0 < ?u" by simp
  have multiple: "\<bar>round_magnitude f m - m\<bar> \<le> \<bar>of_int k * ?u - m\<bar>" for k
  proof -
    have "\<bar>of_int (round_half_even (m / ?u)) - m / ?u\<bar> * ?u \<le> \<bar>of_int k - m / ?u\<bar> * ?u"
      by (intro mult_right_mono round_half_even_nearest) simp
    moreover have "\<bar>of_int j - m / ?u\<bar> * ?u = \<bar>of_int j * ?u - m\<bar>" for j
    proof -
      have "of_int j * ?u - m = (of_int j - m / ?u) * ?u" by (simp add: left_diff_distrib)
      then show ?thesis by (simp add: abs_mult)
    qed
    ultimately show ?thesis using m by (simp add: round_magnitude_def)
  qed
  obtain n e where ne: "0 \<le> n" "n < 2 ^ ?p" "fp_emin f - int ?p + 1 \<le> e" "x = of_int n * 2 powi e"
    using x by (auto simp: magnitude_in_def)
  show ?thesis
  proof (cases "?e \<le> e")
    case True
    define k where "k = nat (e - ?e)"
    have "e = int k + ?e" using True by (simp add: k_def)
    then have "x = of_int (n * 2 ^ k) * ?u" unfolding ne(4) by (simp add: power_int_add mult.assoc)
    then show ?thesis using multiple [of "n * 2 ^ k"] by simp
  next
    case False
    then have e: "?e = ilog2 m - int ?p + 1" using ne(3) by (simp add: ulp_exponent_def max_def split: if_splits)
    have "(of_int n :: rat) \<le> of_int (2 ^ ?p)" using ne(2) by (simp only: of_int_le_iff)
    from times_powi_le [OF this, of e] have "x \<le> 2 powi (int ?p + e)"
      unfolding ne(4) by (simp add: power_int_add)
    also have "\<dots> \<le> 2 powi ilog2 m" by (rule power_int_increasing) (use False e in simp_all)
    finally have "x \<le> 2 powi ilog2 m" .
    moreover have "(2 :: rat) powi ilog2 m \<le> m" by (rule ilog2_bounds(1) [OF m])
    moreover have "2 powi ilog2 m = of_int (2 ^ (?p - 1)) * ?u"
    proof -
      have "ilog2 m = int (?p - 1) + ?e" using e f by (simp add: fp_format_ok_def)
      then have "(2 :: rat) powi ilog2 m = 2 powi (int (?p - 1) + ?e)" by (rule arg_cong)
      then show ?thesis by (simp add: power_int_add del: of_nat_diff)
    qed
    ultimately show ?thesis using multiple [of "2 ^ (?p - 1)"] by linarith
  qed
qed


lemma ilog2_eq: "2 powi k \<le> m \<Longrightarrow> m < 2 powi (k + 1) \<Longrightarrow> ilog2 m = k"
proof -
  assume low: "2 powi k \<le> m" and high: "m < 2 powi (k + 1)"
  have m: "0 < m" using low zero_less_power_int [of "2 :: rat" k] by linarith
  have "ilog2 m < k + 1" by (rule ilog2_less [OF m high])
  moreover have "\<not> ilog2 m < k"
  proof
    assume "ilog2 m < k"
    then have "(2 :: rat) powi (ilog2 m + 1) \<le> 2 powi k" by (intro power_int_increasing) simp_all
    then show False using ilog2_bounds(2) [OF m] low by linarith
  qed
  ultimately show ?thesis by simp
qed


lemma round_half_even_eq: "\<bar>q - of_int k\<bar> < 1 / 2 \<Longrightarrow> round_half_even q = k"
proof -
  assume q: "\<bar>q - of_int k\<bar> < 1 / 2"
  let ?r = "round_half_even q"
  have near: "\<bar>of_int ?r - q\<bar> < 1 / 2"
    using q round_half_even_nearest [of q k] by (simp add: abs_minus_commute)
  have "(of_int ?r :: rat) < of_int (k + 1)" "(of_int k :: rat) < of_int (?r + 1)"
    using q near unfolding abs_less_iff of_int_add of_int_1 by linarith+
  then have "?r < k + 1" "k < ?r + 1" by (simp_all only: of_int_less_iff)
  then show ?thesis by simp
qed

lemma round_half_even_tie: "round_half_even (of_int k + 1 / 2) = (if even k then k else k + 1)"
proof -
  have "\<lfloor>of_int k + 1 / 2 :: rat\<rfloor> = k" by (rule floor_unique) simp_all
  then show ?thesis by (simp add: round_half_even_def)
qed

end
