(* ===== verification/Machine.thy ===== *)
theory Machine
  imports Prelude "HOL-Library.Signed_Division"
begin

text \<open>
  C++ integer arithmetic at a fixed width. Unsigned arithmetic is that of words, which wraps as
  C++ requires. Signed arithmetic reads its operands in two's complement (\<open>sint\<close>) and is
  undefined when the exact result is not representable; division is undefined for a zero divisor
  and for the minimum divided by -1, and truncates towards zero.
\<close>

section \<open>Ranges\<close>

definition smin_int :: "'w::len itself \<Rightarrow> int" where
  "smin_int _ = - (2 ^ (LENGTH('w) - 1))"

definition smax_int :: "'w::len itself \<Rightarrow> int" where
  "smax_int _ = 2 ^ (LENGTH('w) - 1) - 1"

definition umax_int :: "'w::len itself \<Rightarrow> int" where
  "umax_int _ = 2 ^ LENGTH('w) - 1"

text \<open>\<open>std::numeric_limits<T>::min()\<close> and \<open>max()\<close> for signed and unsigned \<open>T\<close>.\<close>

definition s_min :: "'w::len word" where
  "s_min = word_of_int (smin_int TYPE('w))"

definition s_max :: "'w::len word" where
  "s_max = word_of_int (smax_int TYPE('w))"

definition u_max :: "'w::len word" where
  "u_max = - 1"

definition s_fits :: "'w::len itself \<Rightarrow> int \<Rightarrow> bool" where
  "s_fits t i \<longleftrightarrow> smin_int t \<le> i \<and> i \<le> smax_int t"

definition u_fits :: "'w::len itself \<Rightarrow> int \<Rightarrow> bool" where
  "u_fits t i \<longleftrightarrow> 0 \<le> i \<and> i \<le> umax_int t"

section \<open>Signed arithmetic\<close>

definition s_of_int :: "int \<Rightarrow> 'w::len word outcome" where
  "s_of_int i = (if s_fits TYPE('w) i then Returns (word_of_int i) else Undefined)"

definition s_add :: "'w::len word \<Rightarrow> 'w word \<Rightarrow> 'w word outcome" where
  "s_add a b = s_of_int (sint a + sint b)"

definition s_sub :: "'w::len word \<Rightarrow> 'w word \<Rightarrow> 'w word outcome" where
  "s_sub a b = s_of_int (sint a - sint b)"

definition s_mul :: "'w::len word \<Rightarrow> 'w word \<Rightarrow> 'w word outcome" where
  "s_mul a b = s_of_int (sint a * sint b)"

definition s_div :: "'w::len word \<Rightarrow> 'w word \<Rightarrow> 'w word outcome" where
  "s_div a b = (if b = 0 then Undefined else s_of_int (sint a sdiv sint b))"

text \<open>Unsigned division is undefined for a zero divisor only.\<close>

definition u_div :: "'w::len word \<Rightarrow> 'w word \<Rightarrow> 'w word outcome" where
  "u_div a b = (if b = 0 then Undefined else Returns (a div b))"

section \<open>Readings\<close>

lemma smin_le_smax: "smin_int t \<le> 0" "0 \<le> smax_int t"
  by (simp_all add: smin_int_def smax_int_def)

lemma smin_smax: "smin_int TYPE('w::len) = - smax_int TYPE('w) - 1"
  by (simp add: smin_int_def smax_int_def)

lemma sint_ge_smin [simp]: "smin_int TYPE('w::len) \<le> sint (a :: 'w word)"
  using sint_ge [of a] by (simp add: smin_int_def)

lemma sint_le_smax [simp]: "sint (a :: 'w::len word) \<le> smax_int TYPE('w)"
  using sint_lt [of a] by (simp add: smax_int_def)

lemma s_fits_sint [simp]: "s_fits TYPE('w::len) (sint (a :: 'w word))"
  by (simp add: s_fits_def)

lemma s_fits_0 [simp]: "s_fits t 0"
  by (simp add: s_fits_def smin_le_smax)

lemma sint_word_of_int_fits [machine_simps]:
  assumes "s_fits TYPE('w::len) i"
  shows "sint (word_of_int i :: 'w word) = i"
proof -
  let ?h = "2 ^ (LENGTH('w) - 1) :: int"
  have half: "(2::int) ^ LENGTH('w) = 2 * ?h"
    by (metis One_nat_def Suc_pred len_gt_0 power_Suc)
  have "0 \<le> i + ?h" "i + ?h < 2 * ?h"
    using assms by (auto simp: s_fits_def smin_int_def smax_int_def)
  then show ?thesis
    by (simp add: int_word_sint half mod_pos_pos_trivial)
qed

text \<open>A representable signed operation returns, and its word reads as the exact result.\<close>

lemma s_of_int_fits:
  "s_fits TYPE('w::len) i \<Longrightarrow> \<exists>q :: 'w word. s_of_int i = Returns q \<and> sint q = i"
  by (simp add: s_of_int_def sint_word_of_int_fits)

lemma s_add_fits [machine_simps]:
  "s_fits TYPE('w::len) (sint a + sint b) \<Longrightarrow> s_add a b = Returns (a + b :: 'w word)"
  by (simp add: s_add_def s_of_int_def)

lemma s_mul_fits [machine_simps]:
  "s_fits TYPE('w::len) (sint a * sint b) \<Longrightarrow> s_mul a b = Returns (a * b :: 'w word)"
  by (simp add: s_mul_def s_of_int_def)

lemma sint_add_fits [machine_simps]:
  "s_fits TYPE('w::len) (sint a + sint b) \<Longrightarrow> sint (a + b :: 'w word) = sint a + sint b"
  using sint_word_of_int_fits [of "sint a + sint b", where 'w = 'w] by simp

lemma sint_mul_fits [machine_simps]:
  "s_fits TYPE('w::len) (sint a * sint b) \<Longrightarrow> sint (a * b :: 'w word) = sint a * sint b"
  using sint_word_of_int_fits [of "sint a * sint b", where 'w = 'w] by simp

lemma sint_s_min [simp]: "sint (s_min :: 'w::len word) = smin_int TYPE('w)"
  unfolding s_min_def by (rule sint_word_of_int_fits) (simp add: s_fits_def smin_int_def smax_int_def)

lemma sint_s_max [simp]: "sint (s_max :: 'w::len word) = smax_int TYPE('w)"
  unfolding s_max_def by (rule sint_word_of_int_fits) (simp add: s_fits_def smin_int_def smax_int_def)

lemma uint_le_umax [simp]: "uint (a :: 'w::len word) \<le> umax_int TYPE('w)"
  using uint_lt2p [of a] by (simp add: umax_int_def)

lemma uint_u_max [simp]: "uint (u_max :: 'w::len word) = umax_int TYPE('w)"
  by (simp add: u_max_def umax_int_def unsigned_minus_1_eq_mask mask_eq_exp_minus_1)

lemma word_eq_sint: "a = b \<longleftrightarrow> sint a = sint (b :: 'w::len word)"
  by (auto dest: arg_cong [of _ _ "word_of_int :: int \<Rightarrow> 'w word"])

lemma sint_eq_0_iff: "sint (a :: 'w::len word) = 0 \<longleftrightarrow> a = 0"
  by (simp add: word_eq_sint)

lemma sint_uint_nonneg:
  assumes "0 \<le> sint (a :: 'w::len word)"
  shows "uint a = sint a"
proof -
  have "(2::int) ^ (LENGTH('w) - 1) \<le> 2 ^ LENGTH('w)"
    by (intro power_increasing) auto
  with assms sint_lt [of a] have "sint a < 2 ^ LENGTH('w)" by linarith
  with assms show ?thesis by (simp add: uint_sint take_bit_int_eq_self)
qed

lemma uint_word_of_int_fits [machine_simps]:
  "0 \<le> i \<Longrightarrow> i \<le> umax_int TYPE('w::len) \<Longrightarrow> uint (word_of_int i :: 'w word) = i"
  by (simp add: umax_int_def uint_word_of_int mod_pos_pos_trivial)

section \<open>The arithmetic at 64 and 32 bits\<close>

lemma limits_64 [simp]:
  "smin_int TYPE(64) = - 9223372036854775808"
  "smax_int TYPE(64) = 9223372036854775807"
  "umax_int TYPE(64) = 18446744073709551615"
  by (simp_all add: smin_int_def smax_int_def umax_int_def)

lemma limits_32 [simp]:
  "smin_int TYPE(32) = - 2147483648"
  "smax_int TYPE(32) = 2147483647"
  "umax_int TYPE(32) = 4294967295"
  by (simp_all add: smin_int_def smax_int_def umax_int_def)

end
