(* ===== verification/Decimal.thy ===== *)
theory Decimal
  imports Machine "HOL-Library.Char_ord"
begin

text \<open>
  The two pieces of the C++ standard library that turn integers into text and back:
  \<open>std::to_string\<close> (also what \<open>operator<<\<close> prints for an integer) and \<open>std::from_chars\<close> in
  base 10 at type \<open>std::int64_t\<close>.
\<close>

section \<open>Digits\<close>

definition is_digit :: "char \<Rightarrow> bool" where
  "is_digit c \<longleftrightarrow> 48 \<le> (of_char c :: nat) \<and> (of_char c :: nat) \<le> 57"

definition digit_value :: "char \<Rightarrow> nat" where
  "digit_value c = of_char c - 48"

definition digit_char :: "nat \<Rightarrow> char" where
  "digit_char d = char_of (48 + d)"

fun digits_of :: "nat \<Rightarrow> string" where
  "digits_of n =
     (if n < 10 then [digit_char n] else digits_of (n div 10) @ [digit_char (n mod 10)])"

declare digits_of.simps [simp del]

definition value_of_digits :: "string \<Rightarrow> nat" where
  "value_of_digits s = foldl (\<lambda>a c. a * 10 + digit_value c) 0 s"

text \<open>\<open>std::to_string\<close> of a signed integer.\<close>

definition to_string_int :: "int \<Rightarrow> string" where
  "to_string_int i = (if i < 0 then CHR ''-'' # digits_of (nat (- i)) else digits_of (nat i))"

section \<open>\<open>std::from_chars\<close>\<close>

datatype errc = Errc_ok | Errc_invalid_argument | Errc_result_out_of_range

text \<open>
  The subject is an optional minus sign and the longest run of digits after it. Without a digit
  nothing is consumed and the error is \<open>invalid_argument\<close>; when the number does not fit, the digits
  are consumed, the error is \<open>result_out_of_range\<close> and the destination keeps its old value.
  The result is the unread rest of the input (\<open>end\<close>), the error and the destination.
\<close>

definition from_chars_i64 :: "string \<Rightarrow> i64 \<Rightarrow> string \<times> errc \<times> i64" where
  "from_chars_i64 text dest =
     (let negative = (case text of c # _ \<Rightarrow> c = CHR ''-'' | [] \<Rightarrow> False);
          body = (if negative then tl text else text);
          digits = takeWhile is_digit body;
          rest = dropWhile is_digit body;
          magnitude = int (value_of_digits digits);
          i = (if negative then - magnitude else magnitude)
      in if digits = [] then (text, Errc_invalid_argument, dest)
         else if s_fits TYPE(64) i then (rest, Errc_ok, word_of_int i)
         else (rest, Errc_result_out_of_range, dest))"

section \<open>Round trip\<close>

lemma of_digit_char: "d < 10 \<Longrightarrow> (of_char (digit_char d) :: nat) = 48 + d"
  by (simp add: digit_char_def)

lemma is_digit_digit_char [simp]: "d < 10 \<Longrightarrow> is_digit (digit_char d)"
  by (simp add: is_digit_def of_digit_char)

lemma digit_value_digit_char [simp]: "d < 10 \<Longrightarrow> digit_value (digit_char d) = d"
  by (simp add: digit_value_def of_digit_char)

lemma minus_not_digit [simp]: "\<not> is_digit (CHR ''-'')"
  by (simp add: is_digit_def)

lemma colon_not_digit [simp]: "\<not> is_digit (CHR '':'')"
  by (simp add: is_digit_def)

lemma digits_of_digits: "\<forall>c\<in>set (digits_of n). is_digit c"
proof (induction n rule: digits_of.induct)
  case (1 n)
  then show ?case by (subst digits_of.simps) auto
qed

lemma digits_of_not_Nil [simp]: "digits_of n \<noteq> []"
  by (subst digits_of.simps) simp

lemma value_of_digits_snoc: "value_of_digits (s @ [c]) = value_of_digits s * 10 + digit_value c"
  by (simp add: value_of_digits_def)

lemma value_of_digits_of [simp]: "value_of_digits (digits_of n) = n"
proof (induction n rule: digits_of.induct)
  case (1 n)
  show ?case
  proof (cases "n < 10")
    case True
    then show ?thesis by (subst digits_of.simps) (simp add: value_of_digits_def)
  next
    case False
    with 1 show ?thesis
      by (subst digits_of.simps) (simp add: value_of_digits_snoc)
  qed
qed

lemma digits_of_eq_iff [simp]: "digits_of m = digits_of n \<longleftrightarrow> m = n"
  by (metis value_of_digits_of)

lemma hd_digits_of_not_minus: "digits_of n \<noteq> CHR ''-'' # t"
  using digits_of_digits [of n] by (auto simp: list.set_intros)

lemma from_chars_digits_of:
  assumes "int n \<le> smax_int TYPE(64)"
  shows "from_chars_i64 (digits_of n) dest = ([], Errc_ok, word_of_int (int n))"
proof -
  have "(case digits_of n of c # _ \<Rightarrow> c = CHR ''-'' | [] \<Rightarrow> False) = False"
    using hd_digits_of_not_minus by (auto split: list.splits)
  moreover have "s_fits TYPE(64) (int n)" using assms by (simp add: s_fits_def)
  ultimately show ?thesis
    using digits_of_digits [of n]
    by (simp add: from_chars_i64_def Let_def takeWhile_id dropWhile_Nil)
qed

lemma to_string_int_nonneg: "0 \<le> i \<Longrightarrow> to_string_int i = digits_of (nat i)"
  by (simp add: to_string_int_def)

lemma set_to_string_int: "c \<in> set (to_string_int i) \<Longrightarrow> is_digit c \<or> c = CHR ''-''"
  using digits_of_digits by (auto simp: to_string_int_def split: if_splits)

section \<open>What a numeric text is read as\<close>

text \<open>A numeral of \<open>std::from_chars\<close>: an optional minus sign and at least one digit.\<close>

definition signed_numeral :: "string \<Rightarrow> int \<Rightarrow> bool" where
  "signed_numeral s i \<longleftrightarrow> (\<exists>ds. ds \<noteq> [] \<and> list_all is_digit ds \<and>
     (s = ds \<and> i = int (value_of_digits ds) \<or> s = CHR ''-'' # ds \<and> i = - int (value_of_digits ds)))"

lemma from_chars_minus:
  "from_chars_i64 (CHR ''-'' # b) dest =
    (let i = - int (value_of_digits (takeWhile is_digit b))
     in if takeWhile is_digit b = [] then (CHR ''-'' # b, Errc_invalid_argument, dest)
        else if s_fits TYPE(64) i then (dropWhile is_digit b, Errc_ok, word_of_int i)
        else (dropWhile is_digit b, Errc_result_out_of_range, dest))"
  by (simp add: from_chars_i64_def Let_def)

lemma from_chars_plain:
  assumes "\<nexists>b. s = CHR ''-'' # b"
  shows "from_chars_i64 s dest =
    (let i = int (value_of_digits (takeWhile is_digit s))
     in if takeWhile is_digit s = [] then (s, Errc_invalid_argument, dest)
        else if s_fits TYPE(64) i then (dropWhile is_digit s, Errc_ok, word_of_int i)
        else (dropWhile is_digit s, Errc_result_out_of_range, dest))"
  using assms by (cases s) (simp_all add: from_chars_i64_def Let_def)

text \<open>A list is all digits and not empty exactly when it is its own non-empty run of digits.\<close>

lemma digit_run:
  "takeWhile is_digit b \<noteq> [] \<and> dropWhile is_digit b = [] \<longleftrightarrow> b \<noteq> [] \<and> list_all is_digit b"
  by (auto simp: dropWhile_eq_Nil_conv list_all_iff takeWhile_id)

lemma not_digit_run:
  "\<not> (b \<noteq> [] \<and> list_all is_digit b) \<Longrightarrow> takeWhile is_digit b = [] \<or> dropWhile is_digit b \<noteq> []"
  using digit_run by blast

lemma from_chars_ok_minus:
  "from_chars_i64 (CHR ''-'' # b) dest = ('''', Errc_ok, w) \<longleftrightarrow>
    b \<noteq> [] \<and> list_all is_digit b \<and> s_fits TYPE(64) (- int (value_of_digits b)) \<and>
    w = word_of_int (- int (value_of_digits b))"
proof (cases "b \<noteq> [] \<and> list_all is_digit b")
  case True
  then have run: "takeWhile is_digit b = b" "dropWhile is_digit b = []"
    by (simp_all add: list_all_iff takeWhile_id dropWhile_Nil)
  show ?thesis unfolding from_chars_minus Let_def run using True by auto
next
  case False
  then show ?thesis using not_digit_run [OF False] by (auto simp: from_chars_minus Let_def)
qed

lemma from_chars_ok_plain:
  assumes "\<nexists>b. s = CHR ''-'' # b"
  shows "from_chars_i64 s dest = ('''', Errc_ok, w) \<longleftrightarrow>
    s \<noteq> [] \<and> list_all is_digit s \<and> s_fits TYPE(64) (int (value_of_digits s)) \<and>
    w = word_of_int (int (value_of_digits s))"
proof (cases "s \<noteq> [] \<and> list_all is_digit s")
  case True
  then have run: "takeWhile is_digit s = s" "dropWhile is_digit s = []"
    by (simp_all add: list_all_iff takeWhile_id dropWhile_Nil)
  show ?thesis unfolding from_chars_plain [OF assms] Let_def run using True by auto
next
  case False
  then show ?thesis using not_digit_run [OF False] by (auto simp: from_chars_plain [OF assms] Let_def)
qed

lemma sint_eq_word_of_int:
  fixes w :: i64
  shows "s_fits TYPE(64) i \<and> w = word_of_int i \<longleftrightarrow> sint w = i"
proof
  assume a: "s_fits TYPE(64) i \<and> w = word_of_int i"
  then have "sint (word_of_int i :: i64) = i" by (intro sint_word_of_int_fits) simp
  with a show "sint w = i" by simp
next
  assume "sint w = i"
  then show "s_fits TYPE(64) i \<and> w = word_of_int i" using s_fits_sint [of w] by auto
qed

text \<open>\<open>from_chars\<close> consumes a whole text without error exactly when it is a numeral of the value.\<close>

lemma from_chars_ok_iff:
  "from_chars_i64 s dest = ('''', Errc_ok, w) \<longleftrightarrow> signed_numeral s (sint w)"
proof (cases "\<exists>b. s = CHR ''-'' # b")
  case True
  then obtain b where b: "s = CHR ''-'' # b" by blast
  show ?thesis
    unfolding b from_chars_ok_minus sint_eq_word_of_int signed_numeral_def by auto
next
  case False
  then show ?thesis
    unfolding from_chars_ok_plain [OF False] sint_eq_word_of_int signed_numeral_def by auto
qed

lemma signed_numeral_to_string [simp]: "signed_numeral (to_string_int i) i"
  using digits_of_digits
  by (cases "i < 0") (auto simp: signed_numeral_def to_string_int_def list_all_iff
      intro!: exI [of _ "digits_of (nat (- i))"] exI [of _ "digits_of (nat i)"])

lemma signed_numeral_fun: "signed_numeral s i \<Longrightarrow> signed_numeral s j \<Longrightarrow> i = j"
  by (auto simp: signed_numeral_def)

end
