(* ===== verification/Status.thy ===== *)
theory Status
  imports Decimal
begin

text \<open>
  \<open>core/status.h\<close>, \<open>core/status.cc\<close> and \<open>core/result.h\<close>: error codes, the \<open>Status\<close> a fallible
  operation reports and the \<open>Result\<close> that holds a value or such a status.

  A scoped enumeration with a fixed underlying type has every value of that type, named or not
  (the sources and their tests form unnamed ones with \<open>static_cast\<close>), so an enumeration is its
  underlying word under a constructor of its own, and the enumerators abbreviate their values.
\<close>

section \<open>Error codes\<close>

datatype ErrorCode = ErrorCode (error_code_bits: u8)

abbreviation "kOk \<equiv> ErrorCode 0"
abbreviation "kInvalidArgument \<equiv> ErrorCode 1"
abbreviation "kOutOfRange \<equiv> ErrorCode 2"
abbreviation "kOverflow \<equiv> ErrorCode 3"
abbreviation "kNotFound \<equiv> ErrorCode 4"
abbreviation "kAlreadyExists \<equiv> ErrorCode 5"
abbreviation "kUnavailable \<equiv> ErrorCode 6"
abbreviation "kResourceExhausted \<equiv> ErrorCode 7"
abbreviation "kFailedPrecondition \<equiv> ErrorCode 8"
abbreviation "kInternal \<equiv> ErrorCode 9"
abbreviation "kNotImplemented \<equiv> ErrorCode 10"

definition error_code_name :: "ErrorCode \<Rightarrow> string" where
  "error_code_name code =
     (if code = kOk then ''Ok''
      else if code = kInvalidArgument then ''InvalidArgument''
      else if code = kOutOfRange then ''OutOfRange''
      else if code = kOverflow then ''Overflow''
      else if code = kNotFound then ''NotFound''
      else if code = kAlreadyExists then ''AlreadyExists''
      else if code = kUnavailable then ''Unavailable''
      else if code = kResourceExhausted then ''ResourceExhausted''
      else if code = kFailedPrecondition then ''FailedPrecondition''
      else if code = kInternal then ''Internal''
      else if code = kNotImplemented then ''NotImplemented''
      else ''Unknown'')"

section \<open>Status\<close>

text \<open>
  A \<open>std::source_location\<close> as far as the sources read it: the file and the line. The location a
  call passes by its default argument is written out at the call as the file's path in the
  repository and the line of the call.
\<close>

record source_location =
  file_name :: string
  line_number :: u32

abbreviation loc :: "string \<Rightarrow> u32 \<Rightarrow> source_location" where
  "loc f l \<equiv> \<lparr>file_name = f, line_number = l\<rparr>"

record Status =
  st_code :: ErrorCode
  st_message :: string
  st_location :: source_location

text \<open>The default constructor, \<open>Status() noexcept = default\<close>: an OK status.\<close>

definition Status_default :: Status where
  "Status_default =
     \<lparr>st_code = kOk, st_message = '''', st_location = loc ''include/gradyx/core/status.h'' 31\<rparr>"

definition ok_status :: Status where
  "ok_status = Status_default"

definition status_error :: "ErrorCode \<Rightarrow> string \<Rightarrow> source_location \<Rightarrow> Status" where
  "status_error code message location =
     (if code = kOk
      then \<lparr>st_code = kInternal, st_message = ''an error Status cannot use ErrorCode::kOk'',
            st_location = location\<rparr>
      else \<lparr>st_code = code, st_message = message, st_location = location\<rparr>)"

definition status_invalid_argument :: "string \<Rightarrow> source_location \<Rightarrow> Status" where
  "status_invalid_argument message location = status_error kInvalidArgument message location"

definition status_out_of_range :: "string \<Rightarrow> source_location \<Rightarrow> Status" where
  "status_out_of_range message location = status_error kOutOfRange message location"

definition status_overflow :: "string \<Rightarrow> source_location \<Rightarrow> Status" where
  "status_overflow message location = status_error kOverflow message location"

definition status_unavailable :: "string \<Rightarrow> source_location \<Rightarrow> Status" where
  "status_unavailable message location = status_error kUnavailable message location"

definition status_internal :: "string \<Rightarrow> source_location \<Rightarrow> Status" where
  "status_internal message location = status_error kInternal message location"

definition status_ok :: "Status \<Rightarrow> bool" where
  "status_ok s \<longleftrightarrow> st_code s = kOk"

definition status_to_string :: "Status \<Rightarrow> string" where
  "status_to_string s =
     (if status_ok s then ''Ok''
      else error_code_name (st_code s) @ '': '' @ st_message s @ '' ['' @ file_name (st_location s)
           @ '':'' @ digits_of (unat (line_number (st_location s))) @ '']'')"

section \<open>Result\<close>

text \<open>The \<open>std::variant<T, Status>\<close> of a \<open>Result<T>\<close>.\<close>

datatype 'a Result = Holds 'a | Fails Status

definition normalize_error :: "Status \<Rightarrow> Status" where
  "normalize_error status =
     (if status_ok status
      then status_internal ''Result cannot be constructed from an OK status''
             (loc ''include/gradyx/core/result.h'' 57)
      else status)"

definition result_of_value :: "'a \<Rightarrow> 'a Result" where
  "result_of_value v = Holds v"

definition result_of_status :: "Status \<Rightarrow> 'a Result" where
  "result_of_status status = Fails (normalize_error status)"

definition result_ok :: "'a Result \<Rightarrow> bool" where
  "result_ok r = (case r of Holds _ \<Rightarrow> True | Fails _ \<Rightarrow> False)"

definition result_status :: "'a Result \<Rightarrow> Status" where
  "result_status r = (case r of Fails s \<Rightarrow> s | Holds _ \<Rightarrow> ok_status)"

text \<open>\<open>ensure_value\<close>, and \<open>value()\<close>, which \<open>operator*\<close> and \<open>operator->\<close> call.\<close>

definition ensure_value :: "'a Result \<Rightarrow> unit outcome" where
  "ensure_value r =
     (if \<not> result_ok r then Throws (Logic_error_exn (status_to_string (result_status r)))
      else Returns ())"

definition result_value :: "'a Result \<Rightarrow> 'a outcome" where
  "result_value r =
     bnd (ensure_value r) (\<lambda>_. case r of Holds v \<Rightarrow> Returns v | Fails _ \<Rightarrow> Undefined)"

text \<open>
  The idiom by which the sources propagate an error:
  \<^verbatim>\<open>auto x = f(); if (!x) { return x.status(); } ... *x ...\<close>
\<close>

definition result_try :: "'a Result \<Rightarrow> ('a \<Rightarrow> 'b Result outcome) \<Rightarrow> 'b Result outcome" where
  "result_try r k =
     (if \<not> result_ok r then Returns (result_of_status (result_status r))
      else bnd (result_value r) k)"

text \<open>A well-formed result never stores an OK status.\<close>

definition result_wf :: "'a Result \<Rightarrow> bool" where
  "result_wf r = (case r of Holds _ \<Rightarrow> True | Fails s \<Rightarrow> \<not> status_ok s)"

section \<open>Lemmas\<close>

lemmas status_factories =
  status_invalid_argument_def status_out_of_range_def status_overflow_def status_unavailable_def
  status_internal_def

lemma status_error_not_ok [simp]: "\<not> status_ok (status_error c m l)"
  by (simp add: status_ok_def status_error_def)

lemma factories_not_ok [simp]:
  "\<not> status_ok (status_invalid_argument m l)" "\<not> status_ok (status_out_of_range m l)"
  "\<not> status_ok (status_overflow m l)" "\<not> status_ok (status_unavailable m l)"
  "\<not> status_ok (status_internal m l)"
  by (simp_all add: status_factories)

lemma code_status_error [simp]:
  "st_code (status_error c m l) = (if c = kOk then kInternal else c)"
  by (simp add: status_error_def)

lemma code_factories [simp]:
  "st_code (status_invalid_argument m l) = kInvalidArgument"
  "st_code (status_out_of_range m l) = kOutOfRange"
  "st_code (status_overflow m l) = kOverflow"
  "st_code (status_unavailable m l) = kUnavailable"
  "st_code (status_internal m l) = kInternal"
  by (simp_all add: status_factories)

lemma status_ok_default [simp]: "status_ok Status_default" "status_ok ok_status"
  by (simp_all add: status_ok_def Status_default_def ok_status_def)

lemma normalize_error_id [simp]: "\<not> status_ok s \<Longrightarrow> normalize_error s = s"
  by (simp add: normalize_error_def)

lemma normalize_error_not_ok [simp]: "\<not> status_ok (normalize_error s)"
  by (simp add: normalize_error_def)

lemma result_ok_simps [simp]: "result_ok (Holds v)" "\<not> result_ok (Fails s)"
  by (simp_all add: result_ok_def)

lemma result_status_simps [simp]: "result_status (Holds v) = ok_status" "result_status (Fails s) = s"
  by (simp_all add: result_status_def)

lemma result_value_simps [simp]:
  "result_value (Holds v) = Returns v"
  "result_value (Fails s) = Throws (Logic_error_exn (status_to_string s))"
  by (simp_all add: result_value_def ensure_value_def)

lemma result_of_status_error [simp]: "\<not> status_ok s \<Longrightarrow> result_of_status s = Fails s"
  by (simp add: result_of_status_def)

lemma result_try_simps [simp]:
  "result_try (Holds v) k = k v"
  "\<not> status_ok s \<Longrightarrow> result_try (Fails s) k = Returns (Fails s)"
  by (simp_all add: result_try_def)

lemma result_wf_simps [simp]: "result_wf (Holds v)" "result_wf (Fails s) \<longleftrightarrow> \<not> status_ok s"
  by (simp_all add: result_wf_def)

lemma result_wf_of_status [simp]: "result_wf (result_of_status s)"
  by (simp add: result_of_status_def)

lemma result_of_status_not_Holds [simp]: "result_of_status s \<noteq> Holds v" "Holds v \<noteq> result_of_status s"
  by (simp_all add: result_of_status_def)

lemma result_try_holds_iff:
  "result_try r k = Returns (Holds d) \<longleftrightarrow> (\<exists>v. r = Holds v \<and> k v = Returns (Holds d))"
  by (cases r) (simp_all add: result_try_def)

section \<open>The result invariant\<close>

text \<open>A result never carries an OK status: storing one is turned into an Internal error, any other
  status is stored as it is, and reading the status back gives OK exactly for a result that holds a
  value. The factory of errors normalises the code kOk in the same way.\<close>

theorem result_never_stores_ok:
  "result_status (result_of_status s :: 'a Result) =
     (if status_ok s then status_internal ''Result cannot be constructed from an OK status''
        (loc ''include/gradyx/core/result.h'' 57) else s) \<and>
   \<not> result_ok (result_of_status s :: 'a Result) \<and>
   \<not> status_ok (result_status (result_of_status s :: 'a Result)) \<and>
   status_ok (result_status (result_of_value v)) \<and> result_ok (result_of_value v) \<and>
   \<not> status_ok (status_error c m l) \<and>
   st_code (status_error c m l) = (if c = kOk then kInternal else c)"
  by (simp add: result_of_status_def normalize_error_def result_of_value_def)

text \<open>Reading the value of a result returns the value or throws a \<open>std::logic_error\<close> whose text is the
  stored status printed as code name, message, file and line; it never reads the wrong alternative
  of the variant.\<close>

theorem result_value_checked:
  "result_value (result_of_value v) = Returns v \<and>
   result_value (result_of_status (status_error c m l) :: 'a Result) =
     Throws (Logic_error_exn
       (error_code_name (if c = kOk then kInternal else c) @ '': '' @
        (if c = kOk then ''an error Status cannot use ErrorCode::kOk'' else m) @
        '' ['' @ file_name l @ '':'' @ to_string_int (int (unat (line_number l))) @ '']'')) \<and>
   result_value r \<noteq> Undefined"
proof (intro conjI)
  show "result_value (result_of_value v) = Returns v" by (simp add: result_of_value_def)
  show "result_value (result_of_status (status_error c m l) :: 'a Result) =
     Throws (Logic_error_exn
       (error_code_name (if c = kOk then kInternal else c) @ '': '' @
        (if c = kOk then ''an error Status cannot use ErrorCode::kOk'' else m) @
        '' ['' @ file_name l @ '':'' @ to_string_int (int (unat (line_number l))) @ '']''))"
    by (simp add: status_to_string_def to_string_int_nonneg) (simp add: status_error_def)
  show "result_value r \<noteq> Undefined" by (cases r) simp_all
qed

end
