(* ===== verification/CheckedMath.thy ===== *)
theory CheckedMath
  imports Status
begin

text \<open>
  \<open>core/checked_math.h\<close>: addition and multiplication that report overflow. Both templates branch
  on the signedness of \<open>T\<close> (\<open>if constexpr\<close>), so each gives two definitions, generic in the width.
  For a \<open>T\<close> narrower than \<open>int\<close> the C++ operands are promoted; the intermediate values below all fit
  the width of \<open>T\<close> already, so the promotion changes none of them.
\<close>

section \<open>The operations\<close>

abbreviation cm_loc :: "u32 \<Rightarrow> source_location" where
  "cm_loc l \<equiv> loc ''include/gradyx/core/checked_math.h'' l"

abbreviation add_overflow :: "u32 \<Rightarrow> Status" where
  "add_overflow l \<equiv> status_overflow ''integer addition overflow'' (cm_loc l)"

abbreviation mul_overflow :: "u32 \<Rightarrow> Status" where
  "mul_overflow l \<equiv> status_overflow ''integer multiplication overflow'' (cm_loc l)"

definition checked_add_unsigned :: "'w::len word \<Rightarrow> 'w word \<Rightarrow> 'w word Result outcome" where
  "checked_add_unsigned lhs rhs =
     (if lhs > u_max - rhs then Returns (result_of_status (add_overflow 19))
      else Returns (result_of_value (lhs + rhs)))"

definition checked_add_signed :: "'w::len word \<Rightarrow> 'w word \<Rightarrow> 'w word Result outcome" where
  "checked_add_signed lhs rhs =
     bnd (c_or (c_and (0 <s rhs) (bnd (s_sub s_max rhs) (\<lambda>d. Returns (d <s lhs))))
               (c_and (rhs <s 0) (bnd (s_sub s_min rhs) (\<lambda>d. Returns (lhs <s d)))))
       (\<lambda>over. if over then Returns (result_of_status (add_overflow 23))
         else bnd (s_add lhs rhs) (\<lambda>s. Returns (result_of_value s)))"

definition checked_multiply_unsigned :: "'w::len word \<Rightarrow> 'w word \<Rightarrow> 'w word Result outcome" where
  "checked_multiply_unsigned lhs rhs =
     (if lhs = 0 \<or> rhs = 0 then Returns (result_of_value 0)
      else bnd (u_div u_max rhs) (\<lambda>q.
        if lhs > q then Returns (result_of_status (mul_overflow 41))
        else Returns (result_of_value (lhs * rhs))))"

definition checked_multiply_signed :: "'w::len word \<Rightarrow> 'w word \<Rightarrow> 'w word Result outcome" where
  "checked_multiply_signed lhs rhs =
     (if lhs = 0 \<or> rhs = 0 then Returns (result_of_value 0)
      else if (lhs = - 1 \<and> rhs = s_min) \<or> (rhs = - 1 \<and> lhs = s_min)
      then Returns (result_of_status (mul_overflow 45))
      else bnd
        (c_or (c_or (c_or
          (c_and (0 <s lhs \<and> 0 <s rhs) (bnd (s_div s_max rhs) (\<lambda>q. Returns (q <s lhs))))
          (c_and (0 <s lhs \<and> rhs <s 0) (bnd (s_div s_min lhs) (\<lambda>q. Returns (rhs <s q)))))
          (c_and (lhs <s 0 \<and> 0 <s rhs) (bnd (s_div s_min rhs) (\<lambda>q. Returns (lhs <s q)))))
          (c_and (lhs <s 0 \<and> rhs <s 0) (bnd (s_div s_max rhs) (\<lambda>q. Returns (lhs <s q)))))
        (\<lambda>over. if over then Returns (result_of_status (mul_overflow 51))
          else bnd (s_mul lhs rhs) (\<lambda>p. Returns (result_of_value p))))"

section \<open>Exactness\<close>

lemma umax_minus: "uint (u_max - rhs :: 'w::len word) = umax_int TYPE('w) - uint rhs"
  by (simp add: uint_sub_if' flip: not_less)
    (metis diff_ge_0_iff_ge uint_le_umax not_less)

lemma checked_add_unsigned_exact:
  fixes lhs rhs :: "'w::len word"
  shows "checked_add_unsigned lhs rhs =
    (if uint lhs + uint rhs \<le> umax_int TYPE('w) then Returns (Holds (lhs + rhs))
     else Returns (Fails (add_overflow 19)))"
proof -
  have "lhs > u_max - rhs \<longleftrightarrow> \<not> uint lhs + uint rhs \<le> umax_int TYPE('w)"
    by (simp add: word_less_def umax_minus) linarith
  then show ?thesis
    by (simp add: checked_add_unsigned_def result_of_value_def)
qed

lemma s_sub_fits:
  assumes "s_fits TYPE('w::len) (sint a - sint (b :: 'w word))"
  shows "\<exists>d. s_sub a b = Returns d \<and> sint d = sint a - sint b"
  using s_of_int_fits [OF assms] by (simp add: s_sub_def)

lemma checked_add_signed_exact:
  fixes lhs rhs :: "'w::len word"
  shows "checked_add_signed lhs rhs =
    (if s_fits TYPE('w) (sint lhs + sint rhs) then Returns (Holds (lhs + rhs))
     else Returns (Fails (add_overflow 23)))"
proof -
  note b = sint_ge_smin [of lhs] sint_le_smax [of lhs] sint_ge_smin [of rhs] sint_le_smax [of rhs]
    smin_le_smax [of "TYPE('w)"] smin_smax [where 'w = 'w]
  consider "0 < sint rhs" | "sint rhs < 0" | "sint rhs = 0" by linarith
  then show ?thesis
  proof cases
    case 1
    then have "s_fits TYPE('w) (sint (s_max :: 'w word) - sint rhs)"
      unfolding s_fits_def sint_s_max using b by linarith
    then obtain d where d: "s_sub s_max rhs = Returns d" "sint d = smax_int TYPE('w) - sint rhs"
      using s_sub_fits [of s_max rhs] by auto
    have "s_fits TYPE('w) (sint lhs + sint rhs) \<longleftrightarrow> \<not> sint d < sint lhs"
      unfolding s_fits_def d using 1 b by linarith
    with 1 d(1) show ?thesis
      by (simp add: checked_add_signed_def word_sless_alt machine_simps result_of_value_def)
  next
    case 2
    then have "s_fits TYPE('w) (sint (s_min :: 'w word) - sint rhs)"
      unfolding s_fits_def sint_s_min using b by linarith
    then obtain d where d: "s_sub s_min rhs = Returns d" "sint d = smin_int TYPE('w) - sint rhs"
      using s_sub_fits [of s_min rhs] by auto
    have "s_fits TYPE('w) (sint lhs + sint rhs) \<longleftrightarrow> \<not> sint lhs < sint d"
      unfolding s_fits_def d using 2 b by linarith
    with 2 d(1) show ?thesis
      by (simp add: checked_add_signed_def word_sless_alt machine_simps result_of_value_def)
  next
    case 3
    then have "rhs = 0" by (simp add: sint_eq_0_iff)
    then show ?thesis
      by (simp add: checked_add_signed_def result_of_value_def s_add_def s_of_int_def)
  qed
qed

lemma div_less_iff_int:
  fixes a b m :: int
  assumes "0 < b"
  shows "m div b < a \<longleftrightarrow> m < a * b"
proof -
  have "a \<le> m div b \<longleftrightarrow> a * b \<le> m"
  proof
    assume "a \<le> m div b"
    then have "a * b \<le> m div b * b" using assms by (intro mult_right_mono) auto
    also have "\<dots> \<le> m" using assms pos_mod_sign [of b m] div_mult_mod_eq [of m b] by linarith
    finally show "a * b \<le> m" .
  next
    assume "a * b \<le> m"
    then have "a * b div b \<le> m div b" using assms by (intro zdiv_mono1)
    then show "a \<le> m div b" using assms by simp
  qed
  then show ?thesis by linarith
qed

lemma div_bounds_int: "0 \<le> m div b \<and> m div b \<le> m" if "0 \<le> m" "0 < b" for m b :: int
proof -
  have "m * 1 \<le> m * b" using that by (intro mult_left_mono) auto
  then have "\<not> m < m div b" using div_less_iff_int [of b m "m + 1"] that by (auto simp: algebra_simps)
  then show ?thesis using that by (simp add: pos_imp_zdiv_nonneg_iff)
qed

text \<open>The quotients the signed guard computes, each exact and representable.\<close>

lemma s_div_fits:
  assumes "sint b \<noteq> 0" and "sint a sdiv sint b = i" and "s_fits TYPE('w::len) i"
  shows "\<exists>q. s_div a (b :: 'w word) = Returns q \<and> sint q = i"
  using assms(1) s_of_int_fits [OF assms(3)] by (auto simp: s_div_def assms(2))

lemma s_div_smax_pos:
  fixes b :: "'w::len word"
  assumes "0 < sint b"
  shows "\<exists>q. s_div s_max b = Returns q \<and> sint q = smax_int TYPE('w) div sint b"
proof (rule s_div_fits)
  note m = smin_le_smax [of "TYPE('w)"]
  show "sint (s_max :: 'w word) sdiv sint b = smax_int TYPE('w) div sint b"
    using assms m by (simp add: signed_divide_int_def sgn_if)
  show "s_fits TYPE('w) (smax_int TYPE('w) div sint b)"
    unfolding s_fits_def using m div_bounds_int [of "smax_int TYPE('w)" "sint b"] assms by linarith
qed (use assms in simp)

lemma s_div_smax_neg:
  fixes b :: "'w::len word"
  assumes "sint b < 0"
  shows "\<exists>q. s_div s_max b = Returns q \<and> sint q = - (smax_int TYPE('w) div - sint b)"
proof (rule s_div_fits)
  note m = smin_le_smax [of "TYPE('w)"]
  show "sint (s_max :: 'w word) sdiv sint b = - (smax_int TYPE('w) div - sint b)"
    using assms m by (simp add: signed_divide_int_def sgn_if)
  show "s_fits TYPE('w) (- (smax_int TYPE('w) div - sint b))"
    unfolding s_fits_def smin_smax
    using m div_bounds_int [of "smax_int TYPE('w)" "- sint b"] assms by linarith
qed (use assms in simp)

lemma s_div_smin_pos:
  fixes b :: "'w::len word"
  assumes "0 < sint b"
  shows "\<exists>q. s_div s_min b = Returns q \<and> sint q = - (- smin_int TYPE('w) div sint b)"
proof (rule s_div_fits)
  note m = smin_le_smax [of "TYPE('w)"]
  show "sint (s_min :: 'w word) sdiv sint b = - (- smin_int TYPE('w) div sint b)"
    using assms m by (simp add: signed_divide_int_def sgn_if)
  show "s_fits TYPE('w) (- (- smin_int TYPE('w) div sint b))"
    unfolding s_fits_def
    using m div_bounds_int [of "- smin_int TYPE('w)" "sint b"] assms by linarith
qed (use assms in simp)

lemma checked_multiply_unsigned_exact:
  fixes lhs rhs :: "'w::len word"
  shows "checked_multiply_unsigned lhs rhs =
    (if uint lhs * uint rhs \<le> umax_int TYPE('w) then Returns (Holds (lhs * rhs))
     else Returns (Fails (mul_overflow 41)))"
proof (cases "lhs = 0 \<or> rhs = 0")
  case True
  then show ?thesis
    by (auto simp: checked_multiply_unsigned_def result_of_value_def umax_int_def)
next
  case False
  then have "0 < uint rhs" by (simp add: word_neq_0_conv word_less_def)
  then have "lhs > u_max div rhs \<longleftrightarrow> \<not> uint lhs * uint rhs \<le> umax_int TYPE('w)"
    by (simp add: word_less_def uint_div div_less_iff_int linorder_not_le)
  with False show ?thesis
    by (simp add: checked_multiply_unsigned_def u_div_def result_of_value_def)
qed

definition signed_mul_special :: "'w::len word \<Rightarrow> 'w word \<Rightarrow> bool" where
  "signed_mul_special lhs rhs \<longleftrightarrow> (lhs = - 1 \<and> rhs = s_min) \<or> (rhs = - 1 \<and> lhs = s_min)"

lemma signed_mul_special_overflows:
  fixes lhs rhs :: "'w::len word"
  assumes "signed_mul_special lhs rhs"
  shows "\<not> s_fits TYPE('w) (sint lhs * sint rhs)"
  using assms by (auto simp: signed_mul_special_def s_fits_def smin_smax)

text \<open>Outside the two special cases the four quotient tests decide representability.\<close>

lemma signed_mul_guard:
  fixes lhs rhs :: "'w::len word"
  assumes "lhs \<noteq> 0" "rhs \<noteq> 0"
  shows "c_or (c_or (c_or
          (c_and (0 <s lhs \<and> 0 <s rhs) (bnd (s_div s_max rhs) (\<lambda>q. Returns (q <s lhs))))
          (c_and (0 <s lhs \<and> rhs <s 0) (bnd (s_div s_min lhs) (\<lambda>q. Returns (rhs <s q)))))
          (c_and (lhs <s 0 \<and> 0 <s rhs) (bnd (s_div s_min rhs) (\<lambda>q. Returns (lhs <s q)))))
          (c_and (lhs <s 0 \<and> rhs <s 0) (bnd (s_div s_max rhs) (\<lambda>q. Returns (lhs <s q)))) =
    Returns (\<not> s_fits TYPE('w) (sint lhs * sint rhs))"
proof -
  let ?a = "sint lhs" and ?b = "sint rhs"
  let ?M = "smax_int TYPE('w)" and ?m = "smin_int TYPE('w)"
  note m = smin_le_smax [of "TYPE('w)"]
  have nz: "?a \<noteq> 0" "?b \<noteq> 0" using assms by (simp_all add: sint_eq_0_iff)
  consider "0 < ?a" "0 < ?b" | "0 < ?a" "?b < 0" | "?a < 0" "0 < ?b" | "?a < 0" "?b < 0"
    using nz by linarith
  then show ?thesis
  proof cases
    case 1
    then obtain q where q: "s_div s_max rhs = Returns q" "sint q = ?M div ?b"
      using s_div_smax_pos by blast
    have "\<not> ?a * ?b < ?m" using 1 m mult_pos_pos [of ?a ?b] by linarith
    with 1 q show ?thesis
      by (simp add: word_sless_alt div_less_iff_int s_fits_def linorder_not_le)
  next
    case 2
    then obtain q where q: "s_div s_min lhs = Returns q" "sint q = - (- ?m div ?a)"
      using s_div_smin_pos by blast
    have "?b < - (- ?m div ?a) \<longleftrightarrow> - ?m < - ?b * ?a"
      using div_less_iff_int [of ?a "- ?m" "- ?b"] 2 by linarith
    moreover have "?a * ?b < 0" using 2 by (simp add: mult_pos_neg)
    ultimately show ?thesis
      using 2 q(1) m unfolding q(2) [symmetric]
      by (simp add: word_sless_alt s_fits_def linorder_not_le mult.commute)
  next
    case 3
    then obtain q where q: "s_div s_min rhs = Returns q" "sint q = - (- ?m div ?b)"
      using s_div_smin_pos by blast
    have "?a < - (- ?m div ?b) \<longleftrightarrow> - ?m < - ?a * ?b"
      using div_less_iff_int [of ?b "- ?m" "- ?a"] 3 by linarith
    moreover have "?a * ?b < 0" using 3 by (simp add: mult_neg_pos)
    ultimately show ?thesis
      using 3 q(1) m unfolding q(2) [symmetric]
      by (simp add: word_sless_alt s_fits_def linorder_not_le)
  next
    case 4
    then obtain q where q: "s_div s_max rhs = Returns q" "sint q = - (?M div - ?b)"
      using s_div_smax_neg by blast
    have "?a < - (?M div - ?b) \<longleftrightarrow> ?M < - ?a * - ?b"
      using div_less_iff_int [of "- ?b" ?M "- ?a"] 4 by linarith
    moreover have "0 < ?a * ?b" using 4 by (simp add: mult_neg_neg)
    ultimately show ?thesis
      using 4 q(1) m unfolding q(2) [symmetric]
      by (simp add: word_sless_alt s_fits_def linorder_not_le)
  qed
qed

lemma checked_multiply_signed_exact:
  fixes lhs rhs :: "'w::len word"
  shows "checked_multiply_signed lhs rhs =
    (if s_fits TYPE('w) (sint lhs * sint rhs) then Returns (Holds (lhs * rhs))
     else Returns (Fails (mul_overflow (if signed_mul_special lhs rhs then 45 else 51))))"
proof (cases "lhs = 0 \<or> rhs = 0")
  case True
  then show ?thesis by (auto simp: checked_multiply_signed_def result_of_value_def)
next
  case nz: False
  show ?thesis
  proof (cases "signed_mul_special lhs rhs")
    case True
    then show ?thesis
      using nz signed_mul_special_overflows [OF True]
      by (simp add: checked_multiply_signed_def signed_mul_special_def)
  next
    case False
    then show ?thesis
      using nz unfolding checked_multiply_signed_def signed_mul_special_def
      by (simp only: signed_mul_guard [of lhs rhs] if_False de_Morgan_disj simp_thms bnd.simps
          result_of_value_def)
        (simp add: machine_simps)
  qed
qed

section \<open>The contract of a checked operation\<close>

text \<open>
  What the callers of this header rely on, whatever the type \<open>T\<close>: \<open>rep\<close> reads a value of \<open>T\<close> as an
  integer, \<open>lo\<close> and \<open>hi\<close> bound the type, \<open>iop\<close> is the exact operation and \<open>cop\<close> the checked one. A
  checked operation always returns; it holds the exact result when that is representable and an
  overflow error otherwise.
\<close>

locale checked_op =
  fixes rep :: "'a \<Rightarrow> int" and lo hi :: int and iop :: "int \<Rightarrow> int \<Rightarrow> int"
    and cop :: "'a \<Rightarrow> 'a \<Rightarrow> 'a Result outcome"
  assumes rep_bounds: "lo \<le> rep a" "rep a \<le> hi"
    and rep_inject: "rep a = rep b \<Longrightarrow> a = b"
    and exact: "lo \<le> iop (rep a) (rep b) \<Longrightarrow> iop (rep a) (rep b) \<le> hi \<Longrightarrow>
      \<exists>c. cop a b = Returns (Holds c) \<and> rep c = iop (rep a) (rep b)"
    and overflow: "\<not> (lo \<le> iop (rep a) (rep b) \<and> iop (rep a) (rep b) \<le> hi) \<Longrightarrow>
      \<exists>s. cop a b = Returns (Fails s) \<and> st_code s = kOverflow"
begin

lemma holds_iff:
  "cop a b = Returns (Holds c) \<longleftrightarrow>
    rep c = iop (rep a) (rep b)"
  using exact [of a b] overflow [of a b] rep_bounds [of c] rep_inject [of c]
  by (metis Result.distinct(1) Result.inject(1) outcome.inject(1))

lemma fails_iff:
  "(\<exists>s. cop a b = Returns (Fails s) \<and> st_code s = kOverflow) \<longleftrightarrow>
    \<not> (lo \<le> iop (rep a) (rep b) \<and> iop (rep a) (rep b) \<le> hi)"
  using exact [of a b] overflow [of a b] by auto

lemma cop_cases:
  obtains (holds) c where "cop a b = Returns (Holds c)" "rep c = iop (rep a) (rep b)"
  | (fails) s where "cop a b = Returns (Fails s)" "\<not> status_ok s" "st_code s = kOverflow"
      "\<not> (lo \<le> iop (rep a) (rep b) \<and> iop (rep a) (rep b) \<le> hi)"
  using exact [of a b] overflow [of a b] by (fastforce simp: status_ok_def)

lemma cop_wf: "cop a b = Returns r \<Longrightarrow> result_wf r"
  by (cases rule: cop_cases [of a b]) auto

lemma commutes:
  "(\<And>x y. iop x y = iop y x) \<Longrightarrow> cop a b = Returns (Holds c) \<longleftrightarrow> cop b a = Returns (Holds c)"
  by (simp add: holds_iff)

end

text \<open>
  Accumulating with a checked operation, the loop that \<open>Shape::numel\<close> and \<open>contiguous_strides\<close> are
  instances of: the first error is returned at once.
\<close>

fun checked_fold ::
  "('a \<Rightarrow> 'a \<Rightarrow> 'a Result outcome) \<Rightarrow> 'a \<Rightarrow> 'a list \<Rightarrow> 'a Result outcome" where
  "checked_fold cop acc [] = Returns (Holds acc)"
| "checked_fold cop acc (x # xs) =
     bnd (cop acc x) (\<lambda>r. result_try r (\<lambda>next_acc. checked_fold cop next_acc xs))"

text \<open>
  For a multiplication with factors of at least one, the running product only grows, so the loop
  succeeds exactly when the whole product is representable.
\<close>

locale checked_product = checked_op rep lo hi "(*)" cop
  for rep :: "'a \<Rightarrow> int" and lo hi :: int and cop :: "'a \<Rightarrow> 'a \<Rightarrow> 'a Result outcome" +
  assumes lo_le_1: "lo \<le> 1"
begin

lemma fold_holds:
  assumes "\<forall>x\<in>set xs. 1 \<le> rep x" and "1 \<le> rep acc" and "rep acc * prod_list (map rep xs) \<le> hi"
  shows "\<exists>c. checked_fold cop acc xs = Returns (Holds c) \<and> rep c = rep acc * prod_list (map rep xs)"
  using assms
proof (induction xs arbitrary: acc)
  case Nil
  then show ?case by simp
next
  case (Cons x xs)
  have tail: "1 \<le> prod_list (map rep xs)" using Cons.prems by (intro prod_list_ge_1) auto
  have px: "1 \<le> rep acc * rep x" using Cons.prems by (simp add: mult_ge_1)
  have "rep acc * rep x \<le> rep acc * rep x * prod_list (map rep xs)"
    by (rule le_mult_ge_1) (use px tail in linarith)+
  also have "\<dots> \<le> hi" using Cons.prems(3) by (simp add: mult.assoc)
  finally have "lo \<le> rep acc * rep x" "rep acc * rep x \<le> hi"
    using px lo_le_1 by linarith+
  then obtain c where c: "cop acc x = Returns (Holds c)" "rep c = rep acc * rep x"
    using exact by blast
  then show ?case using Cons.IH [of c] Cons.prems px by (simp add: mult.assoc)
qed

lemma fold_overflows:
  assumes "\<forall>x\<in>set xs. 1 \<le> rep x" and "1 \<le> rep acc" and "hi < rep acc * prod_list (map rep xs)"
  shows "\<exists>s. checked_fold cop acc xs = Returns (Fails s) \<and> st_code s = kOverflow"
  using assms
proof (induction xs arbitrary: acc)
  case Nil
  then show ?case using rep_bounds(2) [of acc] by simp
next
  case (Cons x xs)
  have px: "1 \<le> rep acc * rep x" using Cons.prems by (simp add: mult_ge_1)
  show ?case
  proof (cases rule: cop_cases [of acc x])
    case (holds c)
    then show ?thesis using Cons.IH [of c] Cons.prems px by (simp add: mult.assoc)
  next
    case (fails s)
    then show ?thesis by simp
  qed
qed

end

section \<open>The contract holds of the code's operations\<close>

lemma uint_exact [machine_simps]:
  fixes a b :: "'w::len word"
  shows "uint a + uint b \<le> umax_int TYPE('w) \<Longrightarrow> uint (a + b) = uint a + uint b"
    and "uint a * uint b \<le> umax_int TYPE('w) \<Longrightarrow> uint (a * b) = uint a * uint b"
  using uint_word_of_int_fits [of "uint a + uint b", where 'w = 'w]
    uint_word_of_int_fits [of "uint a * uint b", where 'w = 'w] by simp_all

lemma s_fits_iff: "(smin_int t \<le> i \<and> i \<le> smax_int t) = s_fits t i"
  by (simp add: s_fits_def)

interpretation uadd: checked_op uint 0 "umax_int TYPE('w::len)" "(+)"
  "checked_add_unsigned :: 'w word \<Rightarrow> _"
  by unfold_locales
    (auto simp: checked_add_unsigned_exact machine_simps intro: word_uint_eq_iff [THEN iffD2])

interpretation sadd: checked_op sint "smin_int TYPE('w::len)" "smax_int TYPE('w)" "(+)"
  "checked_add_signed :: 'w word \<Rightarrow> _"
proof unfold_locales
  fix a b :: "'w word"
  show "smin_int TYPE('w) \<le> sint a + sint b \<Longrightarrow> sint a + sint b \<le> smax_int TYPE('w) \<Longrightarrow>
    \<exists>c. checked_add_signed a b = Returns (Holds c) \<and> sint c = sint a + sint b"
    by (simp add: checked_add_signed_exact machine_simps s_fits_def)
  show "\<not> (smin_int TYPE('w) \<le> sint a + sint b \<and> sint a + sint b \<le> smax_int TYPE('w)) \<Longrightarrow>
    \<exists>s. checked_add_signed a b = Returns (Fails s) \<and> st_code s = kOverflow"
    by (simp add: checked_add_signed_exact s_fits_iff)
qed (simp_all add: word_eq_sint)

interpretation umul: checked_product uint 0 "umax_int TYPE('w::len)"
  "checked_multiply_unsigned :: 'w word \<Rightarrow> _"
  by unfold_locales
    (auto simp: checked_multiply_unsigned_exact machine_simps
      intro: word_uint_eq_iff [THEN iffD2])

interpretation smul: checked_product sint "smin_int TYPE('w::len)" "smax_int TYPE('w)"
  "checked_multiply_signed :: 'w word \<Rightarrow> _"
proof unfold_locales
  fix a b :: "'w word"
  show "smin_int TYPE('w) \<le> sint a * sint b \<Longrightarrow> sint a * sint b \<le> smax_int TYPE('w) \<Longrightarrow>
    \<exists>c. checked_multiply_signed a b = Returns (Holds c) \<and> sint c = sint a * sint b"
    by (simp add: checked_multiply_signed_exact machine_simps s_fits_def)
  show "\<not> (smin_int TYPE('w) \<le> sint a * sint b \<and> sint a * sint b \<le> smax_int TYPE('w)) \<Longrightarrow>
    \<exists>s. checked_multiply_signed a b = Returns (Fails s) \<and> st_code s = kOverflow"
    by (simp add: checked_multiply_signed_exact s_fits_iff)
  show "smin_int TYPE('w) \<le> 1" using smin_le_smax(1) [of "TYPE('w)"] by linarith
qed (simp_all add: word_eq_sint)

section \<open>Properties\<close>

lemma range_readings:
  "(0 \<le> i \<and> i \<le> umax_int TYPE('w::len)) = (0 \<le> i \<and> i < 2 ^ LENGTH('w))"
  "(smin_int TYPE('w::len) \<le> i \<and> i \<le> smax_int TYPE('w)) =
    (- (2 ^ (LENGTH('w) - 1)) \<le> i \<and> i < 2 ^ (LENGTH('w) - 1))"
  by (auto simp: umax_int_def smin_int_def smax_int_def)

text \<open>\<open>checked_add\<close>, for unsigned and for signed \<open>T\<close> of any width, holds \<open>c\<close> exactly when \<open>c\<close> is the
  mathematical sum of its operands, reports an overflow exactly when the sum is not representable,
  and its own guard never overflows (it always returns one of the two).\<close>

theorem checked_add_correct:
  fixes a b c :: "'w::len word"
  shows "(checked_add_unsigned a b = Returns (Holds c) \<longleftrightarrow> uint c = uint a + uint b) \<and>
    ((\<exists>s. checked_add_unsigned a b = Returns (Fails s) \<and> st_code s = kOverflow) \<longleftrightarrow>
       \<not> uint a + uint b < 2 ^ LENGTH('w)) \<and>
    (checked_add_signed a b = Returns (Holds c) \<longleftrightarrow> sint c = sint a + sint b) \<and>
    ((\<exists>s. checked_add_signed a b = Returns (Fails s) \<and> st_code s = kOverflow) \<longleftrightarrow>
       \<not> (- (2 ^ (LENGTH('w) - 1)) \<le> sint a + sint b \<and> sint a + sint b < 2 ^ (LENGTH('w) - 1)))"
  unfolding uadd.holds_iff sadd.holds_iff uadd.fails_iff sadd.fails_iff range_readings by simp

text \<open>C34: \<open>checked_multiply\<close>, for unsigned and for signed \<open>T\<close> of any width, holds \<open>c\<close> exactly when \<open>c\<close> is
  the mathematical product of its operands, reports an overflow exactly when the product is not
  representable (the minimum times -1 included), and none of the divisions and multiplications it
  performs on the way is undefined.\<close>

theorem checked_multiply_correct:
  fixes a b c :: "'w::len word"
  shows "(checked_multiply_unsigned a b = Returns (Holds c) \<longleftrightarrow> uint c = uint a * uint b) \<and>
    ((\<exists>s. checked_multiply_unsigned a b = Returns (Fails s) \<and> st_code s = kOverflow) \<longleftrightarrow>
       \<not> uint a * uint b < 2 ^ LENGTH('w)) \<and>
    (checked_multiply_signed a b = Returns (Holds c) \<longleftrightarrow> sint c = sint a * sint b) \<and>
    ((\<exists>s. checked_multiply_signed a b = Returns (Fails s) \<and> st_code s = kOverflow) \<longleftrightarrow>
       \<not> (- (2 ^ (LENGTH('w) - 1)) \<le> sint a * sint b \<and> sint a * sint b < 2 ^ (LENGTH('w) - 1)))"
  unfolding umul.holds_iff smul.holds_iff umul.fails_iff smul.fails_iff range_readings by simp

end
