(* ===== verification/Shapes.thy ===== *)
theory Shapes
  imports CheckedMath
begin

text \<open>
  \<open>core/shape.h\<close> and \<open>core/shape.cc\<close>: shapes, their element count and their canonical strides.
  A \<open>Dim\<close> and a \<open>Stride\<close> are 64-bit signed integers, so words read by \<open>sint\<close>;
  \<open>static_cast<std::uint64_t>\<close> of one is the same word read by \<open>uint\<close>.
\<close>

section \<open>Shapes\<close>

type_synonym Dim = i64
type_synonym Stride = i64
type_synonym Strides = "Stride list"

record Shape =
  shape_dims :: "Dim list"

abbreviation shape_loc :: "u32 \<Rightarrow> source_location" where
  "shape_loc l \<equiv> loc ''src/core/shape.cc'' l"

definition validate_dims :: "Dim list \<Rightarrow> Status" where
  "validate_dims dims =
     (if list_ex (\<lambda>dim. dim <s 0) dims
      then status_invalid_argument ''shape dimensions must be non-negative'' (shape_loc 14)
      else Status_default)"

text \<open>The two throwing constructors; the second delegates to the first.\<close>

definition shape_of_span :: "Dim list \<Rightarrow> Shape outcome" where
  "shape_of_span dims =
     (let status = validate_dims dims
      in if \<not> status_ok status then Throws (Invalid_argument_exn (st_message status))
         else Returns \<lparr>shape_dims = dims\<rparr>)"

definition shape_of_initializer_list :: "Dim list \<Rightarrow> Shape outcome" where
  "shape_of_initializer_list dims = shape_of_span dims"

definition shape_default :: Shape where
  "shape_default = \<lparr>shape_dims = []\<rparr>"

definition from_dims :: "Dim list \<Rightarrow> Shape Result" where
  "from_dims dims =
     (let status = validate_dims dims
      in if \<not> status_ok status then result_of_status status
         else result_of_value \<lparr>shape_dims = dims\<rparr>)"

definition shape_rank :: "Shape \<Rightarrow> nat" where
  "shape_rank shape = length (shape_dims shape)"

definition shape_empty :: "Shape \<Rightarrow> bool" where
  "shape_empty shape \<longleftrightarrow> shape_dims shape = []"

text \<open>\<open>operator[]\<close> is \<open>std::vector::at\<close>, which throws out of range.\<close>

definition shape_at :: "Shape \<Rightarrow> nat \<Rightarrow> Dim outcome" where
  "shape_at shape axis =
     (if axis < length (shape_dims shape) then Returns (shape_dims shape ! axis)
      else Throws Out_of_range_exn)"

section \<open>Element count\<close>

fun numel_loop :: "u64 \<Rightarrow> Dim list \<Rightarrow> u64 Result outcome" where
  "numel_loop count [] = Returns (result_of_value count)"
| "numel_loop count (dim # dims) =
     bnd (checked_multiply_unsigned count dim) (\<lambda>next_count.
       result_try next_count (\<lambda>c. numel_loop c dims))"

definition numel :: "Shape \<Rightarrow> u64 Result outcome" where
  "numel shape =
     (if 0 \<in> set (shape_dims shape) then Returns (result_of_value 0)
      else numel_loop 1 (shape_dims shape))"

section \<open>Strides\<close>

text \<open>\<open>std::max(a, b)\<close> is \<open>(a < b) ? b : a\<close>.\<close>

definition dim_max :: "Dim \<Rightarrow> Dim \<Rightarrow> Dim" where
  "dim_max a b = (if a <s b then b else a)"

text \<open>
  The loop counts \<open>axis\<close> down from the rank to 1 and works on \<open>index = axis - 1\<close>; the loop variables
  are \<open>strides\<close> and \<open>next_stride\<close>.
\<close>

fun strides_loop :: "Shape \<Rightarrow> nat \<Rightarrow> Strides \<Rightarrow> Stride \<Rightarrow> Strides Result outcome" where
  "strides_loop shape 0 strides next_stride = Returns (result_of_value strides)"
| "strides_loop shape (Suc index) strides next_stride =
     bnd (shape_at shape index) (\<lambda>dim.
       bnd (checked_multiply_signed next_stride (dim_max dim 1)) (\<lambda>next_result.
         result_try next_result (\<lambda>n. strides_loop shape index (strides[index := next_stride]) n)))"

definition contiguous_strides :: "Shape \<Rightarrow> Strides Result outcome" where
  "contiguous_strides shape =
     strides_loop shape (shape_rank shape) (replicate (shape_rank shape) 1) 1"

definition is_contiguous :: "Shape \<Rightarrow> Stride list \<Rightarrow> bool Result outcome" where
  "is_contiguous shape strides =
     (if shape_rank shape \<noteq> length strides
      then Returns (result_of_status
        (status_invalid_argument ''shape and strides must have the same rank'' (shape_loc 84)))
      else bnd (contiguous_strides shape) (\<lambda>expected.
        result_try expected (\<lambda>e. Returns (result_of_value (e = strides)))))"

section \<open>The class invariant\<close>

definition shape_valid :: "Shape \<Rightarrow> bool" where
  "shape_valid shape \<longleftrightarrow> list_all (\<lambda>dim. 0 \<le> sint dim) (shape_dims shape)"

lemma status_ok_validate_dims [simp]:
  "status_ok (validate_dims dims) \<longleftrightarrow> list_all (\<lambda>dim. 0 \<le> sint dim) dims"
  by (auto simp: validate_dims_def list_ex_iff list_all_iff word_sless_alt linorder_not_le)

lemma shape_of_span_cases:
  "shape_of_span dims =
     (if list_all (\<lambda>dim. 0 \<le> sint dim) dims then Returns \<lparr>shape_dims = dims\<rparr>
      else Throws (Invalid_argument_exn ''shape dimensions must be non-negative''))"
proof (cases "list_all (\<lambda>dim. 0 \<le> sint dim) dims")
  case True
  then show ?thesis by (simp add: shape_of_span_def Let_def)
next
  case False
  then have "list_ex (\<lambda>dim. dim <s 0) dims"
    by (auto simp: list_ex_iff list_all_iff word_sless_alt not_le)
  with False show ?thesis
    by (simp add: shape_of_span_def Let_def)
      (simp add: validate_dims_def status_invalid_argument_def status_error_def)
qed

lemma from_dims_cases:
  "from_dims dims =
     (if list_all (\<lambda>dim. 0 \<le> sint dim) dims then Holds \<lparr>shape_dims = dims\<rparr>
      else Fails (validate_dims dims))"
  by (simp add: from_dims_def Let_def result_of_value_def)

section \<open>Element count: correctness\<close>

definition numel_int :: "Shape \<Rightarrow> int" where
  "numel_int shape = prod_list (map sint (shape_dims shape))"

lemma numel_loop_fold: "numel_loop count dims = checked_fold checked_multiply_unsigned count dims"
  by (induction dims arbitrary: count) (simp_all add: result_of_value_def)

lemma map_uint_sint:
  "list_all (\<lambda>dim. 0 \<le> sint dim) dims \<Longrightarrow> map uint dims = map sint (dims :: i64 list)"
  by (simp add: list_all_iff sint_uint_nonneg)

lemma positive_dims:
  assumes "list_all (\<lambda>dim. 0 \<le> sint dim) dims" and "0 \<notin> set dims"
  shows "\<forall>x\<in>set dims. 1 \<le> uint (x :: i64)"
proof
  fix x assume "x \<in> set dims"
  then have "x \<noteq> 0" "0 \<le> sint x" using assms by (auto simp: list_all_iff)
  then show "1 \<le> uint x" using sint_uint_nonneg [of x] sint_eq_0_iff [of x] by linarith
qed

lemma numel_holds:
  assumes "shape_valid shape" and "numel_int shape \<le> umax_int TYPE(64)"
  shows "\<exists>c. numel shape = Returns (Holds c) \<and> uint c = numel_int shape"
proof (cases "0 \<in> set (shape_dims shape)")
  case True
  then have "numel_int shape = 0" by (force simp: numel_int_def prod_list_zero_iff_int)
  then show ?thesis using True by (simp add: numel_def result_of_value_def)
next
  case False
  then show ?thesis
    using assms umul.fold_holds [of "shape_dims shape" 1] positive_dims [of "shape_dims shape"]
    by (simp add: numel_def numel_loop_fold numel_int_def shape_valid_def map_uint_sint
        del: limits_64)
qed

lemma numel_overflows:
  assumes "shape_valid shape" and "umax_int TYPE(64) < numel_int shape"
  shows "\<exists>s. numel shape = Returns (Fails s) \<and> st_code s = kOverflow"
proof -
  have "numel_int shape \<noteq> 0" using assms(2) by simp
  then have "0 \<notin> set (shape_dims shape)" by (force simp: numel_int_def prod_list_zero_iff_int)
  then show ?thesis
    using assms umul.fold_overflows [of "shape_dims shape" 1] positive_dims [of "shape_dims shape"]
    by (simp add: numel_def numel_loop_fold numel_int_def shape_valid_def map_uint_sint
        del: limits_64)
qed

section \<open>Strides: correctness\<close>

definition extent :: "Dim \<Rightarrow> int" where
  "extent dim = max (sint dim) 1"

definition stride_int :: "Dim list \<Rightarrow> nat \<Rightarrow> int" where
  "stride_int dims i = prod_list (map extent (drop (Suc i) dims))"

lemma sint_dim_max [simp]: "sint (dim_max d 1) = extent d"
  by (simp add: dim_max_def extent_def word_sless_alt)

lemma extent_ge_1 [simp]: "1 \<le> extent d"
  by (simp add: extent_def)

lemma prod_extent_ge_1 [simp]: "1 \<le> prod_list (map extent ds)"
  by (rule prod_list_ge_1) auto

lemma stride_int_take:
  assumes "k < length dims"
  shows "prod_list (map extent (take (Suc k) dims)) = extent (dims ! k) * prod_list (map extent (take k dims))"
    and "i < k \<Longrightarrow> stride_int (take (Suc k) dims) i = extent (dims ! k) * stride_int (take k dims) i"
    and "stride_int (take (Suc k) dims) k = 1"
  using assms by (auto simp: take_Suc_conv_app_nth stride_int_def)

text \<open>
  The loop invariant: with \<open>axis\<close> dimensions still to visit, the loop writes the suffix products of
  those, scaled by the stride reached so far, and leaves the strides already written alone.
\<close>

lemma strides_loop_holds:
  assumes "axis \<le> length (shape_dims shape)" and "length strides = length (shape_dims shape)"
    and "1 \<le> sint next_stride"
    and "sint next_stride * prod_list (map extent (take axis (shape_dims shape))) \<le> smax_int TYPE(64)"
  shows "\<exists>ss. strides_loop shape axis strides next_stride = Returns (Holds ss) \<and>
    map sint ss = map (\<lambda>i. sint next_stride * stride_int (take axis (shape_dims shape)) i) [0..<axis]
      @ map sint (drop axis strides)"
  using assms
proof (induction axis arbitrary: strides next_stride)
  case 0
  then show ?case by (simp add: result_of_value_def)
next
  case (Suc k)
  let ?ds = "shape_dims shape" and ?n = next_stride
  have k: "k < length ?ds" using Suc.prems by simp
  let ?e = "extent (?ds ! k)"
  have le: "sint ?n * ?e * prod_list (map extent (take k ?ds)) \<le> smax_int TYPE(64)"
    using Suc.prems(4) k by (simp add: stride_int_take mult.assoc del: limits_64)
  have ge: "1 \<le> sint ?n * ?e"
    using Suc.prems(3) by (simp add: mult_ge_1)
  have "sint ?n * ?e \<le> sint ?n * ?e * prod_list (map extent (take k ?ds))"
    using ge by (intro le_mult_ge_1) auto
  then obtain n' where n': "checked_multiply_signed ?n (dim_max (?ds ! k) 1) = Returns (Holds n')"
      "sint n' = sint ?n * ?e"
    using smul.exact [of ?n "dim_max (?ds ! k) 1"] ge le by (auto simp del: limits_64 simp: smin_smax)
  have step: "strides_loop shape (Suc k) strides ?n = strides_loop shape k (strides[k := ?n]) n'"
    using k n' by (simp add: shape_at_def)
  obtain ss where ss: "strides_loop shape k (strides[k := ?n]) n' = Returns (Holds ss)"
      "map sint ss = map (\<lambda>i. sint n' * stride_int (take k ?ds) i) [0..<k]
        @ map sint (drop k (strides[k := ?n]))"
    using Suc.IH [of "strides[k := ?n]" n'] Suc.prems k n' ge le by (auto simp del: limits_64)
  have "drop k (strides[k := ?n]) = ?n # drop (Suc k) strides"
    using k Suc.prems(2) by (simp add: Cons_nth_drop_Suc [symmetric])
  moreover have "map (\<lambda>i. sint ?n * stride_int (take (Suc k) ?ds) i) [0..<Suc k] =
      map (\<lambda>i. sint n' * stride_int (take k ?ds) i) [0..<k] @ [sint ?n]"
    using k n' by (simp add: stride_int_take mult.assoc)
  ultimately show ?case using step ss by simp
qed

lemma strides_loop_overflows:
  assumes "axis \<le> length (shape_dims shape)" and "1 \<le> sint next_stride"
    and "smax_int TYPE(64) < sint next_stride * prod_list (map extent (take axis (shape_dims shape)))"
  shows "\<exists>s. strides_loop shape axis strides next_stride = Returns (Fails s) \<and> st_code s = kOverflow"
  using assms
proof (induction axis arbitrary: strides next_stride)
  case 0
  then show ?case using sint_le_smax [of next_stride] by simp
next
  case (Suc k)
  let ?ds = "shape_dims shape" and ?n = next_stride
  have k: "k < length ?ds" using Suc.prems by simp
  let ?e = "extent (?ds ! k)"
  have ge: "1 \<le> sint ?n * ?e"
    using Suc.prems(2) by (simp add: mult_ge_1)
  show ?case
  proof (cases rule: smul.cop_cases [of ?n "dim_max (?ds ! k) 1"])
    case (holds n')
    then show ?thesis
      using Suc.IH [of n' "strides[k := ?n]"] Suc.prems k ge
      by (simp add: shape_at_def stride_int_take mult.assoc del: limits_64)
  next
    case (fails s)
    then show ?thesis using k by (simp add: shape_at_def)
  qed
qed

lemma contiguous_strides_holds:
  assumes "prod_list (map extent (shape_dims shape)) \<le> smax_int TYPE(64)"
  shows "\<exists>ss. contiguous_strides shape = Returns (Holds ss) \<and>
    map sint ss = map (stride_int (shape_dims shape)) [0..<length (shape_dims shape)]"
  using strides_loop_holds [of "length (shape_dims shape)" shape "replicate (shape_rank shape) 1" 1] assms
  by (simp add: contiguous_strides_def shape_rank_def del: limits_64)

lemma contiguous_strides_overflows:
  assumes "smax_int TYPE(64) < prod_list (map extent (shape_dims shape))"
  shows "\<exists>s. contiguous_strides shape = Returns (Fails s) \<and> st_code s = kOverflow"
  using strides_loop_overflows [of "length (shape_dims shape)" shape 1] assms
  by (simp add: contiguous_strides_def shape_rank_def del: limits_64)

lemma map_sint_inject: "map sint xs = map sint ys \<longleftrightarrow> xs = (ys :: 'w::len word list)"
  by (rule inj_map_eq_map) (simp add: inj_on_def word_eq_sint)

section \<open>Row-major addressing\<close>

text \<open>
  What strides are for: the element of an index lies at the sum of the products of the index's
  components with the strides. The sources do not read tensors yet, so this is the specification
  against which the canonical strides are judged.
\<close>

definition offset :: "int list \<Rightarrow> int list \<Rightarrow> int" where
  "offset idx ss = sum_list (map2 (*) idx ss)"

definition valid_index :: "int list \<Rightarrow> int list \<Rightarrow> bool" where
  "valid_index ds idx \<longleftrightarrow> list_all2 (\<lambda>i d. 0 \<le> i \<and> i < d) idx ds"

fun suffix_products :: "int list \<Rightarrow> int list" where
  "suffix_products [] = []"
| "suffix_products (d # ds) = prod_list ds # suffix_products ds"

lemma offset_simps [layout_simps]:
  "offset [] [] = 0"
  "offset (i # idx) (s # ss) = i * s + offset idx ss"
  by (simp_all add: offset_def)

lemma valid_index_simps [layout_simps]:
  "valid_index [] idx \<longleftrightarrow> idx = []"
  "valid_index (d # ds) idx \<longleftrightarrow> (\<exists>i is. idx = i # is \<and> 0 \<le> i \<and> i < d \<and> valid_index ds is)"
  by (auto simp: valid_index_def list_all2_Cons2)

lemma offset_range:
  "valid_index ds idx \<Longrightarrow> 0 \<le> offset idx (suffix_products ds) \<and> offset idx (suffix_products ds) < prod_list ds"
proof (induction ds arbitrary: idx)
  case Nil
  then show ?case by (simp add: layout_simps)
next
  case (Cons d ds)
  then obtain i t where it: "idx = i # t" "0 \<le> i" "i < d" "valid_index ds t"
    by (auto simp: layout_simps)
  let ?P = "prod_list ds" and ?o = "offset t (suffix_products ds)"
  have o: "0 \<le> ?o" "?o < ?P" using Cons.IH it by auto
  have "i * ?P + ?P \<le> d * ?P"
    using mult_right_mono [of "i + 1" d ?P] it o by (simp add: distrib_right)
  moreover have "0 \<le> i * ?P" using it o by simp
  ultimately show ?case using it o by (simp add: layout_simps)
qed

lemma offset_inj:
  "valid_index ds idx \<Longrightarrow> valid_index ds jdx \<Longrightarrow>
    offset idx (suffix_products ds) = offset jdx (suffix_products ds) \<Longrightarrow> idx = jdx"
proof (induction ds arbitrary: idx jdx)
  case Nil
  then show ?case by (simp add: layout_simps)
next
  case (Cons d ds)
  then obtain i t j u where it: "idx = i # t" "valid_index ds t" and ju: "jdx = j # u" "valid_index ds u"
    by (auto simp: layout_simps)
  let ?P = "prod_list ds"
  let ?o = "offset t (suffix_products ds)" and ?q = "offset u (suffix_products ds)"
  have o: "0 \<le> ?o" "?o < ?P" "0 \<le> ?q" "?q < ?P" using offset_range it ju by auto
  have eq: "i * ?P + ?o = j * ?P + ?q" using Cons.prems(3) it ju by (simp add: layout_simps)
  have "i = (i * ?P + ?o) div ?P" using o by simp
  also have "\<dots> = j" using o unfolding eq by simp
  finally have "i = j" .
  with eq have "?o = ?q" by simp
  then show ?case using Cons.IH it ju \<open>i = j\<close> by simp
qed

lemma offset_surj:
  "\<forall>d\<in>set ds. 0 \<le> d \<Longrightarrow> 0 \<le> n \<Longrightarrow> n < prod_list ds \<Longrightarrow>
    \<exists>idx. valid_index ds idx \<and> offset idx (suffix_products ds) = n"
proof (induction ds arbitrary: n)
  case Nil
  then show ?case by (simp add: layout_simps)
next
  case (Cons d ds)
  let ?P = "prod_list ds"
  have "0 \<le> ?P" using Cons.prems by (intro prod_list_nonneg) auto
  moreover have "?P \<noteq> 0" using Cons.prems by auto
  ultimately have P: "0 < ?P" by simp
  then have m: "0 \<le> n mod ?P" "n mod ?P < ?P" by simp_all
  obtain t where t: "valid_index ds t" "offset t (suffix_products ds) = n mod ?P"
    using Cons.IH [OF _ m] Cons.prems by auto
  have "0 \<le> n div ?P" "n div ?P < d"
    using P Cons.prems by (simp_all add: pos_imp_zdiv_nonneg_iff div_less_iff_int)
  then show ?case using t by (intro exI [of _ "n div ?P # t"]) (simp add: layout_simps)
qed

lemma offset_bij:
  assumes "\<forall>d\<in>set ds. 0 \<le> d"
  shows "bij_betw (\<lambda>idx. offset idx (suffix_products ds)) {idx. valid_index ds idx} {0..<prod_list ds}"
  unfolding bij_betw_def inj_on_def
  using offset_range offset_inj offset_surj [OF assms] by (auto simp: image_iff) metis

lemma suffix_products_nth:
  "suffix_products ds = map (\<lambda>i. prod_list (drop (Suc i) ds)) [0..<length ds]"
  by (induction ds) (simp_all add: map_upt_Suc del: upt_Suc)

lemma stride_int_suffix_products:
  assumes "list_all (\<lambda>dim. 0 \<le> sint dim) ds" and "0 \<notin> set ds"
  shows "map (stride_int ds) [0..<length ds] = suffix_products (map sint ds)"
proof -
  have eq: "map extent ds = map sint ds"
    using assms positive_dims [OF assms]
    by (intro map_cong) (auto simp: extent_def list_all_iff sint_uint_nonneg)
  show ?thesis unfolding stride_int_def suffix_products_nth drop_map [symmetric] eq by simp
qed

lemma no_index_of_zero_sized: "0 \<in> set ds \<Longrightarrow> \<not> valid_index ds idx"
  by (force simp: valid_index_def list_all2_conv_all_nth in_set_conv_nth)

section \<open>Properties\<close>

text \<open>C31: \<open>Shape::numel\<close> of a valid shape returns the exact product of its dimensions when that fits
  64 unsigned bits, and an overflow error exactly when it does not.\<close>

theorem numel_correct:
  assumes "shape_valid shape"
  shows "((\<exists>c. numel shape = Returns (Holds c) \<and> uint c = numel_int shape) \<longleftrightarrow>
      numel_int shape < 2 ^ 64) \<and>
    ((\<exists>s. numel shape = Returns (Fails s) \<and> st_code s = kOverflow) \<longleftrightarrow>
      2 ^ 64 \<le> numel_int shape)"
proof -
  have split: "numel_int shape \<le> umax_int TYPE(64) \<longleftrightarrow> numel_int shape < 2 ^ 64"
    by (simp add: umax_int_def) linarith
  then show ?thesis
    using numel_holds [OF assms] numel_overflows [OF assms] by (cases "numel_int shape < 2 ^ 64") auto
qed

theorem numel_correct_witness:
  "shape_valid \<lparr>shape_dims = [9223372036854775807, 3]\<rparr> \<and>
   (\<exists>s. numel \<lparr>shape_dims = [9223372036854775807, 3]\<rparr> = Returns (Fails s) \<and> st_code s = kOverflow)"
proof -
  let ?s = "\<lparr>shape_dims = [9223372036854775807, 3]\<rparr>"
  have "shape_valid ?s" by (simp add: shape_valid_def)
  then show ?thesis using numel_correct [of ?s] by (simp add: numel_int_def)
qed

text \<open>C29: \<open>contiguous_strides\<close> never throws: it returns, for every axis, the product of the extents of
  the axes after it (an extent being the dimension, or 1 for a zero dimension) when the product of
  all extents fits 63 bits, and an overflow error exactly when it does not.\<close>

theorem contiguous_strides_correct:
  "((\<exists>ss. contiguous_strides shape = Returns (Holds ss) \<and>
       map sint ss = map (stride_int (shape_dims shape)) [0..<length (shape_dims shape)]) \<longleftrightarrow>
     prod_list (map extent (shape_dims shape)) < 2 ^ 63) \<and>
   ((\<exists>s. contiguous_strides shape = Returns (Fails s) \<and> st_code s = kOverflow) \<longleftrightarrow>
     2 ^ 63 \<le> prod_list (map extent (shape_dims shape)))"
proof -
  have "prod_list (map extent (shape_dims shape)) \<le> smax_int TYPE(64) \<longleftrightarrow>
      prod_list (map extent (shape_dims shape)) < 2 ^ 63"
    by (simp add: smax_int_def) linarith
  then show ?thesis
    using contiguous_strides_holds [of shape] contiguous_strides_overflows [of shape]
    by (cases "prod_list (map extent (shape_dims shape)) < 2 ^ 63") auto
qed

lemma contiguous_strides_value:
  "contiguous_strides shape = Returns (Holds ss) \<Longrightarrow>
    prod_list (map extent (shape_dims shape)) \<le> smax_int TYPE(64) \<and>
    map sint ss = map (stride_int (shape_dims shape)) [0..<length (shape_dims shape)]"
  using contiguous_strides_holds [of shape] contiguous_strides_overflows [of shape]
  by (cases "prod_list (map extent (shape_dims shape)) \<le> smax_int TYPE(64)")
    (auto simp: linorder_not_le)

lemma contiguous_strides_returns: "\<exists>r. contiguous_strides shape = Returns r \<and> result_wf r"
  using contiguous_strides_holds [of shape] contiguous_strides_overflows [of shape]
  by (cases "prod_list (map extent (shape_dims shape)) \<le> smax_int TYPE(64)")
    (auto simp: linorder_not_le status_ok_def)

text \<open>C30: the strides \<open>contiguous_strides\<close> returns for a valid shape address its elements without gap or
  overlap: index to offset is a bijection from the shape's indices onto \<open>0 .. numel - 1\<close>.\<close>

theorem contiguous_strides_address:
  assumes "shape_valid shape" and "contiguous_strides shape = Returns (Holds ss)"
  shows "bij_betw (\<lambda>idx. offset idx (map sint ss))
    {idx. valid_index (map sint (shape_dims shape)) idx} {0..<numel_int shape}"
proof (cases "0 \<in> set (shape_dims shape)")
  case True
  then have "0 \<in> set (map sint (shape_dims shape))" by force
  then show ?thesis
    using no_index_of_zero_sized prod_list_zero_iff_int [of "map sint (shape_dims shape)"]
    by (simp add: numel_int_def bij_betw_def)
next
  case False
  then have "map sint ss = suffix_products (map sint (shape_dims shape))"
    using assms contiguous_strides_value stride_int_suffix_products
    by (simp add: shape_valid_def)
  then show ?thesis
    using offset_bij [of "map sint (shape_dims shape)"] assms(1)
    by (simp add: numel_int_def shape_valid_def list_all_iff)
qed

theorem contiguous_strides_address_witness:
  "contiguous_strides \<lparr>shape_dims = [2, 3, 4]\<rparr> = Returns (Holds [12, 4, 1]) \<and>
   bij_betw (\<lambda>idx. offset idx [12, 4, 1]) {idx. valid_index [2, 3, 4] idx} {0..<24}"
proof -
  let ?s = "\<lparr>shape_dims = [2, 3, 4]\<rparr>"
  have v: "shape_valid ?s" by (simp add: shape_valid_def)
  have c: "contiguous_strides ?s = Returns (Holds [12, 4, 1])" by code_simp
  show ?thesis using contiguous_strides_address [OF v c] c by (simp add: numel_int_def)
qed

text \<open>C35: \<open>is_contiguous\<close> answers true for the canonical strides only, answers at all exactly when the
  ranks agree and the canonical strides exist, and otherwise reports the rank mismatch as an invalid
  argument or passes the overflow on.\<close>

theorem is_contiguous_correct:
  "(is_contiguous shape strides = Returns (Holds b) \<longleftrightarrow>
      length strides = length (shape_dims shape) \<and>
      prod_list (map extent (shape_dims shape)) < 2 ^ 63 \<and>
      b = (map sint strides = map (stride_int (shape_dims shape)) [0..<length (shape_dims shape)])) \<and>
   ((\<exists>s. is_contiguous shape strides = Returns (Fails s) \<and> st_code s = kInvalidArgument) \<longleftrightarrow>
      length strides \<noteq> length (shape_dims shape)) \<and>
   ((\<exists>s. is_contiguous shape strides = Returns (Fails s) \<and> st_code s = kOverflow) \<longleftrightarrow>
      length strides = length (shape_dims shape) \<and>
      2 ^ 63 \<le> prod_list (map extent (shape_dims shape)))"
proof -
  let ?spec = "map (stride_int (shape_dims shape)) [0..<length (shape_dims shape)]"
  consider (rank) "length strides \<noteq> length (shape_dims shape)"
    | (holds) ss where "length strides = length (shape_dims shape)"
        "prod_list (map extent (shape_dims shape)) < 2 ^ 63"
        "contiguous_strides shape = Returns (Holds ss)" "map sint ss = ?spec"
    | (fails) s where "length strides = length (shape_dims shape)"
        "2 ^ 63 \<le> prod_list (map extent (shape_dims shape))"
        "contiguous_strides shape = Returns (Fails s)" "st_code s = kOverflow"
    using contiguous_strides_holds [of shape] contiguous_strides_overflows [of shape] by fastforce
  then show ?thesis
  proof cases
    case rank
    then show ?thesis by (auto simp: is_contiguous_def shape_rank_def)
  next
    case holds
    have "(ss = strides) = (map sint strides = ?spec)"
      unfolding holds(4) [symmetric] using map_sint_inject by metis
    with holds(1-3) show ?thesis
      by (auto simp: is_contiguous_def shape_rank_def result_of_value_def)
  next
    case fails
    then show ?thesis by (auto simp: is_contiguous_def shape_rank_def status_ok_def)
  qed
qed

text \<open>The throwing constructor and \<open>Shape::from_dims\<close> accept the same dimension lists, those without
  a negative dimension, store them unchanged, and so only produce valid shapes; otherwise one throws
  \<open>std::invalid_argument\<close> with the message of the invalid-argument status the other returns.\<close>

theorem shape_construction:
  "(from_dims dims = Holds shape \<longleftrightarrow> shape_of_span dims = Returns shape) \<and>
   (from_dims dims = Holds shape \<longleftrightarrow> shape_dims shape = dims \<and> shape_valid shape) \<and>
   (shape_of_span dims = Throws (Invalid_argument_exn m) \<longleftrightarrow>
      (\<exists>s. from_dims dims = Fails s \<and> st_code s = kInvalidArgument \<and> st_message s = m))"
proof (cases "list_all (\<lambda>dim. 0 \<le> sint dim) dims")
  case True
  then show ?thesis by (auto simp: from_dims_cases shape_of_span_cases shape_valid_def)
next
  case False
  then have "list_ex (\<lambda>dim. dim <s 0) dims"
    by (auto simp: list_ex_iff list_all_iff word_sless_alt linorder_not_le)
  with False show ?thesis
    by (auto simp: from_dims_cases shape_of_span_cases shape_valid_def validate_dims_def
        status_invalid_argument_def status_error_def)
qed

end
