(* ===== verification/Codec.thy ===== *)
theory Codec
  imports Status
begin

text \<open>
  The interface of the enumerations that have a textual form (\<open>DType\<close>, \<open>DeviceType\<close>, \<open>Layout\<close>): a
  predicate for the named values, the name of a value and a parser. The laws are what a user of the
  text forms relies on; the three enumerations interpret the locale in their own theories.
\<close>

locale enum_codec =
  fixes valid :: "'e \<Rightarrow> bool" and name_of :: "'e \<Rightarrow> string"
    and parse :: "string \<Rightarrow> 'e Result outcome"
  assumes parse_name: "valid e \<Longrightarrow> parse (name_of e) = Returns (Holds e)"
    and parse_sound: "parse t = Returns (Holds e) \<Longrightarrow> valid e \<and> name_of e = t"
    and parse_returns: "\<exists>r. parse t = Returns r"
    and parse_error: "parse t = Returns (Fails s) \<Longrightarrow> st_code s = kInvalidArgument"
begin

lemma parse_holds_iff: "parse t = Returns (Holds e) \<longleftrightarrow> valid e \<and> name_of e = t"
  using parse_name parse_sound by blast

lemma name_inject: "valid e \<Longrightarrow> valid f \<Longrightarrow> name_of e = name_of f \<Longrightarrow> e = f"
  by (metis parse_name Result.inject(1) outcome.inject(1))

lemma parse_cases:
  obtains (known) e where "parse t = Returns (Holds e)" "valid e" "name_of e = t"
  | (unknown) s where "parse t = Returns (Fails s)" "\<not> status_ok s" "st_code s = kInvalidArgument"
      "\<And>e. valid e \<Longrightarrow> name_of e \<noteq> t"
proof -
  obtain r where r: "parse t = Returns r" using parse_returns by blast
  show ?thesis
  proof (cases r)
    case (Holds e)
    then show ?thesis using r parse_sound known by blast
  next
    case (Fails s)
    then have f: "parse t = Returns (Fails s)" using r by simp
    then have "st_code s = kInvalidArgument" by (rule parse_error)
    moreover from this have "\<not> status_ok s" by (simp add: status_ok_def)
    moreover have "name_of e \<noteq> t" if "valid e" for e using f parse_name [OF that] by auto
    ultimately show ?thesis using f unknown by blast
  qed
qed

lemma parse_fails_iff:
  "(\<exists>s. parse t = Returns (Fails s) \<and> st_code s = kInvalidArgument) \<longleftrightarrow>
    (\<nexists>e. valid e \<and> name_of e = t)"
  by (cases rule: parse_cases [of t]) auto

end

text \<open>Names that are free of a separator, so that a parser can look for it after the name.\<close>

locale separable_codec = enum_codec valid name_of parse
  for valid :: "'e \<Rightarrow> bool" and name_of :: "'e \<Rightarrow> string"
    and parse :: "string \<Rightarrow> 'e Result outcome" +
  fixes sep :: char
  assumes sep_notin: "valid e \<Longrightarrow> sep \<notin> set (name_of e)"
begin

lemma takeWhile_name: "valid e \<Longrightarrow> takeWhile (\<lambda>c. c \<noteq> sep) (name_of e @ sep # rest) = name_of e"
  using sep_notin by (subst takeWhile_append2) auto

lemma takeWhile_name_end: "valid e \<Longrightarrow> takeWhile (\<lambda>c. c \<noteq> sep) (name_of e) = name_of e"
  using sep_notin by (intro takeWhile_id) auto

end

text \<open>
  Element access of a \<open>std::array\<close> by \<open>operator[]\<close>, which is undefined out of range.
\<close>

definition array_at :: "'a list \<Rightarrow> nat \<Rightarrow> 'a outcome" where
  "array_at xs i = (if i < length xs then Returns (xs ! i) else Undefined)"

lemma array_at_simps [simp]: "i < length xs \<Longrightarrow> array_at xs i = Returns (xs ! i)"
  by (simp add: array_at_def)

end
