(* ===== verification/DTypes.thy ===== *)
theory DTypes
  imports Codec
begin

text \<open>
  \<open>core/dtype.h\<close> and \<open>core/dtype.cc\<close>: the element types, their table of names, sizes and categories,
  their text form, and the traits that map C++ types to them.
\<close>

section \<open>Low-precision floats\<close>

text \<open>Both types store 16 raw bits and compare them.\<close>

datatype Float16 = Float16_bits (float16_bits: u16)
datatype BFloat16 = BFloat16_bits (bfloat16_bits: u16)

section \<open>Enumerations and the table\<close>

datatype DType = DType (dtype_bits: u8)

abbreviation "kBool \<equiv> DType 0"
abbreviation "kUInt8 \<equiv> DType 1"
abbreviation "kInt8 \<equiv> DType 2"
abbreviation "kInt16 \<equiv> DType 3"
abbreviation "kInt32 \<equiv> DType 4"
abbreviation "kInt64 \<equiv> DType 5"
abbreviation "kFloat16 \<equiv> DType 6"
abbreviation "kBFloat16 \<equiv> DType 7"
abbreviation "kFloat32 \<equiv> DType 8"
abbreviation "kFloat64 \<equiv> DType 9"
abbreviation "kComplex64 \<equiv> DType 10"
abbreviation "kComplex128 \<equiv> DType 11"
abbreviation "kUInt64 \<equiv> DType 12"

text \<open>The built-in comparison of enumerators is that of their values.\<close>

instantiation DType :: linorder
begin

definition less_eq_DType :: "DType \<Rightarrow> DType \<Rightarrow> bool" where
  "less_eq_DType a b \<longleftrightarrow> dtype_bits a \<le> dtype_bits b"

definition less_DType :: "DType \<Rightarrow> DType \<Rightarrow> bool" where
  "less_DType a b \<longleftrightarrow> dtype_bits a < dtype_bits b"

instance
  by standard (auto simp: less_eq_DType_def less_DType_def intro: DType.expand)

end

lemma DType_le [simp]: "DType a \<le> DType b \<longleftrightarrow> a \<le> b"
  by (simp add: less_eq_DType_def)

datatype DTypeCategory = kBoolean | kUnsignedInteger | kSignedInteger | kFloating | kComplex

record DTypeInfo =
  dt_name :: string
  dt_size_bytes :: u8
  dt_alignment :: u8
  dt_category :: DTypeCategory

definition is_valid_dtype :: "DType \<Rightarrow> bool" where
  "is_valid_dtype dtype \<longleftrightarrow> dtype \<ge> kBool \<and> dtype \<le> kUInt64"

text \<open>
  The C++ types the traits and the table mention, and some they do not; \<open>sizeof\<close> and \<open>alignof\<close> are
  those of the x86-64 System V ABI.
\<close>

datatype cpp_type =
    T_bool | T_uint8 | T_int8 | T_int16 | T_int32 | T_int64 | T_uint64 | T_Float16 | T_BFloat16
  | T_float | T_double | T_complex_float | T_complex_double
  | T_char | T_uint16 | T_uint32 | T_long_double

fun cpp_sizeof :: "cpp_type \<Rightarrow> nat" where
  "cpp_sizeof T_bool = 1"
| "cpp_sizeof T_uint8 = 1"
| "cpp_sizeof T_int8 = 1"
| "cpp_sizeof T_int16 = 2"
| "cpp_sizeof T_int32 = 4"
| "cpp_sizeof T_int64 = 8"
| "cpp_sizeof T_uint64 = 8"
| "cpp_sizeof T_Float16 = 2"
| "cpp_sizeof T_BFloat16 = 2"
| "cpp_sizeof T_float = 4"
| "cpp_sizeof T_double = 8"
| "cpp_sizeof T_complex_float = 8"
| "cpp_sizeof T_complex_double = 16"
| "cpp_sizeof T_char = 1"
| "cpp_sizeof T_uint16 = 2"
| "cpp_sizeof T_uint32 = 4"
| "cpp_sizeof T_long_double = 16"

fun cpp_alignof :: "cpp_type \<Rightarrow> nat" where
  "cpp_alignof T_complex_float = 4"
| "cpp_alignof T_complex_double = 8"
| "cpp_alignof t = cpp_sizeof t"

definition make_dtype_info :: "cpp_type \<Rightarrow> string \<Rightarrow> DTypeCategory \<Rightarrow> DTypeInfo" where
  "make_dtype_info t name category =
     \<lparr>dt_name = name, dt_size_bytes = of_nat (cpp_sizeof t), dt_alignment = of_nat (cpp_alignof t),
      dt_category = category\<rparr>"

definition kDTypeTable :: "DTypeInfo list" where
  "kDTypeTable =
     [make_dtype_info T_bool ''bool'' kBoolean,
      make_dtype_info T_uint8 ''uint8'' kUnsignedInteger,
      make_dtype_info T_int8 ''int8'' kSignedInteger,
      make_dtype_info T_int16 ''int16'' kSignedInteger,
      make_dtype_info T_int32 ''int32'' kSignedInteger,
      make_dtype_info T_int64 ''int64'' kSignedInteger,
      make_dtype_info T_Float16 ''float16'' kFloating,
      make_dtype_info T_BFloat16 ''bfloat16'' kFloating,
      make_dtype_info T_float ''float32'' kFloating,
      make_dtype_info T_double ''float64'' kFloating,
      make_dtype_info T_complex_float ''complex64'' kComplex,
      make_dtype_info T_complex_double ''complex128'' kComplex,
      make_dtype_info T_uint64 ''uint64'' kUnsignedInteger]"

text \<open>A pointer into the table, null for an invalid value.\<close>

definition find_dtype_info :: "DType \<Rightarrow> DTypeInfo option outcome" where
  "find_dtype_info dtype =
     (if \<not> is_valid_dtype dtype then Returns None
      else bnd (array_at kDTypeTable (unat (dtype_bits dtype))) (\<lambda>info. Returns (Some info)))"

section \<open>Queries\<close>

abbreviation dtype_loc :: "u32 \<Rightarrow> source_location" where
  "dtype_loc l \<equiv> loc ''src/core/dtype.cc'' l"

definition dtype_info :: "DType \<Rightarrow> DTypeInfo Result outcome" where
  "dtype_info dtype =
     bnd (find_dtype_info dtype) (\<lambda>info. case info of
       None \<Rightarrow> Returns (result_of_status (status_invalid_argument ''invalid DType value'' (dtype_loc 47)))
     | Some i \<Rightarrow> Returns (result_of_value i))"

definition dtype_name :: "DType \<Rightarrow> string Result outcome" where
  "dtype_name dtype =
     bnd (dtype_info dtype) (\<lambda>info. result_try info (\<lambda>i. Returns (result_of_value (dt_name i))))"

definition element_size :: "DType \<Rightarrow> size_t Result outcome" where
  "element_size dtype =
     bnd (dtype_info dtype) (\<lambda>info.
       result_try info (\<lambda>i. Returns (result_of_value (ucast (dt_size_bytes i)))))"

function parse_dtype_loop :: "string \<Rightarrow> nat \<Rightarrow> DType Result outcome" where
  "parse_dtype_loop text index =
     (if index < length kDTypeTable
      then bnd (array_at kDTypeTable index) (\<lambda>info.
        if dt_name info = text then Returns (result_of_value (DType (of_nat index)))
        else parse_dtype_loop text (Suc index))
      else Returns (result_of_status
        (status_invalid_argument (''unknown dtype: '' @ text) (dtype_loc 74))))"
  by pat_completeness auto
termination
  by (relation "measure (\<lambda>(text, index). length kDTypeTable - index)") auto

declare parse_dtype_loop.simps [simp del]

definition parse_dtype :: "string \<Rightarrow> DType Result outcome" where
  "parse_dtype text = parse_dtype_loop text 0"

definition is_boolean :: "DType \<Rightarrow> bool outcome" where
  "is_boolean dtype =
     bnd (find_dtype_info dtype) (\<lambda>info. case info of None \<Rightarrow> Returns False
       | Some i \<Rightarrow> Returns (dt_category i = kBoolean))"

definition is_integral :: "DType \<Rightarrow> bool outcome" where
  "is_integral dtype =
     bnd (find_dtype_info dtype) (\<lambda>info. case info of None \<Rightarrow> Returns False
       | Some i \<Rightarrow> Returns (dt_category i = kUnsignedInteger \<or> dt_category i = kSignedInteger))"

definition is_floating :: "DType \<Rightarrow> bool outcome" where
  "is_floating dtype =
     bnd (find_dtype_info dtype) (\<lambda>info. case info of None \<Rightarrow> Returns False
       | Some i \<Rightarrow> Returns (dt_category i = kFloating))"

definition is_complex :: "DType \<Rightarrow> bool outcome" where
  "is_complex dtype =
     bnd (find_dtype_info dtype) (\<lambda>info. case info of None \<Rightarrow> Returns False
       | Some i \<Rightarrow> Returns (dt_category i = kComplex))"

text \<open>What \<open>operator<<\<close> appends to the stream.\<close>

definition dtype_print :: "DType \<Rightarrow> string outcome" where
  "dtype_print dtype =
     bnd (find_dtype_info dtype) (\<lambda>info. case info of
       Some i \<Rightarrow> Returns (dt_name i)
     | None \<Rightarrow> Returns (''invalid_dtype('' @ digits_of (unat (dtype_bits dtype)) @ '')''))"

section \<open>Traits\<close>

fun dtype_traits :: "cpp_type \<Rightarrow> DType option" where
  "dtype_traits T_bool = Some kBool"
| "dtype_traits T_uint8 = Some kUInt8"
| "dtype_traits T_int8 = Some kInt8"
| "dtype_traits T_int16 = Some kInt16"
| "dtype_traits T_int32 = Some kInt32"
| "dtype_traits T_int64 = Some kInt64"
| "dtype_traits T_uint64 = Some kUInt64"
| "dtype_traits T_Float16 = Some kFloat16"
| "dtype_traits T_BFloat16 = Some kBFloat16"
| "dtype_traits T_float = Some kFloat32"
| "dtype_traits T_double = Some kFloat64"
| "dtype_traits T_complex_float = Some kComplex64"
| "dtype_traits T_complex_double = Some kComplex128"
| "dtype_traits _ = None"

definition kHasDTypeV :: "cpp_type \<Rightarrow> bool" where
  "kHasDTypeV t \<longleftrightarrow> dtype_traits t \<noteq> None"

text \<open>\<open>dtype_of<T>\<close> is there for the types that satisfy its constraint.\<close>

definition dtype_of :: "cpp_type \<Rightarrow> DType option" where
  "dtype_of t = (if kHasDTypeV t then dtype_traits t else None)"

section \<open>Lemmas\<close>

lemma length_kDTypeTable [simp]: "length kDTypeTable = 13"
  by (simp add: kDTypeTable_def)

lemma valid_dtype_unat: "is_valid_dtype d \<longleftrightarrow> unat (dtype_bits d) < 13"
  by (simp add: is_valid_dtype_def less_eq_DType_def word_le_nat_alt) linarith

lemma valid_dtype_of_nat: "n < 13 \<Longrightarrow> is_valid_dtype (DType (of_nat n)) \<and> unat (of_nat n :: u8) = n"
  by (simp add: valid_dtype_unat unat_of_nat)

lemma find_dtype_info_cases:
  "find_dtype_info d =
    Returns (if is_valid_dtype d then Some (kDTypeTable ! unat (dtype_bits d)) else None)"
  by (simp add: find_dtype_info_def valid_dtype_unat)

definition dtype_entry :: "DType \<Rightarrow> DTypeInfo" where
  "dtype_entry d = kDTypeTable ! unat (dtype_bits d)"

lemma dtype_info_cases:
  "dtype_info d =
    Returns (if is_valid_dtype d then Holds (dtype_entry d)
      else Fails (status_invalid_argument ''invalid DType value'' (dtype_loc 47)))"
  by (simp add: dtype_info_def find_dtype_info_cases dtype_entry_def result_of_value_def)

lemma less_13_cases:
  "(n::nat) < 13 \<Longrightarrow> n = 0 \<or> n = 1 \<or> n = 2 \<or> n = 3 \<or> n = 4 \<or> n = 5 \<or> n = 6 \<or> n = 7 \<or>
    n = 8 \<or> n = 9 \<or> n = 10 \<or> n = 11 \<or> n = 12"
  by presburger

text \<open>The valid values are the thirteen enumerators.\<close>

lemma valid_dtype_cases:
  assumes "is_valid_dtype d"
  obtains "d = kBool" | "d = kUInt8" | "d = kInt8" | "d = kInt16" | "d = kInt32" | "d = kInt64"
    | "d = kFloat16" | "d = kBFloat16" | "d = kFloat32" | "d = kFloat64" | "d = kComplex64"
    | "d = kComplex128" | "d = kUInt64"
proof -
  obtain b where b: "d = DType b" by (cases d)
  have "unat b < 13" using assms b by (simp add: valid_dtype_unat)
  moreover have "b = of_nat (unat b)" by simp
  ultimately have "unat b \<in> {0,1,2,3,4,5,6,7,8,9,10,11,12}" "d = DType (of_nat (unat b))"
    using b less_13_cases [of "unat b"] by simp_all
  then show thesis
    using that by (elim insertE emptyE) simp_all
qed

lemma table_names_distinct: "distinct (map dt_name kDTypeTable)"
  by (simp add: kDTypeTable_def make_dtype_info_def)

lemma dtype_name_inject:
  "m < 13 \<Longrightarrow> n < 13 \<Longrightarrow> dt_name (kDTypeTable ! m) = dt_name (kDTypeTable ! n) \<Longrightarrow> m = n"
  using nth_eq_iff_index_eq [OF table_names_distinct, of m n] by simp

lemma parse_dtype_loop_found:
  assumes "index \<le> n" and "n < 13" and "dt_name (kDTypeTable ! n) = text"
  shows "parse_dtype_loop text index = Returns (Holds (DType (of_nat n)))"
  using assms
proof (induction "text" index rule: parse_dtype_loop.induct)
  case (1 t i)
  show ?case
  proof (cases "i = n")
    case True
    then show ?thesis using "1"(3,4)
      by (subst parse_dtype_loop.simps) (simp add: result_of_value_def)
  next
    case False
    then have "i < 13" "dt_name (kDTypeTable ! i) \<noteq> t"
      using "1"(2-4) dtype_name_inject [of i n] by auto
    then show ?thesis using "1" False
      by (subst parse_dtype_loop.simps) simp
  qed
qed

lemma parse_dtype_loop_unknown:
  assumes "\<forall>n. index \<le> n \<and> n < 13 \<longrightarrow> dt_name (kDTypeTable ! n) \<noteq> text"
  shows "parse_dtype_loop text index =
    Returns (Fails (status_invalid_argument (''unknown dtype: '' @ text) (dtype_loc 74)))"
  using assms
proof (induction "text" index rule: parse_dtype_loop.induct)
  case (1 t i)
  then show ?case by (subst parse_dtype_loop.simps) auto
qed

interpretation dtype_text: enum_codec is_valid_dtype "\<lambda>d. dt_name (dtype_entry d)" parse_dtype
proof unfold_locales
  fix e assume "is_valid_dtype e"
  then show "parse_dtype (dt_name (dtype_entry e)) = Returns (Holds e)"
    using parse_dtype_loop_found [of 0 "unat (dtype_bits e)"]
    by (simp add: parse_dtype_def dtype_entry_def valid_dtype_unat)
next
  fix t
  have *: "(\<exists>n<13. dt_name (kDTypeTable ! n) = t \<and> parse_dtype t = Returns (Holds (DType (of_nat n)))) \<or>
      parse_dtype t = Returns (Fails (status_invalid_argument (''unknown dtype: '' @ t) (dtype_loc 74)))"
    using parse_dtype_loop_found [of 0 _ t] parse_dtype_loop_unknown [of 0 t]
    by (auto simp: parse_dtype_def)
  then show "\<exists>r. parse_dtype t = Returns r" by auto
  show "is_valid_dtype e \<and> dt_name (dtype_entry e) = t" if "parse_dtype t = Returns (Holds e)" for e
    using * that by (auto simp: dtype_entry_def valid_dtype_of_nat)
  show "st_code s = kInvalidArgument" if "parse_dtype t = Returns (Fails s)" for s
    using * that by auto
qed

section \<open>Properties\<close>

text \<open>Reading an entry of the dtype table never goes out of range, whatever the value of the enumeration:
  \<open>dtype_info\<close>, \<open>dtype_name\<close> and \<open>element_size\<close> succeed on the thirteen enumerators and report an
  invalid argument on every other value, on which all four category predicates are false.\<close>

theorem dtype_queries_total:
  "((\<exists>i n b. dtype_info d = Returns (Holds i) \<and> dtype_name d = Returns (Holds n) \<and>
        element_size d = Returns (Holds b)) \<longleftrightarrow> is_valid_dtype d) \<and>
   ((\<exists>s. dtype_info d = Returns (Fails s) \<and> dtype_name d = Returns (Fails s) \<and>
        element_size d = Returns (Fails s) \<and> st_code s = kInvalidArgument \<and>
        is_boolean d = Returns False \<and> is_integral d = Returns False \<and>
        is_floating d = Returns False \<and> is_complex d = Returns False) \<longleftrightarrow> \<not> is_valid_dtype d)"
  by (cases "is_valid_dtype d")
    (auto simp: dtype_info_cases dtype_name_def element_size_def result_of_value_def
      is_boolean_def is_integral_def is_floating_def is_complex_def find_dtype_info_cases)

text \<open>\<open>parse_dtype\<close> and \<open>dtype_name\<close> are inverse to each other: a text parses to a value exactly when
  it is that value's name, and any other text is reported as an invalid argument.\<close>

theorem dtype_text_roundtrip:
  "(parse_dtype t = Returns (Holds d) \<longleftrightarrow> dtype_name d = Returns (Holds t)) \<and>
   ((\<exists>s. parse_dtype t = Returns (Fails s) \<and> st_code s = kInvalidArgument) \<longleftrightarrow>
      (\<nexists>e. dtype_name e = Returns (Holds t)))"
proof -
  have name: "dtype_name e = Returns (Holds t) \<longleftrightarrow> is_valid_dtype e \<and> dt_name (dtype_entry e) = t" for e
    by (simp add: dtype_name_def dtype_info_cases result_of_value_def)
  show ?thesis unfolding name dtype_text.parse_holds_iff dtype_text.parse_fails_iff by simp
qed

text \<open>The traits and the table agree: every C++ type with a \<open>DType\<close> has a valid one, whose table entry
  has the size and the alignment of that type, and every valid \<open>DType\<close> belongs to exactly one type.\<close>

theorem dtype_traits_agree:
  "(case dtype_traits t of
      None \<Rightarrow> kHasDTypeV t = False
    | Some e \<Rightarrow> kHasDTypeV t \<and> (\<exists>i. dtype_info e = Returns (Holds i) \<and>
        unat (dt_size_bytes i) = cpp_sizeof t \<and> unat (dt_alignment i) = cpp_alignof t)) \<and>
   ((\<exists>!u. dtype_traits u = Some d) \<longleftrightarrow> is_valid_dtype d)"
proof
  show "case dtype_traits t of
      None \<Rightarrow> kHasDTypeV t = False
    | Some e \<Rightarrow> kHasDTypeV t \<and> (\<exists>i. dtype_info e = Returns (Holds i) \<and>
        unat (dt_size_bytes i) = cpp_sizeof t \<and> unat (dt_alignment i) = cpp_alignof t)"
    by (cases t) (auto simp: dtype_info_cases valid_dtype_unat dtype_entry_def kHasDTypeV_def
        kDTypeTable_def make_dtype_info_def)
  show "(\<exists>!u. dtype_traits u = Some d) \<longleftrightarrow> is_valid_dtype d"
  proof
    assume "\<exists>!u. dtype_traits u = Some d"
    then obtain u where "dtype_traits u = Some d" by auto
    then show "is_valid_dtype d" by (cases u) (auto simp: valid_dtype_unat)
  next
    have one: "\<exists>!u. dtype_traits u = Some d" if "dtype_traits v = Some d" for v
    proof (rule ex1I)
      show "dtype_traits v = Some d" by fact
      show "u = v" if "dtype_traits u = Some d" for u
        using that \<open>dtype_traits v = Some d\<close> by (cases u; cases v) auto
    qed
    assume "is_valid_dtype d"
    then show "\<exists>!u. dtype_traits u = Some d"
      using one [of T_bool] one [of T_uint8] one [of T_int8] one [of T_int16] one [of T_int32]
        one [of T_int64] one [of T_Float16] one [of T_BFloat16] one [of T_float] one [of T_double]
        one [of T_complex_float] one [of T_complex_double] one [of T_uint64]
      by (cases rule: valid_dtype_cases) simp_all
  qed
qed

text \<open>The category predicates partition the valid dtypes: exactly one of \<open>is_boolean\<close>,
  \<open>is_integral\<close>, \<open>is_floating\<close> and \<open>is_complex\<close> is true of a valid value, none of an invalid one.\<close>

theorem dtype_categories_partition:
  "\<exists>b i f c. is_boolean d = Returns b \<and> is_integral d = Returns i \<and> is_floating d = Returns f \<and>
     is_complex d = Returns c \<and>
     length (filter id [b, i, f, c]) = (if is_valid_dtype d then 1 else 0)"
  by (cases "dt_category (dtype_entry d)")
    (auto simp: is_boolean_def is_integral_def is_floating_def is_complex_def
      find_dtype_info_cases dtype_entry_def)

end
