(* ===== verification/Layouts.thy ===== *)
theory Layouts
  imports Codec
begin

text \<open>
  \<open>core/layout.h\<close>, \<open>core/layout.cc\<close> and \<open>core/version.cc\<close>: the memory layouts, of which there is one,
  and the version string.
\<close>

datatype Layout = Layout (layout_bits: u8)

abbreviation "kStrided \<equiv> Layout 0"

definition is_valid_layout :: "Layout \<Rightarrow> bool" where
  "is_valid_layout layout \<longleftrightarrow> layout = kStrided"

definition layout_name :: "Layout \<Rightarrow> string" where
  "layout_name layout = (if layout = kStrided then ''strided'' else ''invalid'')"

definition parse_layout :: "string \<Rightarrow> Layout Result" where
  "parse_layout text =
     (if text = ''strided'' then result_of_value kStrided
      else result_of_status (status_invalid_argument (''unknown layout: '' @ text)
        (loc ''src/core/layout.cc'' 19)))"

text \<open>What \<open>operator<<\<close> appends to the stream.\<close>

definition layout_print :: "Layout \<Rightarrow> string" where
  "layout_print layout =
     (if is_valid_layout layout then layout_name layout
      else ''invalid_layout('' @ digits_of (unat (layout_bits layout)) @ '')'')"

definition version :: string where
  "version = ''0.0.0''"

definition kVersionMajor :: int where "kVersionMajor = 0"
definition kVersionMinor :: int where "kVersionMinor = 0"
definition kVersionPatch :: int where "kVersionPatch = 0"

lemma version_components:
  "version = to_string_int kVersionMajor @ ''.'' @ to_string_int kVersionMinor @ ''.'' @
    to_string_int kVersionPatch"
  by code_simp

interpretation layout_text: enum_codec is_valid_layout layout_name "\<lambda>t. Returns (parse_layout t)"
  by unfold_locales
    (auto simp: is_valid_layout_def layout_name_def parse_layout_def result_of_value_def
      split: if_splits)

section \<open>Properties\<close>

text \<open>\<open>parse_layout\<close> accepts a text exactly when it is the name of a valid layout and reports an invalid
  argument otherwise, and printing distinguishes all 256 values of the enumeration.\<close>

theorem layout_text_roundtrip:
  "(parse_layout t = Holds e \<longleftrightarrow> is_valid_layout e \<and> layout_name e = t) \<and>
   ((\<exists>s. parse_layout t = Fails s \<and> st_code s = kInvalidArgument) \<longleftrightarrow>
      (\<nexists>f. is_valid_layout f \<and> layout_name f = t)) \<and>
   (layout_print e = layout_print f \<longleftrightarrow> e = f)"
proof -
  have "layout_print e = layout_print f \<Longrightarrow> e = f"
    by (cases e; cases f)
      (auto simp: layout_print_def is_valid_layout_def layout_name_def
        split: if_splits intro: word_unat_eq_iff [THEN iffD2])
  then show ?thesis
    using layout_text.parse_holds_iff [of t e] layout_text.parse_fails_iff [of t] by auto
qed

end
