(* ===== verification/Devices.thy ===== *)
theory Devices
  imports Codec
begin

text \<open>
  \<open>core/device.h\<close> and \<open>core/device.cc\<close>: device types, devices, their text form and their hash.
\<close>

section \<open>Device types\<close>

datatype DeviceType = DeviceType (device_type_bits: u8)

abbreviation "kCPU \<equiv> DeviceType 0"
abbreviation "kCUDA \<equiv> DeviceType 1"
abbreviation "kMeta \<equiv> DeviceType 2"

definition is_valid_device_type :: "DeviceType \<Rightarrow> bool" where
  "is_valid_device_type type \<longleftrightarrow> type = kCPU \<or> type = kCUDA \<or> type = kMeta"

definition device_type_name :: "DeviceType \<Rightarrow> string" where
  "device_type_name type =
     (if type = kCPU then ''cpu''
      else if type = kCUDA then ''cuda''
      else if type = kMeta then ''meta''
      else ''invalid'')"

abbreviation device_loc :: "u32 \<Rightarrow> source_location" where
  "device_loc l \<equiv> loc ''src/core/device.cc'' l"

definition parse_device_type :: "string \<Rightarrow> DeviceType Result" where
  "parse_device_type text =
     (if text = ''cpu'' then result_of_value kCPU
      else if text = ''cuda'' then result_of_value kCUDA
      else if text = ''meta'' then result_of_value kMeta
      else result_of_status
        (status_invalid_argument (''unknown device type: '' @ text) (device_loc 32)))"

section \<open>Devices\<close>

type_synonym DeviceIndex = i32

definition kDefaultDeviceIndex :: DeviceIndex where
  "kDefaultDeviceIndex = 0"

record Device =
  dev_type :: DeviceType
  dev_index :: DeviceIndex

definition device_ctor :: "DeviceType \<Rightarrow> DeviceIndex \<Rightarrow> Device outcome" where
  "device_ctor type index =
     (if \<not> is_valid_device_type type then Throws (Invalid_argument_exn ''invalid device type'')
      else if index <s 0
      then Throws (Invalid_argument_exn ''device index must be non-negative'')
      else Returns \<lparr>dev_type = type, dev_index = index\<rparr>)"

text \<open>\<open>std::string_view::find\<close> of a character (\<open>npos\<close> is \<open>None\<close>) and \<open>substr\<close>.\<close>

definition sv_find :: "char \<Rightarrow> string \<Rightarrow> nat option" where
  "sv_find c s = (if c \<in> set s then Some (length (takeWhile (\<lambda>x. x \<noteq> c) s)) else None)"

definition sv_substr :: "string \<Rightarrow> nat \<Rightarrow> nat option \<Rightarrow> string outcome" where
  "sv_substr s pos n =
     (if pos \<le> length s
      then Returns (case n of None \<Rightarrow> drop pos s | Some k \<Rightarrow> take k (drop pos s))
      else Throws Out_of_range_exn)"

text \<open>The index after a separator: the block of \<open>Device::parse\<close> under \<open>separator != npos\<close>.\<close>

definition parse_device_index :: "string \<Rightarrow> DeviceIndex Result" where
  "parse_device_index index_text =
     (if index_text = '''' then result_of_status
        (status_invalid_argument ''device index must not be empty'' (device_loc 51))
      else
        let (rest, error, wide_index) = from_chars_i64 index_text 0
        in if error \<noteq> Errc_ok \<or> rest \<noteq> ''''
           then result_of_status
             (status_invalid_argument (''invalid device index: '' @ index_text) (device_loc 59))
           else if wide_index <s 0 \<or> sint wide_index > smax_int TYPE(32)
           then result_of_status
             (status_out_of_range (''device index is out of range: '' @ index_text) (device_loc 63))
           else result_of_value (ucast wide_index))"

definition device_parse :: "string \<Rightarrow> Device Result outcome" where
  "device_parse text =
     (if text = '''' then Returns (result_of_status
        (status_invalid_argument ''device string must not be empty'' (device_loc 37)))
      else
        let separator = sv_find CHR '':'' text
        in bnd (sv_substr text 0 separator) (\<lambda>type_text.
          result_try (parse_device_type type_text) (\<lambda>parsed_type.
            case separator of
              None \<Rightarrow> bnd (device_ctor parsed_type kDefaultDeviceIndex) (\<lambda>d. Returns (result_of_value d))
            | Some sep \<Rightarrow>
                bnd (sv_substr text (sep + 1) None) (\<lambda>index_text.
                  result_try (parse_device_index index_text) (\<lambda>index.
                    bnd (device_ctor parsed_type index) (\<lambda>d. Returns (result_of_value d)))))))"

definition device_str :: "Device \<Rightarrow> string" where
  "device_str d = device_type_name (dev_type d) @ '':'' @ to_string_int (sint (dev_index d))"

text \<open>What \<open>operator<<\<close> appends to the stream.\<close>

definition device_print :: "Device \<Rightarrow> string" where
  "device_print d = device_str d"

text \<open>\<open>std::hash<Device>\<close>: the casts to \<open>size_t\<close> zero-extend the type and sign-extend the index.\<close>

unbundle bit_operations_syntax

definition device_hash :: "Device \<Rightarrow> size_t" where
  "device_hash d = ((ucast (device_type_bits (dev_type d)) * 0x9e3779b9) XOR scast (dev_index d))"

section \<open>The class invariant\<close>

definition device_valid :: "Device \<Rightarrow> bool" where
  "device_valid d \<longleftrightarrow> is_valid_device_type (dev_type d) \<and> 0 \<le> sint (dev_index d)"

lemma device_ctor_cases:
  "device_ctor t i = Returns d \<longleftrightarrow> d = \<lparr>dev_type = t, dev_index = i\<rparr> \<and> device_valid d"
  by (auto simp: device_ctor_def device_valid_def word_sless_alt)

interpretation device_type_text: separable_codec is_valid_device_type device_type_name
  "\<lambda>t. Returns (parse_device_type t)" "CHR '':''"
  by unfold_locales
    (auto simp: is_valid_device_type_def device_type_name_def parse_device_type_def
      result_of_value_def split: if_splits)

section \<open>Parsing\<close>

lemma sv_find_append: "c \<notin> set s \<Longrightarrow> sv_find c (s @ c # r) = Some (length s)"
  by (subst sv_find_def, subst takeWhile_append2) auto

text \<open>Equations for the two shapes of an input: without and with a separator.\<close>

lemma device_parse_no_sep:
  assumes "CHR '':'' \<notin> set t" "t \<noteq> ''''"
  shows "device_parse t =
    result_try (parse_device_type t) (\<lambda>ty. bnd (device_ctor ty 0) (\<lambda>d. Returns (Holds d)))"
  using assms
  by (simp add: device_parse_def sv_find_def sv_substr_def kDefaultDeviceIndex_def result_of_value_def)

lemma device_parse_sep:
  assumes "CHR '':'' \<notin> set a"
  shows "device_parse (a @ CHR '':'' # b) =
    result_try (parse_device_type a) (\<lambda>ty.
      result_try (parse_device_index b) (\<lambda>i. bnd (device_ctor ty i) (\<lambda>d. Returns (Holds d))))"
  using assms
  by (simp add: device_parse_def sv_find_append sv_substr_def result_of_value_def)

lemma sint_ucast_i32:
  fixes w :: i64
  assumes "0 \<le> sint w" "sint w \<le> smax_int TYPE(32)"
  shows "sint (ucast w :: i32) = sint w"
proof -
  have "ucast w = (word_of_int (uint w) :: i32)" by (rule ucast_eq)
  also have "\<dots> = word_of_int (sint w)" using assms by (simp only: sint_uint_nonneg)
  finally have "sint (ucast w :: i32) = sint (word_of_int (sint w) :: i32)" by (rule arg_cong)
  also have "\<dots> = sint w" using assms by (intro sint_word_of_int_fits) (simp add: s_fits_def)
  finally show ?thesis .
qed

lemma parse_device_index_step:
  "parse_device_index s = Holds i \<longleftrightarrow>
    s \<noteq> '''' \<and> (\<exists>w. from_chars_i64 s 0 = ('''', Errc_ok, w) \<and> 0 \<le> sint w \<and> sint i = sint w)"
proof -
  obtain r e w where f: "from_chars_i64 s 0 = (r, e, w)" by (cases "from_chars_i64 s 0") auto
  have "ucast w = i \<longleftrightarrow> sint i = sint w" if "0 \<le> sint w" "sint w \<le> smax_int TYPE(32)"
    using sint_ucast_i32 [OF that] by (metis word_eq_sint)
  then show ?thesis
    using sint_le_smax [of i]
    by (auto simp: parse_device_index_def f Let_def result_of_status_def result_of_value_def
        word_sless_alt linorder_not_le linorder_not_less)
qed

lemma parse_device_index_holds_iff:
  "parse_device_index s = Holds i \<longleftrightarrow> 0 \<le> sint i \<and> signed_numeral s (sint i)"
proof -
  have "\<exists>w :: i64. sint w = sint i" using sint_le_smax [of i] sint_ge_smin [of i]
    by (intro exI [of _ "word_of_int (sint i)"] sint_word_of_int_fits) (simp add: s_fits_def)
  moreover have "\<not> signed_numeral '''' j" for j by (simp add: signed_numeral_def)
  ultimately show ?thesis
    unfolding parse_device_index_step from_chars_ok_iff by metis
qed

lemma parse_device_index_range_iff:
  "(\<exists>st. parse_device_index s = Fails st \<and> st_code st = kOutOfRange) \<longleftrightarrow>
    (\<exists>i. signed_numeral s i \<and> s_fits TYPE(64) i \<and> (i < 0 \<or> smax_int TYPE(32) < i))"
proof -
  obtain r e w where f: "from_chars_i64 s 0 = (r, e, w)" by (cases "from_chars_i64 s 0") auto
  have "(\<exists>st. parse_device_index s = Fails st \<and> st_code st = kOutOfRange) \<longleftrightarrow>
      s \<noteq> '''' \<and> r = '''' \<and> e = Errc_ok \<and> (sint w < 0 \<or> smax_int TYPE(32) < sint w)"
    by (auto simp: parse_device_index_def f Let_def result_of_value_def word_sless_alt)
  also have "\<dots> \<longleftrightarrow> (\<exists>w'. s \<noteq> '''' \<and> from_chars_i64 s 0 = ('''', Errc_ok, w') \<and>
      (sint w' < 0 \<or> smax_int TYPE(32) < sint w'))"
    by (auto simp: f)
  also have "\<dots> \<longleftrightarrow> (\<exists>i. signed_numeral s i \<and> s_fits TYPE(64) i \<and> (i < 0 \<or> smax_int TYPE(32) < i))"
  proof -
    have nil: "signed_numeral '''' i \<longleftrightarrow> False" for i by (simp add: signed_numeral_def)
    have fits: "s_fits TYPE(64) i \<longleftrightarrow> (\<exists>w' :: i64. sint w' = i)" for i
      using sint_eq_word_of_int [of i] by auto
    show ?thesis unfolding from_chars_ok_iff fits by (cases "s = ''''") (auto simp: nil)
  qed
  finally show ?thesis .
qed

lemma parse_device_index_fails:
  "parse_device_index s = Fails st \<Longrightarrow> st_code st = kInvalidArgument \<or> st_code st = kOutOfRange"
  by (auto simp: parse_device_index_def Let_def result_of_value_def split: if_splits prod.splits)

section \<open>The language of \<open>Device::parse\<close>\<close>

lemma no_colon_in_name: "CHR '':'' \<notin> set (device_type_name t)"
  by (simp add: device_type_name_def)

lemma device_type_name_neq_Nil [simp]: "device_type_name t \<noteq> []" "[] \<noteq> device_type_name t"
  by (simp_all add: device_type_name_def)

lemma parse_device_type_holds_iff:
  "parse_device_type a = Holds t \<longleftrightarrow> is_valid_device_type t \<and> a = device_type_name t"
  using device_type_text.parse_holds_iff [of a t] by auto

lemma device_parse_no_sep_holds:
  assumes "CHR '':'' \<notin> set t"
  shows "device_parse t = Returns (Holds d) \<longleftrightarrow>
    device_valid d \<and> t = device_type_name (dev_type d) \<and> dev_index d = 0"
proof (cases "t = ''''")
  case True
  then show ?thesis by (simp add: device_parse_def)
next
  case False
  show ?thesis
    unfolding device_parse_no_sep [OF assms False] result_try_holds_iff
    by (auto simp: parse_device_type_holds_iff bnd_eq_Returns device_ctor_cases device_valid_def)
qed

lemma device_parse_sep_holds:
  assumes "CHR '':'' \<notin> set a"
  shows "device_parse (a @ CHR '':'' # b) = Returns (Holds d) \<longleftrightarrow>
    device_valid d \<and> a = device_type_name (dev_type d) \<and> signed_numeral b (sint (dev_index d))"
  unfolding device_parse_sep [OF assms] result_try_holds_iff
  by (cases d) (auto simp: parse_device_type_holds_iff parse_device_index_holds_iff bnd_eq_Returns
      device_ctor_cases device_valid_def)

text \<open>A text either has no separator or splits at its first one.\<close>

lemma sep_cases:
  obtains (none) "CHR '':'' \<notin> set t" | (some) a b where "t = a @ CHR '':'' # b" "CHR '':'' \<notin> set a"
  using split_list_first [of "CHR '':''" t] by blast

lemma colon_split_eq:
  assumes "CHR '':'' \<notin> set a" "CHR '':'' \<notin> set c"
  shows "a @ CHR '':'' # b = c @ CHR '':'' # d \<longleftrightarrow> a = c \<and> b = d"
  using assms by (auto simp: append_eq_append_conv2 Cons_eq_append_conv append_eq_Cons_conv)

text \<open>C32: \<open>Device::parse\<close> accepts exactly the name of a device type, which gives index 0, and the
  name followed by a colon and a decimal numeral of a non-negative 32-bit index; the result is
  that device. In particular no device is produced that the constructor would refuse.\<close>

theorem device_parse_language:
  "device_parse t = Returns (Holds d) \<longleftrightarrow>
    device_valid d \<and>
    (t = device_type_name (dev_type d) \<and> dev_index d = 0 \<or>
     (\<exists>s. t = device_type_name (dev_type d) @ CHR '':'' # s \<and> signed_numeral s (sint (dev_index d))))"
proof (cases t rule: sep_cases)
  case none
  then show ?thesis by (auto simp: device_parse_no_sep_holds)
next
  case (some a b)
  have "CHR '':'' \<in> set t" using some by simp
  then have "t \<noteq> device_type_name (dev_type d)" using no_colon_in_name [of "dev_type d"] by blast
  then show ?thesis
    using some by (auto simp: device_parse_sep_holds colon_split_eq no_colon_in_name)
qed

lemma device_text_roundtrip_iff: "device_parse (device_str d) = Returns (Holds d) \<longleftrightarrow> device_valid d"
  by (auto simp: device_str_def device_parse_sep_holds no_colon_in_name)

text \<open>C33: Printing a device and parsing the text gives the device back, and only the devices that
  satisfy the class invariant print to a text that parses to them.\<close>

theorem device_text_roundtrip:
  "device_parse (device_str d) = Returns (Holds d) \<longleftrightarrow> device_valid d"
  by (rule device_text_roundtrip_iff)

lemma device_parse_fails_cases:
  "\<exists>r. device_parse t = Returns r \<and> (case r of Holds d \<Rightarrow> device_valid d
    | Fails st \<Rightarrow> st_code st = kInvalidArgument \<or> st_code st = kOutOfRange)"
proof (cases "t = ''''")
  case True
  then show ?thesis by (simp add: device_parse_def)
next
  case False
  show ?thesis
  proof (cases t rule: sep_cases)
    case none
    show ?thesis unfolding device_parse_no_sep [OF none False]
      by (cases rule: device_type_text.parse_cases [of t])
        (auto simp: device_ctor_def device_valid_def word_sless_alt)
  next
    case (some a b)
    show ?thesis unfolding some(1) device_parse_sep [OF some(2)]
    proof (cases rule: device_type_text.parse_cases [of a])
      case (known ty)
      then show "\<exists>r. result_try (parse_device_type a) (\<lambda>ty. result_try (parse_device_index b)
          (\<lambda>i. bnd (device_ctor ty i) (\<lambda>d. Returns (Holds d)))) = Returns r \<and>
        (case r of Holds d \<Rightarrow> device_valid d
         | Fails st \<Rightarrow> st_code st = kInvalidArgument \<or> st_code st = kOutOfRange)"
        using parse_device_index_holds_iff [THEN iffD1, of b] parse_device_index_fails [of b]
        by (cases "parse_device_index b")
          (auto simp: result_try_def device_ctor_def device_valid_def word_sless_alt result_of_status_def
            normalize_error_def status_ok_def)
    qed auto
  qed
qed

text \<open>\<open>Device::parse\<close> always returns: it never throws (not from \<open>substr\<close>, not from the constructor of
  \<open>Device\<close>) and never refuses a text by another code than InvalidArgument or OutOfRange; a device
  that it returns satisfies the class invariant.\<close>

theorem device_parse_total:
  "\<exists>r. device_parse t = Returns r \<and> (case r of Holds d \<Rightarrow> device_valid d
    | Fails st \<Rightarrow> st_code st = kInvalidArgument \<or> st_code st = kOutOfRange)"
  by (rule device_parse_fails_cases)

text \<open>\<open>Device::parse\<close> reports OutOfRange exactly for a known type name followed by a numeral that
  fits 64 bits but is negative or above the largest index; every other refusal is InvalidArgument
  (also that of a numeral beyond 64 bits).\<close>

theorem device_parse_out_of_range:
  "(\<exists>st. device_parse t = Returns (Fails st) \<and> st_code st = kOutOfRange) \<longleftrightarrow>
    (\<exists>ty s i. is_valid_device_type ty \<and> t = device_type_name ty @ CHR '':'' # s \<and>
      signed_numeral s i \<and> s_fits TYPE(64) i \<and> (i < 0 \<or> smax_int TYPE(32) < i))"
proof (cases t rule: sep_cases)
  case none
  have "st_code st = kInvalidArgument" if "device_parse t = Returns (Fails st)" for st
    using that none device_parse_no_sep [OF none]
    by (cases rule: device_type_text.parse_cases [of t]; cases "t = ''''")
      (auto simp: device_parse_def device_ctor_def word_sless_alt)
  then show ?thesis using none by fastforce
next
  case (some a b)
  have "(\<exists>st. device_parse t = Returns (Fails st) \<and> st_code st = kOutOfRange) \<longleftrightarrow>
      (\<exists>ty. is_valid_device_type ty \<and> a = device_type_name ty) \<and>
      (\<exists>st. parse_device_index b = Fails st \<and> st_code st = kOutOfRange)"
    unfolding some(1) device_parse_sep [OF some(2)]
  proof (cases rule: device_type_text.parse_cases [of a])
    case (known ty)
    then show "(\<exists>st. result_try (parse_device_type a) (\<lambda>ty. result_try (parse_device_index b)
          (\<lambda>i. bnd (device_ctor ty i) (\<lambda>d. Returns (Holds d)))) = Returns (Fails st) \<and>
          st_code st = kOutOfRange) \<longleftrightarrow>
        (\<exists>ty. is_valid_device_type ty \<and> a = device_type_name ty) \<and>
        (\<exists>st. parse_device_index b = Fails st \<and> st_code st = kOutOfRange)"
      using parse_device_index_holds_iff [THEN iffD1, of b]
      by (cases "parse_device_index b")
        (auto simp: result_try_def device_ctor_def word_sless_alt result_of_status_def
          normalize_error_def status_ok_def)
  qed auto
  then show ?thesis
    unfolding parse_device_index_range_iff using some
    by (auto simp: colon_split_eq no_colon_in_name)
qed

section \<open>The hash\<close>

lemma drop_bit_xor_small:
  fixes x y :: size_t
  assumes "drop_bit n y = 0"
  shows "drop_bit n (x XOR y) = drop_bit n x"
  using assms by (simp add: bit_eq_iff bit_drop_bit_eq bit_xor_iff)

lemma index_drop_bit:
  fixes i :: i32
  assumes "0 \<le> sint i"
  shows "drop_bit 31 (scast i :: size_t) = 0"
proof -
  have "sint i < 2 ^ 31" using sint_le_smax [of i] by simp
  then have "uint (scast i :: size_t) < 2 ^ 31"
    using assms unfolding scast_eq uint_word_of_int by (simp add: take_bit_eq_mod)
  then have "unat (scast i :: size_t) < 2 ^ 31" by (subst unat_eq_nat_uint, subst nat_less_iff) simp_all
  then have "drop_bit 31 (unat (scast i :: size_t)) = 0" unfolding drop_bit_eq_div by (rule div_less)
  then have "unat (drop_bit 31 (scast i :: size_t)) = 0" unfolding unat_drop_bit_eq .
  then show ?thesis unfolding unat_eq_0 .
qed

lemma xor_cancel: "(x :: size_t) XOR a = x XOR b \<longleftrightarrow> a = b"
proof
  assume "x XOR a = x XOR b"
  then have "x XOR (x XOR a) = x XOR (x XOR b)" by (rule arg_cong)
  then show "a = b" by (simp flip: xor.assoc)
qed simp

text \<open>The hash of a device is injective on the devices that satisfy the class invariant: the type
  and the index stay apart in the 64-bit value, so no two devices of a hash table collide.\<close>

theorem device_hash_injective:
  assumes "device_valid d" "device_valid e"
  shows "device_hash d = device_hash e \<longleftrightarrow> d = e"
proof
  assume eq: "device_hash d = device_hash e"
  let ?t = "\<lambda>d. ucast (device_type_bits (dev_type d)) * 0x9e3779b9 :: size_t"
  have hi: "drop_bit 31 (device_hash d) = drop_bit 31 (?t d)" if "device_valid d" for d
    using that by (simp add: device_hash_def device_valid_def index_drop_bit drop_bit_xor_small)
  have "drop_bit 31 (?t d) = drop_bit 31 (?t e)" using eq hi assms by metis
  then have ty: "dev_type d = dev_type e"
    using assms by (auto simp: device_valid_def is_valid_device_type_def)
  then have "(scast (dev_index d) :: size_t) = scast (dev_index e)"
    using eq by (simp add: device_hash_def xor_cancel)
  then have "sint (dev_index d) = sint (dev_index e)"
    using sint_up_scast [of "dev_index d", where 'b = 64] sint_up_scast [of "dev_index e", where 'b = 64]
    by (simp add: is_up)
  then have "dev_index d = dev_index e" by (simp add: word_eq_sint)
  with ty show "d = e" by simp
qed simp

theorem device_hash_injective_witness:
  "device_hash \<lparr>dev_type = kCUDA, dev_index = 3\<rparr> \<noteq> device_hash \<lparr>dev_type = kCPU, dev_index = 3\<rparr>"
  using device_hash_injective [of "\<lparr>dev_type = kCUDA, dev_index = 3\<rparr>" "\<lparr>dev_type = kCPU, dev_index = 3\<rparr>"]
  by (simp add: device_valid_def is_valid_device_type_def)

end
