(* ===== verification/Scalars.thy ===== *)
theory Scalars
  imports Floats Machine DTypes
begin

text \<open>
  \<open>core/scalar.h\<close>: a dynamically typed number and its checked conversions. The tagged union of the
  class is a datatype with one constructor per \<open>Kind\<close>; the fall-through returns after the switches
  over \<open>kind_\<close> belong to no constructor. A signed integral \<open>T\<close> and an unsigned one take different
  branches of \<open>if constexpr\<close> and of \<open>std::in_range\<close>, and give two definitions, generic in the width.
\<close>

section \<open>The tagged union\<close>

datatype Scalar =
    BooleanScalar bool
  | SignedScalar i64
  | UnsignedScalar u64
  | FloatingScalar fp
  | ComplexScalar fp fp

definition scalar_of_bool :: "bool \<Rightarrow> Scalar" where
  "scalar_of_bool b = BooleanScalar b"

definition scalar_of_signed :: "'w::len word \<Rightarrow> Scalar" where
  "scalar_of_signed v = SignedScalar (scast v)"

definition scalar_of_unsigned :: "'w::len word \<Rightarrow> Scalar" where
  "scalar_of_unsigned v = UnsignedScalar (ucast v)"

definition scalar_of_float :: "fp \<Rightarrow> Scalar" where
  "scalar_of_float v = FloatingScalar (fp_convert binary64 v)"

definition scalar_of_double :: "fp \<Rightarrow> Scalar" where
  "scalar_of_double v = FloatingScalar v"

definition scalar_of_complex_float :: "fp \<times> fp \<Rightarrow> Scalar" where
  "scalar_of_complex_float v = ComplexScalar (fp_convert binary64 (fst v)) (fp_convert binary64 (snd v))"

definition scalar_of_complex_double :: "fp \<times> fp \<Rightarrow> Scalar" where
  "scalar_of_complex_double v = ComplexScalar (fst v) (snd v)"

fun scalar_dtype :: "Scalar \<Rightarrow> DType" where
  "scalar_dtype (BooleanScalar _) = kBool"
| "scalar_dtype (SignedScalar _) = kInt64"
| "scalar_dtype (UnsignedScalar _) = kUInt64"
| "scalar_dtype (FloatingScalar _) = kFloat64"
| "scalar_dtype (ComplexScalar _ _) = kComplex128"

section \<open>Casts\<close>

text \<open>
  \<open>static_cast\<close> of a floating-point value to an integer drops the fraction and is undefined when the
  target cannot hold the rest; to a floating-point type it is undefined when the value is finite
  and outside of the target's range.
\<close>

fun cast_to_signed :: "fp \<Rightarrow> 'w::len word outcome" where
  "cast_to_signed (Finite s m) = s_of_int (trunc_rat (fp_value (Finite s m)))"
| "cast_to_signed _ = Undefined"

fun cast_to_unsigned :: "fp \<Rightarrow> 'w::len word outcome" where
  "cast_to_unsigned (Finite s m) =
     (let i = trunc_rat (fp_value (Finite s m))
      in if u_fits TYPE('w) i then Returns (word_of_int i) else Undefined)"
| "cast_to_unsigned _ = Undefined"

fun cast_to_floating :: "fp_format \<Rightarrow> fp \<Rightarrow> fp outcome" where
  "cast_to_floating f (Finite s m) =
     (if m \<le> fp_max f then Returns (fp_convert f (Finite s m)) else Undefined)"
| "cast_to_floating f x = Returns x"

abbreviation scalar_loc :: "u32 \<Rightarrow> source_location" where
  "scalar_loc l \<equiv> loc ''include/gradyx/core/scalar.h'' l"

abbreviation scalar_range :: "u32 \<Rightarrow> Status" where
  "scalar_range l \<equiv> status_out_of_range ''scalar conversion is out of range'' (scalar_loc l)"

abbreviation scalar_nonfinite :: Status where
  "scalar_nonfinite \<equiv> status_out_of_range
     ''cannot convert a non-finite floating-point value to an integer'' (scalar_loc 33)"

abbreviation scalar_fractional :: Status where
  "scalar_fractional \<equiv> status_invalid_argument
     ''cannot convert a fractional floating-point value to an integer'' (scalar_loc 37)"

abbreviation scalar_imaginary :: "u32 \<Rightarrow> Status" where
  "scalar_imaginary l \<equiv> status_invalid_argument
     ''cannot convert a scalar with a non-zero imaginary part'' (scalar_loc l)"

text \<open>\<open>floating_to_integer\<close>; the argument is a \<open>long double\<close>, of which \<open>2 ^ digits\<close> is a value.\<close>

definition floating_to_signed :: "fp \<Rightarrow> 'w::len word Result outcome" where
  "floating_to_signed value =
     (if \<not> isfinite value then Returns (result_of_status scalar_nonfinite)
      else if \<not> fp_eq (fp_trunc value) value then Returns (result_of_status scalar_fractional)
      else (let upper_bound = fp_of_int (2 ^ (LENGTH('w) - 1)) in
        if fp_less value (fp_neg upper_bound) \<or> \<not> fp_less value upper_bound
        then Returns (result_of_status (scalar_range 44))
        else bnd (cast_to_signed value) (\<lambda>v. Returns (result_of_value v))))"

definition floating_to_unsigned :: "fp \<Rightarrow> 'w::len word Result outcome" where
  "floating_to_unsigned value =
     (if \<not> isfinite value then Returns (result_of_status scalar_nonfinite)
      else if \<not> fp_eq (fp_trunc value) value then Returns (result_of_status scalar_fractional)
      else (let upper_bound = fp_of_int (2 ^ LENGTH('w)) in
        if fp_less value (fp_of_int 0) \<or> \<not> fp_less value upper_bound
        then Returns (result_of_status (scalar_range 48))
        else bnd (cast_to_unsigned value) (\<lambda>v. Returns (result_of_value v))))"

definition checked_floating_cast :: "fp_format \<Rightarrow> fp \<Rightarrow> fp Result outcome" where
  "checked_floating_cast f value =
     (let maximum = fp_convert extended80 (Finite False (fp_max f)) in
      if isfinite value \<and> (fp_less value (fp_neg maximum) \<or> fp_less maximum value)
      then Returns (result_of_status (scalar_range 58))
      else bnd (cast_to_floating f value) (\<lambda>v. Returns (result_of_value v)))"


section \<open>The conversions\<close>

abbreviation fp_zero :: fp where "fp_zero \<equiv> fp_of_int 0"
abbreviation fp_one :: fp where "fp_one \<equiv> fp_of_int 1"

abbreviation scalar_not_bool :: Status where
  "scalar_not_bool \<equiv> status_invalid_argument
     ''only scalar values 0 and 1 can be converted to bool'' (scalar_loc 195)"

fun to_bool :: "Scalar \<Rightarrow> bool Result" where
  "to_bool (BooleanScalar b) = result_of_value b"
| "to_bool (SignedScalar v) =
     (if v = 0 \<or> v = 1 then result_of_value (v = 1) else result_of_status scalar_not_bool)"
| "to_bool (UnsignedScalar v) =
     (if v = 0 \<or> v = 1 then result_of_value (v = 1) else result_of_status scalar_not_bool)"
| "to_bool (FloatingScalar v) =
     (if fp_eq v fp_zero \<or> fp_eq v fp_one then result_of_value (fp_eq v fp_one)
      else result_of_status scalar_not_bool)"
| "to_bool (ComplexScalar re im) =
     (if fp_eq im fp_zero \<and> (fp_eq re fp_zero \<or> fp_eq re fp_one) then result_of_value (fp_eq re fp_one)
      else result_of_status scalar_not_bool)"

text \<open>
  \<open>std::in_range<T>\<close> compares the exact values, and the \<open>static_cast\<close> after it keeps the value, as
  any conversion between integer types it takes the value modulo \<open>2 ^ width\<close>.
\<close>

fun to_integer_signed :: "Scalar \<Rightarrow> 'w::len word Result outcome" where
  "to_integer_signed (BooleanScalar b) = Returns (result_of_value (of_bool b))"
| "to_integer_signed (SignedScalar v) =
     (if \<not> s_fits TYPE('w) (sint v) then Returns (result_of_status (scalar_range 206))
      else Returns (result_of_value (word_of_int (sint v))))"
| "to_integer_signed (UnsignedScalar v) =
     (if \<not> s_fits TYPE('w) (uint v) then Returns (result_of_status (scalar_range 211))
      else Returns (result_of_value (word_of_int (uint v))))"
| "to_integer_signed (FloatingScalar v) = floating_to_signed (fp_convert extended80 v)"
| "to_integer_signed (ComplexScalar re im) =
     (if \<not> fp_eq im fp_zero then Returns (result_of_status (scalar_imaginary 219))
      else floating_to_signed (fp_convert extended80 re))"

fun to_integer_unsigned :: "Scalar \<Rightarrow> 'w::len word Result outcome" where
  "to_integer_unsigned (BooleanScalar b) = Returns (result_of_value (of_bool b))"
| "to_integer_unsigned (SignedScalar v) =
     (if \<not> u_fits TYPE('w) (sint v) then Returns (result_of_status (scalar_range 206))
      else Returns (result_of_value (word_of_int (sint v))))"
| "to_integer_unsigned (UnsignedScalar v) =
     (if \<not> u_fits TYPE('w) (uint v) then Returns (result_of_status (scalar_range 211))
      else Returns (result_of_value (word_of_int (uint v))))"
| "to_integer_unsigned (FloatingScalar v) = floating_to_unsigned (fp_convert extended80 v)"
| "to_integer_unsigned (ComplexScalar re im) =
     (if \<not> fp_eq im fp_zero then Returns (result_of_status (scalar_imaginary 219))
      else floating_to_unsigned (fp_convert extended80 re))"

fun to_real :: "Scalar \<Rightarrow> fp Result" where
  "to_real (BooleanScalar b) = result_of_value (if b then fp_one else fp_zero)"
| "to_real (SignedScalar v) = result_of_value (fp_convert extended80 (fp_of_int (sint v)))"
| "to_real (UnsignedScalar v) = result_of_value (fp_convert extended80 (fp_of_int (uint v)))"
| "to_real (FloatingScalar v) = result_of_value (fp_convert extended80 v)"
| "to_real (ComplexScalar re im) =
     (if \<not> fp_eq im fp_zero then result_of_status (scalar_imaginary 240)
      else result_of_value (fp_convert extended80 re))"

fun complex_parts :: "Scalar \<Rightarrow> fp \<times> fp" where
  "complex_parts (BooleanScalar b) = (if b then fp_one else fp_zero, fp_zero)"
| "complex_parts (SignedScalar v) = (fp_convert binary64 (fp_of_int (sint v)), fp_zero)"
| "complex_parts (UnsignedScalar v) = (fp_convert binary64 (fp_of_int (uint v)), fp_zero)"
| "complex_parts (FloatingScalar v) = (v, fp_zero)"
| "complex_parts (ComplexScalar re im) = (re, im)"

text \<open>The types that pass the static assertion of \<open>Scalar::to<T>\<close>: the arithmetic ones and two complex ones.\<close>

definition kIsSupportedComplex :: "cpp_type \<Rightarrow> bool" where
  "kIsSupportedComplex t \<longleftrightarrow> t = T_complex_float \<or> t = T_complex_double"

definition is_arithmetic :: "cpp_type \<Rightarrow> bool" where
  "is_arithmetic t \<longleftrightarrow> t \<notin> {T_Float16, T_BFloat16, T_complex_float, T_complex_double}"

definition scalar_target :: "cpp_type \<Rightarrow> bool" where
  "scalar_target t \<longleftrightarrow> is_arithmetic t \<or> kIsSupportedComplex t"

lemma scalar_target_dtype:
  "kHasDTypeV t \<Longrightarrow> scalar_target t \<longleftrightarrow> dtype_of t \<notin> {Some kFloat16, Some kBFloat16}"
  by (cases t) (simp_all add: scalar_target_def is_arithmetic_def kIsSupportedComplex_def dtype_of_def kHasDTypeV_def)

text \<open>The branches of \<open>Scalar::to<T>\<close>: \<open>bool\<close>, integral (two), floating and complex targets.\<close>

definition scalar_to_bool :: "Scalar \<Rightarrow> bool Result" where
  "scalar_to_bool s = to_bool s"

definition scalar_to_signed :: "Scalar \<Rightarrow> 'w::len word Result outcome" where
  "scalar_to_signed s = to_integer_signed s"

definition scalar_to_unsigned :: "Scalar \<Rightarrow> 'w::len word Result outcome" where
  "scalar_to_unsigned s = to_integer_unsigned s"

definition scalar_to_floating :: "fp_format \<Rightarrow> Scalar \<Rightarrow> fp Result outcome" where
  "scalar_to_floating f s = result_try (to_real s) (checked_floating_cast f)"

definition scalar_to_complex :: "fp_format \<Rightarrow> Scalar \<Rightarrow> (fp \<times> fp) Result outcome" where
  "scalar_to_complex f s =
     (let parts = complex_parts s in
      bnd (checked_floating_cast f (fp_convert extended80 (fst parts))) (\<lambda>real.
        result_try real (\<lambda>re.
          bnd (checked_floating_cast f (fp_convert extended80 (snd parts))) (\<lambda>imaginary.
            result_try imaginary (\<lambda>im. Returns (result_of_value (re, im)))))))"

section \<open>What a scalar stands for\<close>

text \<open>The double members hold doubles.\<close>

fun scalar_wf :: "Scalar \<Rightarrow> bool" where
  "scalar_wf (FloatingScalar v) \<longleftrightarrow> fp_in binary64 v"
| "scalar_wf (ComplexScalar re im) \<longleftrightarrow> fp_in binary64 re \<and> fp_in binary64 im"
| "scalar_wf _ \<longleftrightarrow> True"

text \<open>The real number, as a value of the extended line; none when there is an imaginary part.\<close>

fun scalar_real :: "Scalar \<Rightarrow> fp option" where
  "scalar_real (BooleanScalar b) = Some (fp_of_int (of_bool b))"
| "scalar_real (SignedScalar v) = Some (fp_of_int (sint v))"
| "scalar_real (UnsignedScalar v) = Some (fp_of_int (uint v))"
| "scalar_real (FloatingScalar v) = Some v"
| "scalar_real (ComplexScalar re im) = (if fp_eq im fp_zero then Some re else None)"

text \<open>The exact rational value, if it is one.\<close>

definition scalar_value :: "Scalar \<Rightarrow> rat option" where
  "scalar_value s = (case scalar_real s of None \<Rightarrow> None
     | Some x \<Rightarrow> if isfinite x then Some (fp_value x) else None)"


section \<open>Lemmas on the casts\<close>

lemma fp_value_neg [simp]: "fp_value (fp_neg x) = - fp_value x" "isfinite (fp_neg x) = isfinite x"
  by (cases x; simp)+

lemma trunc_rat_of_int [simp]: "trunc_rat (of_int i) = i"
  by (simp add: trunc_rat_def)

lemma cast_to_signed_int:
  "isfinite v \<Longrightarrow> fp_value v = of_int i \<Longrightarrow> s_fits TYPE('w::len) i \<Longrightarrow>
   cast_to_signed v = Returns (word_of_int i :: 'w word)"
  by (cases v) (simp_all add: s_of_int_def del: fp_value.simps)

lemma cast_to_unsigned_int:
  "isfinite v \<Longrightarrow> fp_value v = of_int i \<Longrightarrow> u_fits TYPE('w::len) i \<Longrightarrow>
   cast_to_unsigned v = Returns (word_of_int i :: 'w word)"
  by (cases v) (simp_all del: fp_value.simps)

lemma of_int_less_power: "(of_int i :: rat) < 2 ^ n \<longleftrightarrow> i < 2 ^ n" "- (2 ^ n) \<le> (of_int i :: rat) \<longleftrightarrow> - (2 ^ n) \<le> i"
  using of_int_less_iff [of i "2 ^ n", where 'a = rat] of_int_le_iff [of "- (2 ^ n)" i, where 'a = rat]
  by simp_all

lemma floating_to_signed_cases:
  "floating_to_signed v =
     (if \<not> isfinite v then Returns (Fails scalar_nonfinite)
      else if fp_value v \<notin> \<int> then Returns (Fails scalar_fractional)
      else if s_fits TYPE('w::len) \<lfloor>fp_value v\<rfloor> then Returns (Holds (word_of_int \<lfloor>fp_value v\<rfloor> :: 'w word))
      else Returns (Fails (scalar_range 44)))"
proof (cases "isfinite v \<and> fp_value v \<in> \<int>")
  case True
  then obtain i where i: "fp_value v = of_int i" by (auto simp: Ints_def)
  have whole: "fp_eq (fp_trunc v) v" using True i by (simp add: fp_trunc_eq)
  have range: "(fp_less v (fp_neg (fp_of_int (2 ^ (LENGTH('w) - 1)))) \<or>
      \<not> fp_less v (fp_of_int (2 ^ (LENGTH('w) - 1)))) \<longleftrightarrow> \<not> s_fits TYPE('w) i"
    using True i by (simp add: fp_less_finite s_fits_def smin_int_def smax_int_def of_int_less_power
        flip: not_le)
  show ?thesis
    using True i whole range
    by (simp add: floating_to_signed_def cast_to_signed_int result_of_value_def)
next
  case False
  then show ?thesis
    by (auto simp: floating_to_signed_def fp_trunc_eq Ints_def)
qed

lemma floating_to_unsigned_cases:
  "floating_to_unsigned v =
     (if \<not> isfinite v then Returns (Fails scalar_nonfinite)
      else if fp_value v \<notin> \<int> then Returns (Fails scalar_fractional)
      else if u_fits TYPE('w::len) \<lfloor>fp_value v\<rfloor> then Returns (Holds (word_of_int \<lfloor>fp_value v\<rfloor> :: 'w word))
      else Returns (Fails (scalar_range 48)))"
proof (cases "isfinite v \<and> fp_value v \<in> \<int>")
  case True
  then obtain i where i: "fp_value v = of_int i" by (auto simp: Ints_def)
  have whole: "fp_eq (fp_trunc v) v" using True i by (simp add: fp_trunc_eq)
  have range: "(fp_less v fp_zero \<or> \<not> fp_less v (fp_of_int (2 ^ LENGTH('w)))) \<longleftrightarrow> \<not> u_fits TYPE('w) i"
    using True i by (auto simp: fp_less_finite u_fits_def umax_int_def of_int_less_power)
  show ?thesis
    using True i whole range
    by (simp add: floating_to_unsigned_def cast_to_unsigned_int result_of_value_def)
next
  case False
  then show ?thesis
    by (auto simp: floating_to_unsigned_def fp_trunc_eq Ints_def)
qed

text \<open>The widening to \<open>long double\<close> keeps every double and every 64-bit integer.\<close>

lemma widen_double: "fp_in binary64 v \<Longrightarrow> fp_convert extended80 v = v"
  by (rule fp_convert_id, erule fp_in_coarser) simp_all

lemma fp_in_int: "\<bar>i\<bar> < 2 ^ 64 \<Longrightarrow> fp_in extended80 (fp_of_int i)"
  unfolding fp_of_int_def fp_in.simps by (rule magnitude_in_int) simp_all

lemma widen_signed [simp]: "fp_convert extended80 (fp_of_int (sint (v :: i64))) = fp_of_int (sint v)"
proof (intro fp_convert_id fp_in_int)
  show "\<bar>sint v\<bar> < 2 ^ 64" using sint_ge_smin [of v] sint_le_smax [of v] by simp
qed

lemma widen_unsigned [simp]: "fp_convert extended80 (fp_of_int (uint (v :: u64))) = fp_of_int (uint v)"
proof (intro fp_convert_id fp_in_int)
  show "\<bar>uint v\<bar> < 2 ^ 64" using uint_le_umax [of v] by simp
qed

lemma to_real_cases:
  "scalar_wf s \<Longrightarrow> to_real s = (case scalar_real s of Some x \<Rightarrow> Holds x | None \<Rightarrow> Fails (scalar_imaginary 240))"
  by (cases s) (simp_all add: widen_double result_of_value_def)


section \<open>Integer and Boolean targets\<close>

text \<open>
  The integer conversions against a reference that looks at the value only; the branches differ in
  the line number of the range error.
\<close>

definition integer_reference :: "(int \<Rightarrow> bool) \<Rightarrow> u32 \<Rightarrow> Scalar \<Rightarrow> 'w::len word Result" where
  "integer_reference fits l s = (case scalar_real s of None \<Rightarrow> Fails (scalar_imaginary 219)
     | Some x \<Rightarrow> if \<not> isfinite x then Fails scalar_nonfinite
         else if fp_value x \<notin> \<int> then Fails scalar_fractional
         else if fits \<lfloor>fp_value x\<rfloor> then Holds (word_of_int \<lfloor>fp_value x\<rfloor>)
         else Fails (scalar_range l))"

text \<open>Readings of words as rationals stay readings of integers here.\<close>

declare of_int_uint [simp del] of_int_sint [simp del]

lemma s_fits_01 [simp]: "1 < LENGTH('w::len) \<Longrightarrow> s_fits TYPE('w) 1"
  using power_increasing [of 1 "LENGTH('w) - 1" "2 :: int"]
  by (simp add: s_fits_def smin_int_def smax_int_def)

lemma u_fits_01 [simp]: "u_fits TYPE('w::len) 0" "u_fits TYPE('w) 1"
  using power_increasing [of 1 "LENGTH('w)" "2 :: int"]
  by (simp_all add: u_fits_def umax_int_def Suc_le_eq)

lemma to_integer_signed_reference:
  "scalar_wf s \<Longrightarrow> 1 < LENGTH('w::len) \<Longrightarrow>
   \<exists>l. to_integer_signed s = Returns (integer_reference (s_fits TYPE('w)) l s :: 'w word Result)"
  by (cases s) (auto simp: integer_reference_def widen_double floating_to_signed_cases result_of_value_def)

lemma to_integer_unsigned_reference:
  "scalar_wf s \<Longrightarrow>
   \<exists>l. to_integer_unsigned s = Returns (integer_reference (u_fits TYPE('w::len)) l s :: 'w word Result)"
  by (cases s) (auto simp: integer_reference_def widen_double floating_to_unsigned_cases result_of_value_def)

lemma integer_reference_holds:
  assumes read: "\<And>i. fits i \<Longrightarrow> exact (word_of_int i :: 'w::len word) = i" and inj: "\<And>v :: 'w word. word_of_int (exact v) = v"
    and range: "\<And>v :: 'w word. fits (exact v)"
  shows "integer_reference fits l s = Holds v \<longleftrightarrow> scalar_value s = Some (of_int (exact v))"
proof (cases "\<exists>x i. scalar_real s = Some x \<and> isfinite x \<and> fp_value x = of_int i")
  case True
  then obtain x i where x: "scalar_real s = Some x" "isfinite x" "fp_value x = of_int i" by blast
  then have l: "integer_reference fits l s = (if fits i then Holds (word_of_int i) else Fails (scalar_range l))"
    by (simp add: integer_reference_def)
  have "scalar_value s = Some (of_int (exact v)) \<longleftrightarrow> i = exact v" using x by (simp add: scalar_value_def)
  also have "\<dots> \<longleftrightarrow> fits i \<and> word_of_int i = v" using read [of i] inj [of v] range [of v] by auto
  finally show ?thesis by (simp add: l)
next
  case False
  then have "integer_reference fits l s \<noteq> Holds v" for v :: "'w word"
    by (auto simp: integer_reference_def Ints_def split: option.splits)
  moreover have "scalar_value s \<noteq> Some (of_int (exact v))"
    using False by (auto simp: scalar_value_def split: option.splits if_splits)
  ultimately show ?thesis by simp
qed

lemma integer_reference_fails:
  "integer_reference fits l s = Fails e \<Longrightarrow> st_code e =
     (if scalar_real s = None \<or> (\<exists>q. scalar_value s = Some q \<and> q \<notin> \<int>) then kInvalidArgument else kOutOfRange)"
  by (auto simp: integer_reference_def scalar_value_def split: option.splits if_splits)

text \<open>C14: Converting a scalar to an integer type, signed or unsigned and of any width, returns the integer
  that the scalar is exactly, whatever its stored kind, and fails whenever there is none: with
  InvalidArgument when the scalar has a non-zero imaginary part (a NaN counts) or is finite with a
  fraction, with OutOfRange when it is infinite, a NaN or outside of the range of the type. The cast
  from \<open>long double\<close> that the guards protect is never undefined.\<close>

theorem scalar_to_integer_correct:
  assumes "scalar_wf s" "1 < LENGTH('w::len)"
  shows "\<exists>r q :: 'w word Result. scalar_to_signed s = Returns r \<and> scalar_to_unsigned s = Returns q \<and>
    (\<forall>v. (r = Holds v \<longleftrightarrow> scalar_value s = Some (of_int (sint v))) \<and>
         (q = Holds v \<longleftrightarrow> scalar_value s = Some (of_int (uint v)))) \<and>
    (\<forall>e. r = Fails e \<or> q = Fails e \<longrightarrow> st_code e =
       (if scalar_real s = None \<or> (\<exists>x. scalar_value s = Some x \<and> x \<notin> \<int>) then kInvalidArgument
        else kOutOfRange))"
proof -
  obtain l where l: "scalar_to_signed s = Returns (integer_reference (s_fits TYPE('w)) l s :: 'w word Result)"
    using to_integer_signed_reference [OF assms] by (auto simp: scalar_to_signed_def)
  obtain k where k: "scalar_to_unsigned s = Returns (integer_reference (u_fits TYPE('w)) k s :: 'w word Result)"
    using to_integer_unsigned_reference [OF assms(1)] by (auto simp: scalar_to_unsigned_def)
  have signed: "integer_reference (s_fits TYPE('w)) l s = Holds v \<longleftrightarrow> scalar_value s = Some (of_int (sint v))" for v :: "'w word"
    by (rule integer_reference_holds) (simp_all add: sint_word_of_int_fits of_int_sint)
  have unsigned: "integer_reference (u_fits TYPE('w)) k s = Holds v \<longleftrightarrow> scalar_value s = Some (of_int (uint v))" for v :: "'w word"
    by (rule integer_reference_holds) (simp_all add: u_fits_def uint_word_of_int_fits of_int_uint)
  show ?thesis using l k signed unsigned integer_reference_fails by blast
qed

text \<open>A scalar converts to \<open>bool\<close> exactly when it is the number 0 or 1, whatever its kind, and every other
  scalar, fractions, NaN and numbers with an imaginary part included, is refused with
  InvalidArgument.\<close>

theorem scalar_to_bool_correct:
  "(scalar_to_bool s = Holds b \<longleftrightarrow> scalar_value s = Some (of_bool b)) \<and>
   ((\<exists>c. scalar_to_bool s = Holds c) \<or> (\<exists>e. scalar_to_bool s = Fails e \<and> st_code e = kInvalidArgument))"
proof (cases s)
  case (SignedScalar v)
  then show ?thesis
    by (auto simp: scalar_to_bool_def scalar_value_def result_of_value_def word_eq_sint split: if_splits)
next
  case (UnsignedScalar v)
  then show ?thesis
    by (auto simp: scalar_to_bool_def scalar_value_def result_of_value_def word_uint_eq_iff split: if_splits)
qed (auto simp: scalar_to_bool_def scalar_value_def result_of_value_def fp_eq_of_int)


section \<open>Floating-point and complex targets\<close>

definition fp_formats :: "fp_format set" where
  "fp_formats = {binary32, binary64, extended80}"

lemma fp_formats_facts:
  "f \<in> fp_formats \<Longrightarrow> fp_format_ok f" "f \<in> fp_formats \<Longrightarrow> fp_coarser f extended80"
  by (auto simp: fp_formats_def)

lemma magnitude_in_nonneg: "magnitude_in f m \<Longrightarrow> 0 \<le> m"
  by (auto simp: magnitude_in_def)

lemma fp_in_abs: "fp_in f (Finite s m) \<Longrightarrow> \<bar>fp_value (Finite s m)\<bar> = m"
  using magnitude_in_nonneg by auto

lemma checked_floating_cast_cases:
  assumes f: "f \<in> fp_formats" and x: "fp_in extended80 x"
  shows "checked_floating_cast f x =
    Returns (if isfinite x \<and> fp_max f < \<bar>fp_value x\<bar> then Fails (scalar_range 58) else Holds (fp_convert f x))"
proof -
  note ok = fp_formats_facts [OF f]
  have top: "fp_convert extended80 (Finite False (fp_max f)) = Finite False (fp_max f)"
    by (intro fp_convert_id) (simp add: magnitude_in_coarser [OF magnitude_in_max [OF ok(1)] ok(1) _ ok(2)])
  show ?thesis
  proof (cases x)
    case (Finite s m)
    have m: "0 \<le> m" using x Finite magnitude_in_nonneg by simp
    have over: "(fp_less x (fp_neg (Finite False (fp_max f))) \<or> fp_less (Finite False (fp_max f)) x) \<longleftrightarrow> fp_max f < m"
      using m fp_max_bounds(3) [OF ok(1)] by (auto simp: Finite)
    have abs: "\<bar>fp_value x\<bar> = m" using fp_in_abs x Finite by simp
    show ?thesis
      unfolding checked_floating_cast_def Let_def top over abs
      by (simp add: Finite result_of_value_def)
  qed (simp_all add: checked_floating_cast_def result_of_value_def)
qed

text \<open>\<open>y\<close> is a nearest value of the format to \<open>x\<close>; infinities and NaN stay as they are.\<close>

definition fp_rounds :: "fp_format \<Rightarrow> fp \<Rightarrow> fp \<Rightarrow> bool" where
  "fp_rounds f x y \<longleftrightarrow> fp_in f y \<and> (\<not> isfinite x \<longrightarrow> y = x) \<and> (fp_in f x \<longrightarrow> y = x) \<and>
     (isfinite x \<longrightarrow> isfinite y \<and> (\<forall>z. isfinite z \<and> fp_in f z \<longrightarrow>
        \<bar>fp_value y - fp_value x\<bar> \<le> \<bar>fp_value z - fp_value x\<bar>))"

lemma fp_convert_rounds:
  assumes f: "fp_format_ok f" and x: "fp_in g x" and range: "isfinite x \<Longrightarrow> \<bar>fp_value x\<bar> \<le> fp_max f"
  shows "fp_rounds f x (fp_convert f x)"
proof (cases x)
  case (Finite s m)
  have m: "0 \<le> m" "m \<le> fp_max f" using x range fp_in_abs Finite magnitude_in_nonneg by auto
  have near: "\<bar>round_magnitude f m - m\<bar> \<le> \<bar>k - m\<bar>" if "magnitude_in f k" for k
  proof (cases "m = 0")
    case False
    then show ?thesis using m by (intro round_magnitude_nearest [OF f _ that]) simp
  qed (simp add: round_magnitude_def)
  have zero: "\<bar>round_magnitude f m - m\<bar> \<le> m"
    using near [of 0] round_magnitude_in [OF f, of 0] m fp_max_bounds(3) [OF f]
    by (simp add: round_magnitude_def)
  have "\<bar>fp_value (fp_convert f x) - fp_value x\<bar> \<le> \<bar>fp_value z - fp_value x\<bar>"
    if finite: "isfinite z" and member: "fp_in f z" for z
  proof -
    obtain t k where z: "z = Finite t k" using finite by (auto simp: isfinite_iff)
    have k: "0 \<le> k" "magnitude_in f k" using member z magnitude_in_nonneg by simp_all
    show ?thesis using near [OF k(2)] zero m k by (auto simp: Finite z abs_if split: if_splits)
  qed
  moreover have "fp_in f (fp_convert f x)" using round_magnitude_in [OF f m] by (simp add: Finite)
  ultimately show ?thesis using fp_convert_id [of f x] by (simp add: fp_rounds_def Finite)
qed (simp_all add: fp_rounds_def)

lemma scalar_real_in: "scalar_wf s \<Longrightarrow> scalar_real s = Some x \<Longrightarrow> fp_in extended80 x"
proof (cases s)
  case (BooleanScalar b)
  then show "scalar_real s = Some x \<Longrightarrow> fp_in extended80 x" by (auto intro: fp_in_int)
next
  case (SignedScalar v)
  then show "scalar_real s = Some x \<Longrightarrow> fp_in extended80 x"
    using sint_ge_smin [of v] sint_le_smax [of v] by (auto intro: fp_in_int)
next
  case (UnsignedScalar v)
  then show "scalar_real s = Some x \<Longrightarrow> fp_in extended80 x"
    using uint_le_umax [of v] by (auto intro: fp_in_int)
qed (auto split: if_splits intro: fp_in_coarser)

lemma scalar_to_floating_cases:
  assumes "scalar_wf s" "f \<in> fp_formats"
  shows "scalar_to_floating f s = Returns (case scalar_real s of None \<Rightarrow> Fails (scalar_imaginary 240)
     | Some x \<Rightarrow> if isfinite x \<and> fp_max f < \<bar>fp_value x\<bar> then Fails (scalar_range 58) else Holds (fp_convert f x))"
  using assms
  by (simp add: scalar_to_floating_def to_real_cases checked_floating_cast_cases scalar_real_in split: option.split)


lemma fp_max_ge_64: "f \<in> fp_formats \<Longrightarrow> (2 :: rat) ^ 64 \<le> fp_max f"
proof -
  assume f: "f \<in> fp_formats"
  then have "(64 :: int) \<le> fp_emax f" by (auto simp: fp_formats_def binary32_def binary64_def extended80_def)
  then have "(2 :: rat) powi 64 \<le> 2 powi fp_emax f" by (intro power_int_increasing) simp_all
  then show ?thesis using fp_max_bounds(1) [OF fp_formats_facts(1) [OF f]] by (simp del: power_numeral)
qed

lemma fp_convert_in:
  "fp_format_ok f \<Longrightarrow> fp_in g x \<Longrightarrow> (isfinite x \<Longrightarrow> \<bar>fp_value x\<bar> \<le> fp_max f) \<Longrightarrow> fp_in f (fp_convert f x)"
  using fp_convert_rounds by (simp add: fp_rounds_def)

lemma fp_convert_int_in:
  assumes "f \<in> fp_formats" "\<bar>i\<bar> < 2 ^ 64"
  shows "fp_in f (fp_convert f (fp_of_int i))"
proof (rule fp_convert_in [OF fp_formats_facts(1) [OF assms(1)] fp_in_int [OF assms(2)]])
  have "(of_int \<bar>i\<bar> :: rat) \<le> of_int (2 ^ 64)" using assms(2) by (simp only: of_int_le_iff)
  then show "\<bar>fp_value (fp_of_int i)\<bar> \<le> fp_max f" using fp_max_ge_64 [OF assms(1)] by simp
qed

lemma abs_sint_64: "\<bar>sint (v :: i64)\<bar> < 2 ^ 64" and abs_uint_64: "\<bar>uint (w :: u64)\<bar> < 2 ^ 64"
  using sint_ge_smin [of v] sint_le_smax [of v] uint_le_umax [of w] by simp_all

lemma fp_in_01: "fp_in binary64 fp_zero" "fp_in binary64 fp_one"
proof -
  have max: "(1 :: rat) \<le> fp_max binary64" using fp_max_ge_64 [of binary64] by (simp add: fp_formats_def)
  have bound: "(i :: int) < 2 ^ fp_precision binary64 \<and> fp_emin binary64 - int (fp_precision binary64) + 1 \<le> 0"
    if "i \<le> 1" for i
    using that by (simp add: binary64_def fp_emin_def)
  have "magnitude_in binary64 (of_int i)" if "0 \<le> i" "i \<le> 1" for i
  proof -
    have "(of_int i :: rat) \<le> of_int 1" using that(2) by (simp only: of_int_le_iff)
    then show ?thesis
      unfolding magnitude_in_def using max bound [OF that(2)] that(1)
      by (intro conjI exI [where x = i] exI [where x = 0]) simp_all
  qed
  from this [of 0] this [of 1] show "fp_in binary64 fp_zero" "fp_in binary64 fp_one"
    by (simp_all add: fp_of_int_def)
qed

lemma complex_parts_in:
  assumes "scalar_wf s"
  shows "fp_in binary64 (fst (complex_parts s))" "fp_in binary64 (snd (complex_parts s))"
  using assms fp_convert_int_in [OF _ abs_sint_64] fp_convert_int_in [OF _ abs_uint_64] fp_in_01
  by (cases s; auto simp: fp_formats_def)+

lemma scalar_to_complex_cases:
  assumes "scalar_wf s" "f \<in> fp_formats"
  shows "scalar_to_complex f s = (let x = fst (complex_parts s); y = snd (complex_parts s) in
    Returns (if (isfinite x \<and> fp_max f < \<bar>fp_value x\<bar>) \<or> (isfinite y \<and> fp_max f < \<bar>fp_value y\<bar>)
      then Fails (scalar_range 58) else Holds (fp_convert f x, fp_convert f y)))"
  using complex_parts_in [OF assms(1)] assms(2)
  by (simp add: scalar_to_complex_def Let_def widen_double checked_floating_cast_cases result_of_value_def
      fp_in_coarser [of binary64])


text \<open>C15: Converting a scalar to \<open>float\<close>, \<open>double\<close> or \<open>long double\<close> is refused with InvalidArgument exactly
  when its imaginary part is not zero, and with OutOfRange exactly when it is finite and larger than
  the largest number of the type; otherwise the result is a value of the type that is nearest to the
  exact number, the number itself when the type has it, and infinities and NaN are kept. The
  narrowing cast is never undefined.\<close>

theorem scalar_to_floating_correct:
  assumes "scalar_wf s" "f \<in> fp_formats"
  shows "case scalar_real s of
      None \<Rightarrow> \<exists>e. scalar_to_floating f s = Returns (Fails e) \<and> st_code e = kInvalidArgument
    | Some x \<Rightarrow> if isfinite x \<and> fp_max f < \<bar>fp_value x\<bar>
        then \<exists>e. scalar_to_floating f s = Returns (Fails e) \<and> st_code e = kOutOfRange
        else \<exists>y. scalar_to_floating f s = Returns (Holds y) \<and> fp_rounds f x y"
proof (cases "scalar_real s")
  case (Some x)
  have "fp_rounds f x (fp_convert f x)" if "\<not> (isfinite x \<and> fp_max f < \<bar>fp_value x\<bar>)"
    using that fp_formats_facts(1) [OF assms(2)] scalar_real_in [OF assms(1) Some]
    by (intro fp_convert_rounds) auto
  then show ?thesis using Some by (simp add: scalar_to_floating_cases [OF assms])
qed (simp add: scalar_to_floating_cases [OF assms])

lemma fp_convert_widen: "fp_in f x \<Longrightarrow> fp_format_ok f \<Longrightarrow> fp_format_ok g \<Longrightarrow> fp_coarser f g \<Longrightarrow> fp_convert g x = x"
  by (rule fp_convert_id, erule fp_in_coarser)

lemma fp_in_max: "fp_in f x \<Longrightarrow> \<not> (isfinite x \<and> fp_max f < \<bar>fp_value x\<bar>)"
  using magnitude_in_nonneg by (cases x) (auto simp: magnitude_in_def)

text \<open>The constructors from integers widen to 64 bits.\<close>

lemma sint_scast_64: "LENGTH('w::len) \<le> 64 \<Longrightarrow> sint (scast (a :: 'w word) :: i64) = sint a"
proof -
  assume w: "LENGTH('w) \<le> 64"
  have "(2 :: int) ^ (LENGTH('w) - 1) \<le> 2 ^ 63" by (rule power_increasing) (use w in simp_all)
  then have "s_fits TYPE(64) (sint a)" using sint_ge [of a] sint_lt [of a] by (simp add: s_fits_def)
  then show ?thesis using sint_word_of_int_fits [of "sint a", where 'w = 64] by (simp add: of_int_sint)
qed

lemma uint_ucast_64: "LENGTH('w::len) \<le> 64 \<Longrightarrow> uint (ucast (a :: 'w word) :: u64) = uint a"
proof -
  assume w: "LENGTH('w) \<le> 64"
  have "(2 :: int) ^ LENGTH('w) \<le> 2 ^ 64" by (rule power_increasing) (use w in simp_all)
  then have "uint a < 2 ^ 64" using uint_lt2p [of a] by linarith
  then show ?thesis using uint_word_of_int_fits [of "uint a", where 'w = 64] by (simp add: of_int_uint)
qed

text \<open>C16: Every constructor of Scalar stores its argument exactly, so converting back to the type it came from
  gives it back: Booleans, signed and unsigned integers of every width up to 64 bits, float and
  double (infinities, NaN, signed zeros and subnormal numbers included) and both complex types.\<close>

theorem scalar_roundtrip:
  assumes "1 < LENGTH('w::len)" "LENGTH('w) \<le> 64"
    and "fp_in binary32 x" "fp_in binary32 y" "fp_in binary64 u" "fp_in binary64 v"
  shows "scalar_to_bool (scalar_of_bool b) = Holds b \<and>
    scalar_to_signed (scalar_of_signed (a :: 'w word)) = Returns (Holds a) \<and>
    scalar_to_unsigned (scalar_of_unsigned a) = Returns (Holds a) \<and>
    scalar_to_floating binary32 (scalar_of_float x) = Returns (Holds x) \<and>
    scalar_to_floating binary64 (scalar_of_double u) = Returns (Holds u) \<and>
    scalar_to_complex binary32 (scalar_of_complex_float (x, y)) = Returns (Holds (x, y)) \<and>
    scalar_to_complex binary64 (scalar_of_complex_double (u, v)) = Returns (Holds (u, v))"
proof -
  have widen: "fp_convert binary64 x = x" "fp_convert binary64 y = y"
    using assms(3,4) fp_convert_widen [of binary32 _ binary64] by simp_all
  have wf: "fp_in binary64 x" "fp_in binary64 y"
    using assms(3,4) fp_in_coarser [of binary32 _ binary64] by simp_all
  note sint = sint_scast_64 [OF assms(2), of a] and uint = uint_ucast_64 [OF assms(2), of a]
  have fits: "s_fits TYPE('w) (sint a)" "u_fits TYPE('w) (uint a)" by (simp_all add: u_fits_def)
  note keeps = fp_in_max [OF assms(3)] fp_in_max [OF assms(4)] fp_in_max [OF assms(5)] fp_in_max [OF assms(6)]
    fp_convert_id [OF assms(3)] fp_convert_id [OF assms(4)] fp_convert_id [OF assms(5)] fp_convert_id [OF assms(6)]
  have scalars: "scalar_to_floating binary32 (scalar_of_float x) = Returns (Holds x)"
      "scalar_to_floating binary64 (scalar_of_double u) = Returns (Holds u)"
      "scalar_to_complex binary32 (scalar_of_complex_float (x, y)) = Returns (Holds (x, y))"
      "scalar_to_complex binary64 (scalar_of_complex_double (u, v)) = Returns (Holds (u, v))"
    using assms(5,6) wf keeps
    by (simp_all add: scalar_of_float_def scalar_of_double_def scalar_of_complex_float_def scalar_of_complex_double_def
        widen scalar_to_floating_cases scalar_to_complex_cases fp_formats_def Let_def)
  then show ?thesis
    by (simp add: scalar_to_bool_def scalar_of_bool_def scalar_to_signed_def scalar_of_signed_def sint fits
        scalar_to_unsigned_def scalar_of_unsigned_def uint result_of_value_def of_int_sint of_int_uint)
qed


lemmas scalar_constructor_defs =
  scalar_of_bool_def scalar_of_signed_def scalar_of_unsigned_def scalar_of_float_def scalar_of_double_def
  scalar_of_complex_float_def scalar_of_complex_double_def

lemma stored_dtype_category:
  assumes "d \<in> {kBool, kInt64, kUInt64, kFloat64, kComplex128}"
  shows "is_boolean d = Returns (d = kBool)" "is_integral d = Returns (d = kInt64 \<or> d = kUInt64)"
    "is_floating d = Returns (d = kFloat64)" "is_complex d = Returns (d = kComplex128)"
  using assms
  by (auto simp: is_boolean_def is_integral_def is_floating_def is_complex_def find_dtype_info_def
      is_valid_dtype_def array_at_def kDTypeTable_def make_dtype_info_def)

lemma scalar_dtype_cases: "scalar_dtype s \<in> {kBool, kInt64, kUInt64, kFloat64, kComplex128}"
  by (cases s) simp_all

lemma scalar_dtype_category:
  "is_boolean (scalar_dtype s) = Returns (\<exists>c. s = scalar_of_bool c)"
  "is_integral (scalar_dtype s) = Returns ((\<exists>i :: i64. s = scalar_of_signed i) \<or> (\<exists>i :: u64. s = scalar_of_unsigned i))"
  "is_floating (scalar_dtype s) = Returns (\<exists>d. s = scalar_of_double d)"
  "is_complex (scalar_dtype s) = Returns (\<exists>d. s = scalar_of_complex_double d)"
  unfolding stored_dtype_category [OF scalar_dtype_cases]
  by (cases s; auto simp: scalar_constructor_defs)+

text \<open>The dtypes of one category, as the library tells them apart.\<close>

definition same_category :: "DType \<Rightarrow> DType \<Rightarrow> bool" where
  "same_category t u \<longleftrightarrow> is_boolean t = is_boolean u \<and> is_integral t = is_integral u \<and>
     is_floating t = is_floating u \<and> is_complex t = is_complex u"

lemma dtype_category_widest:
  assumes "is_valid_dtype ty" "d \<in> {kBool, kInt64, kUInt64, kFloat64, kComplex128}" "same_category ty d"
  shows "dt_size_bytes (dtype_entry ty) \<le> dt_size_bytes (dtype_entry d)"
proof -
  have cat: "is_boolean ty = Returns (ty = kBool)"
      "is_floating ty = Returns (ty \<in> {kFloat16, kBFloat16, kFloat32, kFloat64})"
      "is_complex ty = Returns (ty \<in> {kComplex64, kComplex128})"
    using assms(1)
    by (cases rule: valid_dtype_cases; simp add: is_boolean_def is_floating_def is_complex_def find_dtype_info_def
        is_valid_dtype_def array_at_def kDTypeTable_def make_dtype_info_def)+
  show ?thesis
    using assms(1)
    by (cases rule: valid_dtype_cases)
      (use assms(2,3) cat in \<open>auto simp: same_category_def stored_dtype_category dtype_entry_def kDTypeTable_def
        make_dtype_info_def\<close>)
qed

lemma scalar_dtype_widest:
  "is_valid_dtype ty \<and> same_category ty (scalar_dtype s) \<longrightarrow>
    dt_size_bytes (dtype_entry ty) \<le> dt_size_bytes (dtype_entry (scalar_dtype s))"
  using dtype_category_widest [OF _ scalar_dtype_cases] by blast

text \<open>C39: Every constructor builds a scalar whose stored doubles are doubles, that stands for the exact number
  it was given, and whose dtype is the canonical one of the argument's type: bool, int64 for every signed,
  uint64 for every unsigned type, float64 and complex128 for both precisions. It is the widest of its
  category: no dtype of the same category has larger elements.\<close>

theorem scalar_construction:
  assumes "LENGTH('w::len) \<le> 64" "fp_in binary32 x" "fp_in binary32 y" "fp_in binary64 u" "fp_in binary64 v"
  shows "scalar_wf (scalar_of_bool b) \<and> scalar_real (scalar_of_bool b) = Some (fp_of_int (of_bool b)) \<and>
    scalar_wf (scalar_of_signed (a :: 'w word)) \<and> scalar_real (scalar_of_signed a) = Some (fp_of_int (sint a)) \<and>
    scalar_wf (scalar_of_unsigned a) \<and> scalar_real (scalar_of_unsigned a) = Some (fp_of_int (uint a)) \<and>
    scalar_wf (scalar_of_float x) \<and> scalar_real (scalar_of_float x) = Some x \<and>
    scalar_wf (scalar_of_double u) \<and> scalar_real (scalar_of_double u) = Some u \<and>
    scalar_wf (scalar_of_complex_float (x, y)) \<and> complex_parts (scalar_of_complex_float (x, y)) = (x, y) \<and>
    scalar_wf (scalar_of_complex_double (u, v)) \<and> complex_parts (scalar_of_complex_double (u, v)) = (u, v) \<and>
    (\<forall>s. is_boolean (scalar_dtype s) = Returns (\<exists>c. s = scalar_of_bool c) \<and>
         is_integral (scalar_dtype s) = Returns ((\<exists>i :: i64. s = scalar_of_signed i) \<or> (\<exists>i :: u64. s = scalar_of_unsigned i)) \<and>
         is_floating (scalar_dtype s) = Returns (\<exists>d. s = scalar_of_double d) \<and>
         is_complex (scalar_dtype s) = Returns (\<exists>d. s = scalar_of_complex_double d)) \<and>
    scalar_dtype (scalar_of_bool b) = kBool \<and>
    scalar_dtype (scalar_of_signed a) = kInt64 \<and> scalar_dtype (scalar_of_unsigned a) = kUInt64 \<and>
    scalar_dtype (scalar_of_float x) = kFloat64 \<and> scalar_dtype (scalar_of_double u) = kFloat64 \<and>
    scalar_dtype (scalar_of_complex_float (x, y)) = kComplex128 \<and> scalar_dtype (scalar_of_complex_double (u, v)) = kComplex128 \<and>
    (\<forall>s ty. is_valid_dtype ty \<and> same_category ty (scalar_dtype s) \<longrightarrow>
      dt_size_bytes (dtype_entry ty) \<le> dt_size_bytes (dtype_entry (scalar_dtype s)))"
proof -
  have widen: "fp_convert binary64 x = x" "fp_convert binary64 y = y"
    using assms(2,3) fp_convert_widen [of binary32 _ binary64] by simp_all
  have wf: "fp_in binary64 x" "fp_in binary64 y"
    using assms(2,3) fp_in_coarser [of binary32 _ binary64] by simp_all
  show ?thesis
    using widen wf assms(4,5) scalar_dtype_category scalar_dtype_widest
    by (simp add: scalar_constructor_defs sint_scast_64 [OF assms(1)] uint_ucast_64 [OF assms(1)])
qed

text \<open>The integer at which the two conversions below differ.\<close>

definition double_rounding_input :: i64 where
  "double_rounding_input = word_of_int (2 ^ 60 + 2 ^ 36 + 1)"

text \<open>C40: Converting an integer to a complex type rounds twice, first to \<open>double\<close> and then to the component type,
  so the real part it gives can differ from what the conversion to the component type itself gives:
  the integer 2^60 + 2^36 + 1 converts to the float 2^60 + 2^37, which is the nearest, and to the
  complex float with real part 2^60, which is not.\<close>

theorem scalar_double_rounding:
  "scalar_to_floating binary32 (scalar_of_signed double_rounding_input) = Returns (Holds (fp_of_int (2 ^ 60 + 2 ^ 37))) \<and>
   scalar_to_complex binary32 (scalar_of_signed double_rounding_input) = Returns (Holds (fp_of_int (2 ^ 60), fp_zero)) \<and>
   fp_rounds binary32 (fp_of_int (sint double_rounding_input)) (fp_of_int (2 ^ 60 + 2 ^ 37)) \<and>
   \<not> fp_rounds binary32 (fp_of_int (sint double_rounding_input)) (fp_of_int (2 ^ 60))"
proof -
  let ?i = "2 ^ 60 + 2 ^ 36 + 1 :: int"
  have i: "sint double_rounding_input = ?i" "scalar_of_signed double_rounding_input = SignedScalar double_rounding_input"
    by (simp_all add: double_rounding_input_def scalar_of_signed_def int_word_sint)
  have e: "ulp_exponent binary32 (of_int ?i) = 37" "ulp_exponent binary64 (of_int ?i) = 8"
      "ulp_exponent binary32 (of_int (2 ^ 60 + 2 ^ 36)) = 37"
    by (simp_all add: ulp_exponent_def ilog2_eq [of 60] binary32_def binary64_def fp_emin_def)
  have direct: "fp_convert binary32 (fp_of_int ?i) = fp_of_int (2 ^ 60 + 2 ^ 37)"
    using e(1) round_half_even_eq [of "of_int ?i / 2 ^ 37" "2 ^ 23 + 1"]
    by (simp add: fp_of_int_def round_magnitude_def)
  have first: "fp_convert binary64 (fp_of_int ?i) = fp_of_int (2 ^ 60 + 2 ^ 36)"
    using e(2) round_half_even_eq [of "of_int ?i / 2 ^ 8" "2 ^ 52 + 2 ^ 28"]
    by (simp add: fp_of_int_def round_magnitude_def)
  have second: "fp_convert binary32 (fp_of_int (2 ^ 60 + 2 ^ 36)) = fp_of_int (2 ^ 60)"
    using e(3) round_half_even_tie [of "2 ^ 23"]
    by (simp add: fp_of_int_def round_magnitude_def)
  have zero: "fp_convert binary32 fp_zero = fp_zero" by (simp add: fp_of_int_def round_magnitude_def)
  have real: "scalar_real (SignedScalar double_rounding_input) = Some (fp_of_int ?i)"
      "complex_parts (SignedScalar double_rounding_input) = (fp_of_int (2 ^ 60 + 2 ^ 36), fp_zero)"
    by (simp_all only: scalar_real.simps complex_parts.simps i first)
  have small: "\<not> fp_max binary32 < of_int j" if "j < 2 ^ 64" for j
  proof -
    have "(of_int j :: rat) \<le> of_int (2 ^ 64)" using that by (simp only: of_int_le_iff)
    then show ?thesis using fp_max_ge_64 [of binary32] by (simp add: fp_formats_def)
  qed
  have floating: "scalar_to_floating binary32 (SignedScalar double_rounding_input) = Returns (Holds (fp_of_int (2 ^ 60 + 2 ^ 37)))"
    using small [of ?i] direct real(1)
    by (subst scalar_to_floating_cases) (simp_all add: fp_formats_def)
  have complex: "scalar_to_complex binary32 (SignedScalar double_rounding_input) = Returns (Holds (fp_of_int (2 ^ 60), fp_zero))"
    using small [of "2 ^ 60 + 2 ^ 36"] small [of 0] second zero real(2)
    by (subst scalar_to_complex_cases) (simp_all add: fp_formats_def)
  have nearest: "fp_rounds binary32 (fp_of_int ?i) (fp_of_int (2 ^ 60 + 2 ^ 37))"
    using fp_convert_rounds [of binary32 extended80 "fp_of_int ?i"] small [of ?i] direct by (simp add: fp_in_int)
  then have "\<not> fp_rounds binary32 (fp_of_int ?i) (fp_of_int (2 ^ 60))"
    by (auto simp: fp_rounds_def dest!: spec [where x = "fp_of_int (2 ^ 60 + 2 ^ 37)"])
  then show ?thesis using floating complex nearest by (simp only: i simp_thms)
qed


section \<open>Witnesses\<close>

lemma scalar_to_integer_correct_witness:
  "scalar_to_unsigned (UnsignedScalar 200) = Returns (Holds (200 :: u8)) \<and>
   (\<exists>e. scalar_to_signed (UnsignedScalar 200) = Returns (Fails e :: u8 Result) \<and> st_code e = kOutOfRange)"
proof -
  have val: "scalar_value (UnsignedScalar 200) = Some 200" by (simp add: scalar_value_def)
  obtain r q :: "u8 Result" where rq: "scalar_to_signed (UnsignedScalar 200) = Returns r"
      "scalar_to_unsigned (UnsignedScalar 200) = Returns q"
    and held: "\<forall>v. (r = Holds v \<longleftrightarrow> scalar_value (UnsignedScalar 200) = Some (of_int (sint v))) \<and>
        (q = Holds v \<longleftrightarrow> scalar_value (UnsignedScalar 200) = Some (of_int (uint v)))"
    and failed: "\<forall>e. r = Fails e \<or> q = Fails e \<longrightarrow> st_code e =
        (if scalar_real (UnsignedScalar 200) = None \<or> (\<exists>x. scalar_value (UnsignedScalar 200) = Some x \<and> x \<notin> \<int>)
         then kInvalidArgument else kOutOfRange)"
    using scalar_to_integer_correct [of "UnsignedScalar 200", where 'w = 8] by auto
  have "q = Holds 200" using held val by simp
  moreover have "r \<noteq> Holds v" for v
  proof
    assume "r = Holds v"
    then have "(200 :: rat) = of_int (sint v)" using held val by simp
    then have "sint v = 200" by (metis of_int_eq_iff of_int_numeral)
    then show False using sint_lt [of v] by simp
  qed
  then obtain e where "r = Fails e" by (cases r) auto
  moreover from this have "st_code e = kOutOfRange" using failed val by simp
  ultimately show ?thesis using rq by simp
qed

lemma scalar_to_floating_correct_witness:
  "\<exists>y. scalar_to_floating binary32 (SignedScalar 5) = Returns (Holds y) \<and> fp_rounds binary32 (fp_of_int 5) y"
proof -
  have "\<not> fp_max binary32 < 5" using fp_max_ge_64 [of binary32] by (simp add: fp_formats_def)
  then show ?thesis
    using scalar_to_floating_correct [of "SignedScalar 5" binary32] by (simp add: fp_formats_def)
qed

lemma scalar_roundtrip_witness:
  "scalar_to_signed (scalar_of_signed (0xFE :: u8)) = Returns (Holds (0xFE :: u8)) \<and>
   scalar_to_floating binary32 (scalar_of_float NaN) = Returns (Holds NaN) \<and>
   scalar_to_complex binary64 (scalar_of_complex_double (fp_one, Infinity True)) = Returns (Holds (fp_one, Infinity True))"
  using scalar_roundtrip [of NaN "Infinity False" fp_one "Infinity True" True "0xFE :: u8"] fp_in_01 by simp

lemma scalar_construction_witness:
  "scalar_real (scalar_of_signed (0xFE :: u8)) = Some (fp_of_int (- 2)) \<and>
   scalar_dtype (scalar_of_signed (0xFE :: u8)) = kInt64 \<and> scalar_dtype (scalar_of_float NaN) = kFloat64 \<and>
   complex_parts (scalar_of_complex_float (NaN, Infinity False)) = (NaN, Infinity False)"
  using scalar_construction [of NaN "Infinity False" fp_one "Infinity True" True "0xFE :: u8"] fp_in_01
  by (auto simp: scalar_of_signed_def)

end
