(* ===== verification/IntrusivePtrs.thy ===== *)
theory IntrusivePtrs
  imports Status "HOL-Library.Multiset"
begin

text \<open>
  \<open>core/intrusive_ptr.h\<close>, one thread: reference-counted targets, their control blocks, the strong and
  weak handles, and the destruction of a target with the handles that are its data members.

  Objects live at addresses. The store has the control blocks, the targets and the handles that are
  alive; an access to an object that is not alive is \<open>Undefined\<close>. The class \<open>T\<close> of a target is the
  client's: what the header relies on is that its destructor destroys its data members in reverse
  order before that of \<open>IntrusivePtrTarget\<close> runs, so a target lists the handles among its members.
\<close>

section \<open>The store\<close>

type_synonym cb_addr = nat
type_synonym target_addr = nat
type_synonym handle_addr = nat

record IntrusiveControlBlock =
  strong_refs :: size_t
  weak_refs :: size_t
  cb_target :: "target_addr option"

text \<open>An \<open>IntrusivePtr\<close> with its \<open>target_\<close> and a \<open>WeakIntrusivePtr\<close> with its \<open>control_\<close>.\<close>

datatype handle = Strong "target_addr option" | Weak "cb_addr option"

record IntrusivePtrTarget =
  tgt_control :: cb_addr
  tgt_members :: "handle_addr list"

record store =
  blocks :: "cb_addr \<rightharpoonup> IntrusiveControlBlock"
  targets :: "target_addr \<rightharpoonup> IntrusivePtrTarget"
  handles :: "handle_addr \<rightharpoonup> handle"

definition empty_store :: store where
  "empty_store = \<lparr>blocks = Map.empty, targets = Map.empty, handles = Map.empty\<rparr>"

definition block_at :: "cb_addr \<Rightarrow> store \<Rightarrow> IntrusiveControlBlock outcome" where
  "block_at c s = (case blocks s c of None \<Rightarrow> Undefined | Some b \<Rightarrow> Returns b)"

definition put_block :: "cb_addr \<Rightarrow> IntrusiveControlBlock \<Rightarrow> store \<Rightarrow> store" where
  "put_block c b s = s\<lparr>blocks := (blocks s)(c \<mapsto> b)\<rparr>"

definition free_block :: "cb_addr \<Rightarrow> store \<Rightarrow> store" where
  "free_block c s = s\<lparr>blocks := (blocks s)(c := None)\<rparr>"

definition target_at :: "target_addr \<Rightarrow> store \<Rightarrow> IntrusivePtrTarget outcome" where
  "target_at t s = (case targets s t of None \<Rightarrow> Undefined | Some ob \<Rightarrow> Returns ob)"

definition end_target :: "target_addr \<Rightarrow> store \<Rightarrow> store" where
  "end_target t s = s\<lparr>targets := (targets s)(t := None)\<rparr>"

definition put_handle :: "handle_addr \<Rightarrow> handle \<Rightarrow> store \<Rightarrow> store" where
  "put_handle h v s = s\<lparr>handles := (handles s)(h \<mapsto> v)\<rparr>"

definition end_handle :: "handle_addr \<Rightarrow> store \<Rightarrow> store" where
  "end_handle h s = s\<lparr>handles := (handles s)(h := None)\<rparr>"

text \<open>The member \<open>target_\<close> of a strong handle, \<open>control_\<close> of a weak one.\<close>

definition strong_at :: "handle_addr \<Rightarrow> store \<Rightarrow> target_addr option outcome" where
  "strong_at h s = (case handles s h of Some (Strong p) \<Rightarrow> Returns p | _ \<Rightarrow> Undefined)"

definition weak_at :: "handle_addr \<Rightarrow> store \<Rightarrow> cb_addr option outcome" where
  "weak_at h s = (case handles s h of Some (Weak p) \<Rightarrow> Returns p | _ \<Rightarrow> Undefined)"

section \<open>The counts\<close>

text \<open>
  In one thread the compare-exchange loops end at their first success with the value loaded before.
  Their interleavings with other threads are the subject of the theory \<open>IntrusiveThreads\<close>.
\<close>

definition increment_ref_count :: "size_t \<Rightarrow> size_t outcome" where
  "increment_ref_count refs = (if refs = u_max then Terminates else Returns (refs + 1))"

definition retain_strong_ref :: "cb_addr \<Rightarrow> store \<Rightarrow> store outcome" where
  "retain_strong_ref control s =
     bnd (block_at control s) (\<lambda>b. bnd (increment_ref_count (strong_refs b)) (\<lambda>n.
       Returns (put_block control (b\<lparr>strong_refs := n\<rparr>) s)))"

definition retain_weak_ref :: "cb_addr \<Rightarrow> store \<Rightarrow> store outcome" where
  "retain_weak_ref control s =
     bnd (block_at control s) (\<lambda>b. bnd (increment_ref_count (weak_refs b)) (\<lambda>n.
       Returns (put_block control (b\<lparr>weak_refs := n\<rparr>) s)))"

definition release_weak_ref :: "cb_addr \<Rightarrow> store \<Rightarrow> store outcome" where
  "release_weak_ref control s =
     bnd (block_at control s) (\<lambda>b.
       let s' = put_block control (b\<lparr>weak_refs := weak_refs b - 1\<rparr>) s
       in if weak_refs b = 1 then Returns (free_block control s') else Returns s')"

definition try_retain_strong_ref :: "cb_addr \<Rightarrow> store \<Rightarrow> (bool \<times> store) outcome" where
  "try_retain_strong_ref control s =
     bnd (block_at control s) (\<lambda>b.
       if strong_refs b \<noteq> 0
       then Returns (True, put_block control (b\<lparr>strong_refs := strong_refs b + 1\<rparr>) s)
       else Returns (False, s))"

section \<open>Destruction\<close>

text \<open>
  \<open>reset\<close> of the two handle classes. Releasing the last strong reference deletes the target, whose
  members are handles again, so the operations are parametrised by the release of a strong
  reference, \<open>rel\<close>, and the recursion is tied below.
\<close>

definition strong_reset_with :: "(cb_addr \<Rightarrow> store \<Rightarrow> store outcome) \<Rightarrow> handle_addr \<Rightarrow> store \<Rightarrow> store outcome" where
  "strong_reset_with rel h s =
     bnd (strong_at h s) (\<lambda>p.
       let s' = put_handle h (Strong None) s
       in case p of None \<Rightarrow> Returns s'
          | Some t \<Rightarrow> bnd (target_at t s') (\<lambda>ob. rel (tgt_control ob) s'))"

definition weak_reset :: "handle_addr \<Rightarrow> store \<Rightarrow> store outcome" where
  "weak_reset h s =
     bnd (weak_at h s) (\<lambda>p.
       let s' = put_handle h (Weak None) s
       in case p of None \<Rightarrow> Returns s' | Some c \<Rightarrow> release_weak_ref c s')"

text \<open>The destructors of the two classes: \<open>reset\<close>, after which the handle is not alive.\<close>

definition handle_dtor_with :: "(cb_addr \<Rightarrow> store \<Rightarrow> store outcome) \<Rightarrow> handle_addr \<Rightarrow> store \<Rightarrow> store outcome" where
  "handle_dtor_with rel h s =
     (case handles s h of
        Some (Strong _) \<Rightarrow> bnd (strong_reset_with rel h s) (\<lambda>s'. Returns (end_handle h s'))
      | Some (Weak _) \<Rightarrow> bnd (weak_reset h s) (\<lambda>s'. Returns (end_handle h s'))
      | None \<Rightarrow> Undefined)"

primrec members_dtor_with ::
  "(cb_addr \<Rightarrow> store \<Rightarrow> store outcome) \<Rightarrow> handle_addr list \<Rightarrow> store \<Rightarrow> store outcome" where
  "members_dtor_with rel [] s = Returns s"
| "members_dtor_with rel (h # hs) s = bnd (handle_dtor_with rel h s) (members_dtor_with rel hs)"

text \<open>
  \<open>delete target\<close>: the lifetime of the target ends when its destructor starts; the members are
  destroyed, the last one first; \<open>~IntrusivePtrTarget\<close> gives back the implicit weak reference.
\<close>

definition delete_target_with :: "(cb_addr \<Rightarrow> store \<Rightarrow> store outcome) \<Rightarrow> target_addr \<Rightarrow> store \<Rightarrow> store outcome" where
  "delete_target_with rel t s =
     bnd (target_at t s) (\<lambda>ob.
       bnd (members_dtor_with rel (rev (tgt_members ob)) (end_target t s)) (\<lambda>s'.
         release_weak_ref (tgt_control ob) s'))"

text \<open>
  \<open>release_strong_ref\<close>, with the depth of the call stack that is left: a nested release runs one
  level deeper, and a call that finds no stack left is undefined.
\<close>

primrec release_strong_ref :: "nat \<Rightarrow> cb_addr \<Rightarrow> store \<Rightarrow> store outcome" where
  "release_strong_ref 0 = (\<lambda>control s. Undefined)"
| "release_strong_ref (Suc n) = (\<lambda>control s.
     bnd (block_at control s) (\<lambda>b.
       let b' = b\<lparr>strong_refs := strong_refs b - 1\<rparr>
       in if strong_refs b = 1
          then let s' = put_block control (b'\<lparr>cb_target := None\<rparr>) s
               in case cb_target b of None \<Rightarrow> Returns s'
                  | Some t \<Rightarrow> delete_target_with (release_strong_ref n) t s'
          else Returns (put_block control b' s)))"

section \<open>\<open>IntrusivePtr\<close>\<close>

text \<open>
  The operations take the address of the handle they are called on. A constructor makes the handle at
  an address where none is alive; \<open>n\<close> is the stack that is left for the releases.
\<close>

definition strong_ctor :: "handle_addr \<Rightarrow> store \<Rightarrow> store outcome" where
  "strong_ctor h s = Returns (put_handle h (Strong None) s)"

definition strong_copy_ctor :: "handle_addr \<Rightarrow> handle_addr \<Rightarrow> store \<Rightarrow> store outcome" where
  "strong_copy_ctor h other s =
     bnd (strong_at other s) (\<lambda>p.
       let s' = put_handle h (Strong p) s
       in case p of None \<Rightarrow> Returns s'
          | Some t \<Rightarrow> bnd (target_at t s') (\<lambda>ob. retain_strong_ref (tgt_control ob) s'))"

text \<open>The constructor that adopts a reference: with the tag it counts nothing.\<close>

definition strong_adopt_ctor :: "handle_addr \<Rightarrow> target_addr option \<Rightarrow> store \<Rightarrow> store outcome" where
  [simp]: "strong_adopt_ctor h target s = Returns (put_handle h (Strong target) s)"

definition strong_move_ctor :: "handle_addr \<Rightarrow> handle_addr \<Rightarrow> store \<Rightarrow> store outcome" where
  "strong_move_ctor h other s =
     bnd (strong_at other s) (\<lambda>p.
       Returns (put_handle h (Strong p) (put_handle other (Strong None) s)))"

definition strong_reset :: "nat \<Rightarrow> handle_addr \<Rightarrow> store \<Rightarrow> store outcome" where
  "strong_reset n = strong_reset_with (release_strong_ref n)"

definition strong_dtor :: "nat \<Rightarrow> handle_addr \<Rightarrow> store \<Rightarrow> store outcome" where
  "strong_dtor n h s = bnd (strong_reset n h s) (\<lambda>s'. Returns (end_handle h s'))"

definition strong_swap :: "handle_addr \<Rightarrow> handle_addr \<Rightarrow> store \<Rightarrow> store outcome" where
  "strong_swap h other s =
     bnd (strong_at h s) (\<lambda>p. bnd (strong_at other s) (\<lambda>q.
       Returns (put_handle other (Strong p) (put_handle h (Strong q) s))))"

text \<open>Copy assignment makes its \<open>copy\<close> at the address \<open>tmp\<close> of the stack frame.\<close>

definition strong_copy_assign ::
  "nat \<Rightarrow> handle_addr \<Rightarrow> handle_addr \<Rightarrow> handle_addr \<Rightarrow> store \<Rightarrow> store outcome" where
  "strong_copy_assign n tmp this other s =
     (if this \<noteq> other
      then bnd (strong_copy_ctor tmp other s) (\<lambda>s1.
             bnd (strong_swap this tmp s1) (\<lambda>s2. strong_dtor n tmp s2))
      else Returns s)"

text \<open>
  Move assignment resets \<open>*this\<close> first and reads \<open>other.target_\<close> afterwards. Both are read from and
  written to where they are then, if they are still alive.
\<close>

definition strong_move_assign :: "nat \<Rightarrow> handle_addr \<Rightarrow> handle_addr \<Rightarrow> store \<Rightarrow> store outcome" where
  "strong_move_assign n this other s =
     (if this \<noteq> other
      then bnd (strong_reset n this s) (\<lambda>s1.
             bnd (strong_at other s1) (\<lambda>p. bnd (strong_at this s1) (\<lambda>_.
               Returns (put_handle this (Strong p) (put_handle other (Strong None) s1)))))
      else Returns s)"

definition strong_get :: "handle_addr \<Rightarrow> store \<Rightarrow> target_addr option outcome" where
  "strong_get h s = strong_at h s"

definition strong_bool :: "handle_addr \<Rightarrow> store \<Rightarrow> bool outcome" where
  "strong_bool h s = bnd (strong_at h s) (\<lambda>p. Returns (p \<noteq> None))"

definition target_use_count :: "target_addr \<Rightarrow> store \<Rightarrow> size_t outcome" where
  "target_use_count t s =
     bnd (target_at t s) (\<lambda>ob. bnd (block_at (tgt_control ob) s) (\<lambda>b. Returns (strong_refs b)))"

definition strong_use_count :: "handle_addr \<Rightarrow> store \<Rightarrow> size_t outcome" where
  "strong_use_count h s =
     bnd (strong_at h s) (\<lambda>p. case p of None \<Rightarrow> Returns 0 | Some t \<Rightarrow> target_use_count t s)"

text \<open>
  \<open>make_intrusive\<close>: \<open>new T\<close> gives the target the address \<open>t\<close>, the base constructor makes the control
  block at \<open>c\<close>, the handles among the data members of \<open>T\<close> (of the kinds \<open>ms\<close>) are default-constructed.
\<close>

datatype handle_kind = StrongKind | WeakKind

fun null_handle :: "handle_kind \<Rightarrow> handle" where
  "null_handle StrongKind = Strong None"
| "null_handle WeakKind = Weak None"

definition put_members :: "(handle_addr \<times> handle_kind) list \<Rightarrow> store \<Rightarrow> store" where
  "put_members ms s = fold (\<lambda>(m, k). put_handle m (null_handle k)) ms s"

definition make_intrusive ::
  "cb_addr \<Rightarrow> target_addr \<Rightarrow> (handle_addr \<times> handle_kind) list \<Rightarrow> handle_addr \<Rightarrow> store \<Rightarrow> store outcome" where
  "make_intrusive c t ms h s =
     (let s1 = put_block c \<lparr>strong_refs = 1, weak_refs = 1, cb_target = Some t\<rparr> s;
          s2 = put_members ms (s1\<lparr>targets := (targets s1)(t \<mapsto> \<lparr>tgt_control = c, tgt_members = map fst ms\<rparr>)\<rparr>)
      in strong_adopt_ctor h (Some t) s2)"

section \<open>\<open>WeakIntrusivePtr\<close>\<close>

definition weak_ctor :: "handle_addr \<Rightarrow> store \<Rightarrow> store outcome" where
  "weak_ctor h s = Returns (put_handle h (Weak None) s)"

definition weak_from_strong :: "handle_addr \<Rightarrow> handle_addr \<Rightarrow> store \<Rightarrow> store outcome" where
  "weak_from_strong h strong s =
     bnd (strong_at strong s) (\<lambda>p.
       case p of None \<Rightarrow> Returns (put_handle h (Weak None) s)
       | Some t \<Rightarrow> bnd (target_at t s) (\<lambda>ob.
           retain_weak_ref (tgt_control ob) (put_handle h (Weak (Some (tgt_control ob))) s)))"

definition weak_copy_ctor :: "handle_addr \<Rightarrow> handle_addr \<Rightarrow> store \<Rightarrow> store outcome" where
  "weak_copy_ctor h other s =
     bnd (weak_at other s) (\<lambda>p.
       let s' = put_handle h (Weak p) s
       in case p of None \<Rightarrow> Returns s' | Some c \<Rightarrow> retain_weak_ref c s')"

definition weak_move_ctor :: "handle_addr \<Rightarrow> handle_addr \<Rightarrow> store \<Rightarrow> store outcome" where
  "weak_move_ctor h other s =
     bnd (weak_at other s) (\<lambda>p. Returns (put_handle h (Weak p) (put_handle other (Weak None) s)))"

definition weak_dtor :: "handle_addr \<Rightarrow> store \<Rightarrow> store outcome" where
  "weak_dtor h s = bnd (weak_reset h s) (\<lambda>s'. Returns (end_handle h s'))"

definition weak_swap :: "handle_addr \<Rightarrow> handle_addr \<Rightarrow> store \<Rightarrow> store outcome" where
  "weak_swap h other s =
     bnd (weak_at h s) (\<lambda>p. bnd (weak_at other s) (\<lambda>q.
       Returns (put_handle other (Weak p) (put_handle h (Weak q) s))))"

definition weak_copy_assign :: "handle_addr \<Rightarrow> handle_addr \<Rightarrow> handle_addr \<Rightarrow> store \<Rightarrow> store outcome" where
  "weak_copy_assign tmp this other s =
     (if this \<noteq> other
      then bnd (weak_copy_ctor tmp other s) (\<lambda>s1.
             bnd (weak_swap this tmp s1) (\<lambda>s2. weak_dtor tmp s2))
      else Returns s)"

definition weak_move_assign :: "handle_addr \<Rightarrow> handle_addr \<Rightarrow> store \<Rightarrow> store outcome" where
  "weak_move_assign this other s =
     (if this \<noteq> other
      then bnd (weak_reset this s) (\<lambda>s1.
             bnd (weak_at other s1) (\<lambda>p. bnd (weak_at this s1) (\<lambda>_.
               Returns (put_handle this (Weak p) (put_handle other (Weak None) s1)))))
      else Returns s)"

text \<open>\<open>lock\<close> makes the handle it returns at the address \<open>h\<close>.\<close>

definition weak_lock :: "handle_addr \<Rightarrow> handle_addr \<Rightarrow> store \<Rightarrow> store outcome" where
  "weak_lock h w s =
     bnd (weak_at w s) (\<lambda>p.
       case p of None \<Rightarrow> Returns (put_handle h (Strong None) s)
       | Some c \<Rightarrow> bnd (try_retain_strong_ref c s) (\<lambda>(ok, s').
           if \<not> ok then Returns (put_handle h (Strong None) s')
           else bnd (block_at c s') (\<lambda>b. strong_adopt_ctor h (cb_target b) s')))"

definition weak_expired :: "handle_addr \<Rightarrow> store \<Rightarrow> bool outcome" where
  "weak_expired w s =
     bnd (weak_at w s) (\<lambda>p.
       case p of None \<Rightarrow> Returns True
       | Some c \<Rightarrow> bnd (block_at c s) (\<lambda>b. Returns (strong_refs b = 0)))"

section \<open>A constructor that throws\<close>

text \<open>
  How the constructor of \<open>T\<close> has initialised a handle among the data members before it throws: null, from
  another handle by a copy or a move, or by \<open>lock\<close>. The other handle is an argument of the constructor,
  any handle it can reach, or a member initialised earlier.
\<close>

datatype member_init =
    Init_strong
  | Init_copy handle_addr
  | Init_move handle_addr
  | Init_weak
  | Init_watch handle_addr
  | Init_weak_copy handle_addr
  | Init_weak_move handle_addr
  | Init_lock handle_addr

fun member_ctor :: "handle_addr \<Rightarrow> member_init \<Rightarrow> store \<Rightarrow> store outcome" where
  "member_ctor m Init_strong = strong_ctor m"
| "member_ctor m (Init_copy other) = strong_copy_ctor m other"
| "member_ctor m (Init_move other) = strong_move_ctor m other"
| "member_ctor m Init_weak = weak_ctor m"
| "member_ctor m (Init_watch strong) = weak_from_strong m strong"
| "member_ctor m (Init_weak_copy other) = weak_copy_ctor m other"
| "member_ctor m (Init_weak_move other) = weak_move_ctor m other"
| "member_ctor m (Init_lock w) = weak_lock m w"

fun construct_members :: "(handle_addr \<times> member_init) list \<Rightarrow> store \<Rightarrow> store outcome" where
  "construct_members [] s = Returns s"
| "construct_members ((m, i) # ms) s = bnd (member_ctor m i s) (construct_members ms)"

text \<open>
  \<open>make_intrusive\<close> when the constructor of \<open>T\<close> throws: the base has made the control block at \<open>c\<close>, the
  members \<open>ms\<close> have been constructed; they are destroyed, the last one first, then the base, which gives
  back the implicit weak reference; the exception leaves the call with this store. The lifetime of the
  target at \<open>t\<close> never starts.
\<close>

definition make_intrusive_throws ::
  "nat \<Rightarrow> cb_addr \<Rightarrow> target_addr \<Rightarrow> (handle_addr \<times> member_init) list \<Rightarrow> store \<Rightarrow> store outcome" where
  "make_intrusive_throws n c t ms s =
     bnd (construct_members ms (put_block c \<lparr>strong_refs = 1, weak_refs = 1, cb_target = Some t\<rparr> s)) (\<lambda>s1.
     bnd (members_dtor_with (release_strong_ref n) (rev (map fst ms)) s1) (release_weak_ref c))"

section \<open>\<open>swap\<close> of two handles\<close>

text \<open>The function of the namespace, which generic code finds by its arguments.\<close>

definition swap_strong :: "handle_addr \<Rightarrow> handle_addr \<Rightarrow> store \<Rightarrow> store outcome" where
  "swap_strong lhs rhs s = strong_swap lhs rhs s"

definition swap_weak :: "handle_addr \<Rightarrow> handle_addr \<Rightarrow> store \<Rightarrow> store outcome" where
  "swap_weak lhs rhs s = weak_swap lhs rhs s"

lemma handles_put_handle: "handles (put_handle h v s) k = (if k = h then Some v else handles s k)"
  by (simp add: put_handle_def)

lemma put_handle_same: "handles s h = Some v \<Longrightarrow> put_handle h v s = s"
  by (simp add: put_handle_def fun_upd_idem)

lemma put_handle_twice: "put_handle h v (put_handle h w s) = put_handle h v s"
  by (simp add: put_handle_def)

lemma put_handle_twist: "h \<noteq> k \<Longrightarrow> put_handle h v (put_handle k w s) = put_handle k w (put_handle h v s)"
  by (simp add: put_handle_def fun_upd_twist)

lemma exchange_handles_twice:
  assumes "handles s a = Some p" "handles s b = Some q"
  shows "put_handle b q (put_handle a p (put_handle b p (put_handle a q s))) = s"
  using assms
  by (cases "a = b") (simp_all add: put_handle_twice put_handle_twist [of a b] put_handle_same)

lemma swap_twice:
  "swap_strong a b s = Returns s' \<Longrightarrow> swap_strong a b s' = Returns s"
  "swap_weak a b s = Returns s' \<Longrightarrow> swap_weak a b s' = Returns s"
  using exchange_handles_twice [of s a _ b]
  by (auto simp: swap_strong_def strong_swap_def strong_at_def swap_weak_def weak_swap_def weak_at_def
      handles_put_handle bnd_eq_Returns split: option.splits handle.splits if_splits)

end
