(* ===== verification/IntrusiveSafety.thy ===== *)
theory IntrusiveSafety
  imports IntrusivePtrs
begin

text \<open>
  The invariant of the reference counts and its preservation: each count is the number of handles
  that hold a reference and of references in flight, every reference is to an object that is alive,
  a target is alive as long as its strong count is positive and a control block as long as its weak
  count is.
\<close>

section \<open>Counting the handles of a value\<close>

definition occ :: "('a \<rightharpoonup> 'b) \<Rightarrow> 'b \<Rightarrow> nat" where
  "occ m v = card {x. m x = Some v}"

lemma finite_occ: "finite (dom m) \<Longrightarrow> finite {x. m x = Some v}"
  by (rule finite_subset [of _ "dom m"]) auto

lemma occ_delete:
  assumes "finite (dom m)"
  shows "occ (m(x := None)) w + (if m x = Some w then 1 else 0) = occ m w"
proof (cases "m x = Some w")
  case True
  have "{y. (m(x := None)) y = Some w} = {y. m y = Some w} - {x}" by auto
  then show ?thesis
    using True finite_occ [OF assms, of w] card_Suc_Diff1 [of "{y. m y = Some w}" x]
    by (simp add: occ_def)
next
  case False
  then have "{y. (m(x := None)) y = Some w} = {y. m y = Some w}" by auto
  then show ?thesis using False by (simp add: occ_def)
qed

lemma occ_update:
  assumes "finite (dom m)"
  shows "occ (m(x \<mapsto> v)) w + (if m x = Some w then 1 else 0) = occ m w + (if v = w then 1 else 0)"
proof -
  have "{y. (m(x \<mapsto> v)) y = Some w} =
      (if v = w then insert x else id) {y. (m(x := None)) y = Some w}" by auto
  moreover have "finite {y. (m(x := None)) y = Some w}"
    using finite_occ [OF assms, of w] by (rule rev_finite_subset) auto
  ultimately have "occ (m(x \<mapsto> v)) w = occ (m(x := None)) w + (if v = w then 1 else 0)"
    by (simp add: occ_def)
  then show ?thesis using occ_delete [OF assms, of x w] by simp
qed

lemma occ_pos: "finite (dom m) \<Longrightarrow> m x = Some v \<Longrightarrow> 0 < occ m v"
  using finite_occ [of m v] by (auto simp: occ_def card_gt_0_iff)

lemma occ_zero_iff: "finite (dom m) \<Longrightarrow> occ m v = 0 \<longleftrightarrow> (\<forall>x. m x \<noteq> Some v)"
  using finite_occ [of m v] by (auto simp: occ_def)

section \<open>The invariant\<close>

text \<open>
  \<open>P\<close> and \<open>Q\<close> are the references in flight: a strong reference to a target, a weak one to a control
  block, that an operation has taken from a handle and not given back yet.
\<close>

definition refs_live :: "target_addr multiset \<Rightarrow> cb_addr multiset \<Rightarrow> store \<Rightarrow> bool" where
  "refs_live P Q s \<longleftrightarrow>
     (\<forall>h t. handles s h = Some (Strong (Some t)) \<longrightarrow> targets s t \<noteq> None) \<and>
     (\<forall>h c. handles s h = Some (Weak (Some c)) \<longrightarrow> blocks s c \<noteq> None) \<and>
     (\<forall>t \<in># P. targets s t \<noteq> None) \<and> (\<forall>c \<in># Q. blocks s c \<noteq> None)"

definition targets_ok :: "store \<Rightarrow> bool" where
  "targets_ok s \<longleftrightarrow> (\<forall>t ob. targets s t = Some ob \<longrightarrow>
     (\<exists>b. blocks s (tgt_control ob) = Some b \<and> cb_target b = Some t))"

definition strong_ok :: "target_addr multiset \<Rightarrow> store \<Rightarrow> bool" where
  "strong_ok P s \<longleftrightarrow> (\<forall>c b. blocks s c = Some b \<longrightarrow>
     (case cb_target b of None \<Rightarrow> strong_refs b = 0
      | Some t \<Rightarrow> (\<exists>ob. targets s t = Some ob \<and> tgt_control ob = c) \<and> strong_refs b \<noteq> 0 \<and>
          unat (strong_refs b) = occ (handles s) (Strong (Some t)) + count P t))"

definition weak_ok :: "cb_addr multiset \<Rightarrow> store \<Rightarrow> bool" where
  "weak_ok Q s \<longleftrightarrow> (\<forall>c b. blocks s c = Some b \<longrightarrow> weak_refs b \<noteq> 0 \<and>
     unat (weak_refs b) =
       occ (handles s) (Weak (Some c)) + count Q c + (if cb_target b = None then 0 else 1))"

definition members_ok :: "store \<Rightarrow> bool" where
  "members_ok s \<longleftrightarrow>
     (\<forall>t ob. targets s t = Some ob \<longrightarrow>
        distinct (tgt_members ob) \<and> (\<forall>h \<in> set (tgt_members ob). handles s h \<noteq> None)) \<and>
     (\<forall>t u a b. targets s t = Some a \<longrightarrow> targets s u = Some b \<longrightarrow> t \<noteq> u \<longrightarrow>
        set (tgt_members a) \<inter> set (tgt_members b) = {})"

definition store_ok :: "target_addr multiset \<Rightarrow> cb_addr multiset \<Rightarrow> store \<Rightarrow> bool" where
  "store_ok P Q s \<longleftrightarrow> finite (dom (handles s)) \<and> finite (dom (targets s)) \<and>
     refs_live P Q s \<and> targets_ok s \<and> strong_ok P s \<and> weak_ok Q s \<and> members_ok s"

lemmas store_ok_defs =
  store_ok_def refs_live_def targets_ok_def strong_ok_def weak_ok_def members_ok_def

lemmas store_ops =
  put_block_def free_block_def end_target_def put_handle_def end_handle_def

lemma store_okD:
  assumes "store_ok P Q s"
  shows "finite (dom (handles s))" "finite (dom (targets s))" "refs_live P Q s" "targets_ok s"
    "strong_ok P s" "weak_ok Q s" "members_ok s"
  using assms by (simp_all add: store_ok_def)

text \<open>The handles that are members of a live target.\<close>

definition owned :: "store \<Rightarrow> handle_addr set" where
  "owned s = {h. \<exists>t ob. targets s t = Some ob \<and> h \<in> set (tgt_members ob)}"

lemma owned_alive: "store_ok P Q s \<Longrightarrow> h \<in> owned s \<Longrightarrow> handles s h \<noteq> None"
  by (fastforce simp: store_ok_defs owned_def)

lemma owned_put [simp]:
  "owned (put_block c b s) = owned s" "owned (free_block c s) = owned s"
  "owned (put_handle h v s) = owned s" "owned (end_handle h s) = owned s"
  by (simp_all add: owned_def store_ops)

lemma store_op_simps [simp]:
  "handles (put_handle h v s) = (handles s)(h \<mapsto> v)" "targets (put_handle h v s) = targets s"
  "blocks (put_handle h v s) = blocks s"
  "handles (end_handle h s) = (handles s)(h := None)" "targets (end_handle h s) = targets s"
  "blocks (end_handle h s) = blocks s"
  "handles (put_block c b s) = handles s" "targets (put_block c b s) = targets s"
  "blocks (put_block c b s) = (blocks s)(c \<mapsto> b)"
  "handles (end_target t s) = handles s" "targets (end_target t s) = (targets s)(t := None)"
  "blocks (end_target t s) = blocks s"
  by (simp_all add: store_ops)

lemma owned_mono: "targets s' \<subseteq>\<^sub>m targets s \<Longrightarrow> owned s' \<subseteq> owned s"
  by (fastforce simp: owned_def map_le_def dom_def)

subsection \<open>The references a handle holds\<close>

fun strong_ref_of :: "handle option \<Rightarrow> target_addr multiset" where
  "strong_ref_of (Some (Strong (Some t))) = {#t#}"
| "strong_ref_of _ = {#}"

fun weak_ref_of :: "handle option \<Rightarrow> cb_addr multiset" where
  "weak_ref_of (Some (Weak (Some c))) = {#c#}"
| "weak_ref_of _ = {#}"

lemma count_strong_ref_of: "count (strong_ref_of v) t = (if v = Some (Strong (Some t)) then 1 else 0)"
  by (cases v rule: strong_ref_of.cases) auto

lemma count_weak_ref_of: "count (weak_ref_of v) c = (if v = Some (Weak (Some c)) then 1 else 0)"
  by (cases v rule: weak_ref_of.cases) auto

lemma strong_ref_of_alive:
  "refs_live P Q s \<Longrightarrow> t \<in># strong_ref_of (handles s h) \<Longrightarrow> targets s t \<noteq> None"
  by (cases "handles s h" rule: strong_ref_of.cases) (auto simp: refs_live_def)

lemma weak_ref_of_alive:
  "refs_live P Q s \<Longrightarrow> c \<in># weak_ref_of (handles s h) \<Longrightarrow> blocks s c \<noteq> None"
  by (cases "handles s h" rule: weak_ref_of.cases) (auto simp: refs_live_def)

lemma strong_okD:
  assumes "strong_ok P s" "blocks s c = Some b"
  shows "cb_target b = None \<Longrightarrow> strong_refs b = 0"
    "cb_target b = Some t \<Longrightarrow> (\<exists>ob. targets s t = Some ob \<and> tgt_control ob = c) \<and> strong_refs b \<noteq> 0 \<and>
       unat (strong_refs b) = occ (handles s) (Strong (Some t)) + count P t"
  using assms(1) [unfolded strong_ok_def, rule_format, OF assms(2)] by simp_all

lemma strong_okI:
  assumes "\<And>c b. blocks s c = Some b \<Longrightarrow> cb_target b = None \<Longrightarrow> strong_refs b = 0"
    "\<And>c b t. blocks s c = Some b \<Longrightarrow> cb_target b = Some t \<Longrightarrow>
       (\<exists>ob. targets s t = Some ob \<and> tgt_control ob = c) \<and> strong_refs b \<noteq> 0 \<and>
       unat (strong_refs b) = occ (handles s) (Strong (Some t)) + count P t"
  shows "strong_ok P s"
  using assms by (auto simp: strong_ok_def split: option.splits)

lemma weak_okD:
  assumes "weak_ok Q s" "blocks s c = Some b"
  shows "weak_refs b \<noteq> 0 \<and> unat (weak_refs b) =
    occ (handles s) (Weak (Some c)) + count Q c + (if cb_target b = None then 0 else 1)"
  using assms by (simp add: weak_ok_def)

text \<open>How the counts follow a change of one handle.\<close>

lemma strong_ok_handles:
  assumes "strong_ok P s" "blocks s' = blocks s" "targets s' = targets s"
    and "\<And>t. occ (handles s') (Strong (Some t)) + count P' t = occ (handles s) (Strong (Some t)) + count P t"
  shows "strong_ok P' s'"
proof (rule strong_okI)
  fix c b t
  assume b: "blocks s' c = Some b"
  then have b': "blocks s c = Some b" using assms(2) by simp
  { assume "cb_target b = None" then show "strong_refs b = 0" by (rule strong_okD(1) [OF assms(1) b']) }
  assume "cb_target b = Some t"
  from strong_okD(2) [OF assms(1) b' this] show
    "(\<exists>ob. targets s' t = Some ob \<and> tgt_control ob = c) \<and> strong_refs b \<noteq> 0 \<and>
       unat (strong_refs b) = occ (handles s') (Strong (Some t)) + count P' t"
    using assms(3,4) by simp
qed

lemma weak_ok_handles:
  assumes "weak_ok Q s" "blocks s' = blocks s"
    and "\<And>c. occ (handles s') (Weak (Some c)) + count Q' c = occ (handles s) (Weak (Some c)) + count Q c"
  shows "weak_ok Q' s'"
  using assms by (simp add: weak_ok_def)

text \<open>
  Writing a handle moves references between the handle and the operation: the references of the new
  value were in flight before, those of the old value are in flight after.
\<close>

lemma put_handle_ok:
  assumes ok: "store_ok (strong_ref_of (Some v) + P) (weak_ref_of (Some v) + Q) s"
  shows "store_ok (strong_ref_of (handles s h) + P) (weak_ref_of (handles s h) + Q) (put_handle h v s)"
proof -
  note d = store_okD [OF ok]
  have alive: "targets s t \<noteq> None" if "v = Strong (Some t)" for t
    using d(3) that by (simp add: refs_live_def)
  have walive: "blocks s c \<noteq> None" if "v = Weak (Some c)" for c
    using d(3) that by (simp add: refs_live_def)
  have "refs_live (strong_ref_of (handles s h) + P) (weak_ref_of (handles s h) + Q) (put_handle h v s)"
    using d(3) alive walive strong_ref_of_alive [OF d(3)] weak_ref_of_alive [OF d(3)]
    by (auto simp: refs_live_def put_handle_def)
  moreover have "strong_ok (strong_ref_of (handles s h) + P) (put_handle h v s)"
    using d(5)
  proof (rule strong_ok_handles)
    show "occ (handles (put_handle h v s)) (Strong (Some t)) + count (strong_ref_of (handles s h) + P) t =
        occ (handles s) (Strong (Some t)) + count (strong_ref_of (Some v) + P) t" for t
      using occ_update [OF d(1), of h v "Strong (Some t)"]
      by (simp add: put_handle_def count_strong_ref_of)
  qed (simp_all add: put_handle_def)
  moreover have "weak_ok (weak_ref_of (handles s h) + Q) (put_handle h v s)"
    using d(6)
  proof (rule weak_ok_handles)
    show "occ (handles (put_handle h v s)) (Weak (Some c)) + count (weak_ref_of (handles s h) + Q) c =
        occ (handles s) (Weak (Some c)) + count (weak_ref_of (Some v) + Q) c" for c
      using occ_update [OF d(1), of h v "Weak (Some c)"]
      by (simp add: put_handle_def count_weak_ref_of)
  qed (simp add: put_handle_def)
  ultimately show ?thesis using d
    by (auto simp: store_ok_def put_handle_def targets_ok_def members_ok_def)
qed

lemma end_handle_ok:
  assumes ok: "store_ok P Q s" and "h \<notin> owned s"
  shows "store_ok (strong_ref_of (handles s h) + P) (weak_ref_of (handles s h) + Q) (end_handle h s)"
proof -
  note d = store_okD [OF ok]
  have "refs_live (strong_ref_of (handles s h) + P) (weak_ref_of (handles s h) + Q) (end_handle h s)"
    using d(3) strong_ref_of_alive [OF d(3)] weak_ref_of_alive [OF d(3)]
    by (auto simp: refs_live_def end_handle_def)
  moreover have "strong_ok (strong_ref_of (handles s h) + P) (end_handle h s)"
    using d(5)
  proof (rule strong_ok_handles)
    show "occ (handles (end_handle h s)) (Strong (Some t)) + count (strong_ref_of (handles s h) + P) t =
        occ (handles s) (Strong (Some t)) + count P t" for t
      using occ_delete [OF d(1), of h "Strong (Some t)"]
      by (simp add: end_handle_def count_strong_ref_of)
  qed (simp_all add: end_handle_def)
  moreover have "weak_ok (weak_ref_of (handles s h) + Q) (end_handle h s)"
    using d(6)
  proof (rule weak_ok_handles)
    show "occ (handles (end_handle h s)) (Weak (Some c)) + count (weak_ref_of (handles s h) + Q) c =
        occ (handles s) (Weak (Some c)) + count Q c" for c
      using occ_delete [OF d(1), of h "Weak (Some c)"]
      by (simp add: end_handle_def count_weak_ref_of)
  qed (simp add: end_handle_def)
  moreover have "members_ok (end_handle h s)"
    using d(7) assms(2) by (fastforce simp: members_ok_def end_handle_def owned_def)
  ultimately show ?thesis using d
    by (auto simp: store_ok_def end_handle_def targets_ok_def)
qed

section \<open>The counts and the references in flight\<close>

lemma unat_plus_one: "(x :: size_t) \<noteq> u_max \<Longrightarrow> unat (x + 1) = Suc (unat x) \<and> x + 1 \<noteq> 0"
proof -
  assume x: "x \<noteq> u_max"
  have "x + 1 \<noteq> 0"
  proof
    assume "x + 1 = 0"
    then have "x = - 1" by (simp add: eq_neg_iff_add_eq_0)
    with x show False by (simp add: u_max_def)
  qed
  then show ?thesis using unat_minus_one [of "x + 1"] unat_gt_0 [of "x + 1"] by simp
qed

lemma unat_minus_one_word: "(x :: size_t) \<noteq> 0 \<Longrightarrow> unat (x - 1) = unat x - 1"
  by (rule unat_minus_one)

text \<open>What the store knows of a live target: its control block and the block's counts.\<close>

lemma target_block:
  assumes "store_ok P Q s" "targets s t = Some ob"
  obtains b where "blocks s (tgt_control ob) = Some b" "cb_target b = Some t" "strong_refs b \<noteq> 0"
    "unat (strong_refs b) = occ (handles s) (Strong (Some t)) + count P t"
proof -
  obtain b where b: "blocks s (tgt_control ob) = Some b" "cb_target b = Some t"
    using store_okD(4) [OF assms(1)] assms(2) by (auto simp: targets_ok_def)
  then show thesis using strong_okD(2) [OF store_okD(5) [OF assms(1)] b] that by blast
qed

lemma strong_handle_target:
  "store_ok P Q s \<Longrightarrow> handles s h = Some (Strong (Some t)) \<Longrightarrow> \<exists>ob. targets s t = Some ob"
  using store_okD(3) by (fastforce simp: refs_live_def)

lemma weak_handle_block:
  "store_ok P Q s \<Longrightarrow> handles s h = Some (Weak (Some c)) \<Longrightarrow> \<exists>b. blocks s c = Some b"
  using store_okD(3) by (fastforce simp: refs_live_def)

text \<open>Two live targets have different control blocks.\<close>

lemma control_inject:
  "store_ok P Q s \<Longrightarrow> targets s t = Some a \<Longrightarrow> targets s u = Some b \<Longrightarrow> tgt_control a = tgt_control b \<Longrightarrow> t = u"
  by (metis option.inject target_block)

text \<open>A change of the strong count moves one reference to the target into or out of flight.\<close>

lemma set_strong_refs_ok:
  assumes ok: "store_ok P Q s" and b: "blocks s c = Some b" "cb_target b = Some t"
    and n: "n \<noteq> 0" "unat n = occ (handles s) (Strong (Some t)) + count P' t"
    and P': "\<And>u. u \<noteq> t \<Longrightarrow> count P' u = count P u"
  shows "store_ok P' Q (put_block c (b\<lparr>strong_refs := n\<rparr>) s)"
proof -
  note d = store_okD [OF ok]
  obtain ob where ob: "targets s t = Some ob" "tgt_control ob = c"
    using strong_okD(2) [OF d(5) b] by blast
  have live: "targets s u \<noteq> None" if "u \<in># P'" for u
    using that P' [of u] d(3) ob(1) by (cases "u = t") (auto simp: refs_live_def count_eq_zero_iff
        simp flip: count_greater_zero_iff)
  have "refs_live P' Q (put_block c (b\<lparr>strong_refs := n\<rparr>) s)"
    using d(3) live by (auto simp: refs_live_def put_block_def)
  moreover have "targets_ok (put_block c (b\<lparr>strong_refs := n\<rparr>) s)"
    using d(4) b by (fastforce simp: targets_ok_def put_block_def)
  moreover have "strong_ok P' (put_block c (b\<lparr>strong_refs := n\<rparr>) s)"
  proof (rule strong_okI)
    fix c' b'
    assume b': "blocks (put_block c (b\<lparr>strong_refs := n\<rparr>) s) c' = Some b'"
    { assume "cb_target b' = None"
      then show "strong_refs b' = 0"
        using b' b(2) strong_okD(1) [OF d(5), of c' b'] by (auto simp: put_block_def split: if_splits) }
    fix u
    assume u: "cb_target b' = Some u"
    show "(\<exists>ob. targets (put_block c (b\<lparr>strong_refs := n\<rparr>) s) u = Some ob \<and> tgt_control ob = c') \<and>
      strong_refs b' \<noteq> 0 \<and> unat (strong_refs b') =
        occ (handles (put_block c (b\<lparr>strong_refs := n\<rparr>) s)) (Strong (Some u)) + count P' u"
    proof (cases "c' = c")
      case True
      then show ?thesis using b' b(2) u n ob by (auto simp: put_block_def)
    next
      case False
      then have old: "blocks s c' = Some b'" using b' by (simp add: put_block_def)
      have "u \<noteq> t" using strong_okD(2) [OF d(5) old u] ob False by auto
      then show ?thesis using strong_okD(2) [OF d(5) old u] P' by (simp add: put_block_def)
    qed
  qed
  moreover have "weak_ok Q (put_block c (b\<lparr>strong_refs := n\<rparr>) s)"
    using d(6) b by (auto simp: weak_ok_def put_block_def)
  ultimately show ?thesis using d by (auto simp: store_ok_def put_block_def members_ok_def)
qed

lemma retain_strong_ok:
  assumes "store_ok P Q s" "blocks s c = Some b" "cb_target b = Some t" "strong_refs b \<noteq> u_max"
  shows "store_ok (add_mset t P) Q (put_block c (b\<lparr>strong_refs := strong_refs b + 1\<rparr>) s)"
  using assms strong_okD(2) [OF store_okD(5) [OF assms(1)] assms(2,3)] unat_plus_one
  by (intro set_strong_refs_ok [OF assms(1-3)]) auto

lemma drop_strong_ok:
  assumes ok: "store_ok (add_mset t P) Q s" and b: "blocks s c = Some b" "cb_target b = Some t"
    and n: "strong_refs b \<noteq> 1"
  shows "store_ok P Q (put_block c (b\<lparr>strong_refs := strong_refs b - 1\<rparr>) s)"
proof (rule set_strong_refs_ok [OF ok b])
  have r: "strong_refs b \<noteq> 0"
    "unat (strong_refs b) = occ (handles s) (Strong (Some t)) + count (add_mset t P) t"
    using strong_okD(2) [OF store_okD(5) [OF ok] b] by simp_all
  then show "unat (strong_refs b - 1) = occ (handles s) (Strong (Some t)) + count P t"
    by (simp add: unat_minus_one_word)
  show "strong_refs b - 1 \<noteq> 0" using n by simp
qed simp

text \<open>The same for the weak count; a block whose last weak reference is given back is freed.\<close>

lemma set_weak_refs_ok:
  assumes ok: "store_ok P Q s" and b: "blocks s c = Some b"
    and n: "n \<noteq> 0" "unat n =
      occ (handles s) (Weak (Some c)) + count Q' c + (if cb_target b = None then 0 else 1)"
    and Q': "\<And>u. u \<noteq> c \<Longrightarrow> count Q' u = count Q u"
  shows "store_ok P Q' (put_block c (b\<lparr>weak_refs := n\<rparr>) s)"
proof -
  note d = store_okD [OF ok]
  let ?s = "put_block c (b\<lparr>weak_refs := n\<rparr>) s"
  have live: "blocks ?s u \<noteq> None" if "u \<in># Q'" for u
    using that Q' [of u] d(3) b by (cases "u = c") (auto simp: refs_live_def put_block_def
        simp flip: count_greater_zero_iff)
  have "refs_live P Q' ?s"
    using d(3) live by (auto simp: refs_live_def put_block_def)
  moreover have "targets_ok ?s"
    using d(4) b by (fastforce simp: targets_ok_def put_block_def)
  moreover have "strong_ok P ?s"
  proof (rule strong_okI)
    fix c' b'
    assume "blocks ?s c' = Some b'"
    then obtain b0 where b0: "blocks s c' = Some b0" "cb_target b' = cb_target b0"
        "strong_refs b' = strong_refs b0"
      using b by (cases "c' = c") (auto simp: put_block_def)
    show "cb_target b' = None \<Longrightarrow> strong_refs b' = 0"
      using b0 strong_okD(1) [OF d(5) b0(1)] by simp
    show "cb_target b' = Some t \<Longrightarrow> (\<exists>ob. targets ?s t = Some ob \<and> tgt_control ob = c') \<and>
        strong_refs b' \<noteq> 0 \<and> unat (strong_refs b') = occ (handles ?s) (Strong (Some t)) + count P t" for t
      using b0 strong_okD(2) [OF d(5) b0(1), of t] by (simp add: put_block_def)
  qed
  moreover have "weak_ok Q' ?s"
    using d(6) n Q' by (auto simp: weak_ok_def put_block_def)
  ultimately show ?thesis using d by (auto simp: store_ok_def put_block_def members_ok_def)
qed

lemma retain_weak_ok:
  assumes "store_ok P Q s" "blocks s c = Some b" "weak_refs b \<noteq> u_max"
  shows "store_ok P (add_mset c Q) (put_block c (b\<lparr>weak_refs := weak_refs b + 1\<rparr>) s)"
  using assms weak_okD [OF store_okD(6) [OF assms(1)] assms(2)] unat_plus_one
  by (intro set_weak_refs_ok [OF assms(1-2)]) auto

lemma free_block_ok:
  assumes ok: "store_ok P (add_mset c Q) s" and b: "blocks s c = Some b" "weak_refs b = 1"
  shows "store_ok P Q (free_block c s)"
proof -
  note d = store_okD [OF ok]
  have z: "occ (handles s) (Weak (Some c)) = 0" "count Q c = 0" "cb_target b = None"
    using weak_okD [OF d(6) b(1)] b(2) by (auto split: if_splits)
  have nw: "handles s h \<noteq> Some (Weak (Some c))" for h using z(1) occ_zero_iff [OF d(1)] by blast
  have nt: "tgt_control ob \<noteq> c" if "targets s t = Some ob" for t ob
    using target_block [OF ok that] b(1) z(3) by fastforce
  have "refs_live P Q (free_block c s)"
    using d(3) nw z(2) by (auto simp: refs_live_def free_block_def count_eq_zero_iff)
  moreover have "targets_ok (free_block c s)"
    using d(4) nt by (auto simp: targets_ok_def free_block_def)
  moreover have "strong_ok P (free_block c s)"
    by (rule strong_okI)
      (auto simp: free_block_def dest: strong_okD [OF d(5)] split: if_splits)
  moreover have "weak_ok Q (free_block c s)"
    using d(6) by (auto simp: weak_ok_def free_block_def)
  ultimately show ?thesis using d by (auto simp: store_ok_def free_block_def members_ok_def)
qed

lemma drop_weak_ok:
  assumes ok: "store_ok P (add_mset c Q) s" and b: "blocks s c = Some b" "weak_refs b \<noteq> 1"
  shows "store_ok P Q (put_block c (b\<lparr>weak_refs := weak_refs b - 1\<rparr>) s)"
  using weak_okD [OF store_okD(6) [OF ok] b(1)] b(2)
  by (intro set_weak_refs_ok [OF ok b(1)]) (auto simp: unat_minus_one_word)

lemma free_put_block: "free_block c (put_block c b s) = free_block c s"
  by (simp add: free_block_def put_block_def)

text \<open>Giving a weak reference back always succeeds and touches only the control block.\<close>

lemma release_weak_ref_ok:
  assumes ok: "store_ok P (add_mset c Q) s"
  shows "\<exists>s'. release_weak_ref c s = Returns s' \<and> store_ok P Q s' \<and>
    targets s' = targets s \<and> handles s' = handles s"
proof -
  obtain b where b: "blocks s c = Some b" using store_okD(3) [OF ok] by (auto simp: refs_live_def)
  show ?thesis
  proof (cases "weak_refs b = 1")
    case True
    then show ?thesis using free_block_ok [OF ok b] b
      by (simp add: release_weak_ref_def block_at_def Let_def free_put_block)
        (simp add: free_block_def)
  next
    case False
    then show ?thesis using drop_weak_ok [OF ok b] b
      by (simp add: release_weak_ref_def block_at_def Let_def)
  qed
qed

text \<open>
  The last strong reference: the target's lifetime ends, and its implicit weak reference is in flight
  until \<open>~IntrusivePtrTarget\<close> gives it back.
\<close>

lemma end_target_ok:
  assumes ok: "store_ok (add_mset t P) Q s" and ob: "targets s t = Some ob"
    and b: "blocks s (tgt_control ob) = Some b" "strong_refs b = 1"
  shows "store_ok P (add_mset (tgt_control ob) Q)
    (end_target t (put_block (tgt_control ob) (b\<lparr>strong_refs := 0, cb_target := None\<rparr>) s))"
    (is "store_ok P ?Q ?s")
proof -
  note d = store_okD [OF ok]
  have bt: "cb_target b = Some t"
    using target_block [OF ok ob] b(1) by fastforce
  have z: "occ (handles s) (Strong (Some t)) = 0" "count P t = 0"
    using strong_okD(2) [OF d(5) b(1) bt] b(2) by auto
  have nh: "handles s h \<noteq> Some (Strong (Some t))" for h using z(1) occ_zero_iff [OF d(1)] by blast
  have other: "tgt_control a \<noteq> tgt_control ob" if "targets s u = Some a" "u \<noteq> t" for u a
    using control_inject [OF ok that(1) ob] that(2) by blast
  have "refs_live P ?Q ?s"
    using d(3) nh z(2) ob b(1)
    by (auto simp: refs_live_def end_target_def put_block_def count_eq_zero_iff)
  moreover have "targets_ok ?s"
    using d(4) other by (auto simp: targets_ok_def end_target_def put_block_def)
  moreover have "strong_ok P ?s"
  proof (rule strong_okI)
    fix c' b' assume b': "blocks ?s c' = Some b'"
    show "cb_target b' = None \<Longrightarrow> strong_refs b' = 0"
      using b' strong_okD(1) [OF d(5), of c' b']
      by (auto simp: end_target_def put_block_def split: if_splits)
    fix u assume u: "cb_target b' = Some u"
    then have old: "c' \<noteq> tgt_control ob" "blocks s c' = Some b'"
      using b' by (auto simp: end_target_def put_block_def split: if_splits)
    have "u \<noteq> t" using strong_okD(2) [OF d(5) old(2) u] ob old(1) by auto
    then show "(\<exists>ob. targets ?s u = Some ob \<and> tgt_control ob = c') \<and> strong_refs b' \<noteq> 0 \<and>
        unat (strong_refs b') = occ (handles ?s) (Strong (Some u)) + count P u"
      using strong_okD(2) [OF d(5) old(2) u] by (simp add: end_target_def put_block_def)
  qed
  moreover have "weak_ok ?Q ?s"
    using weak_okD [OF d(6)] b(1) bt by (auto simp: weak_ok_def end_target_def put_block_def)
  moreover have "members_ok ?s"
    using d(7) by (auto simp: members_ok_def end_target_def put_block_def)
  ultimately show ?thesis using d by (auto simp: store_ok_def end_target_def put_block_def)
qed

section \<open>Releases and destructors\<close>

text \<open>
  What a release does to the rest of the store: targets may die; a handle of \<open>X\<close> or a member of a
  target that died is not alive any more; all other targets and handles are as they were.
\<close>

definition shrinks :: "handle_addr set \<Rightarrow> store \<Rightarrow> store \<Rightarrow> bool" where
  "shrinks X s s' \<longleftrightarrow> targets s' \<subseteq>\<^sub>m targets s \<and>
     (\<forall>h. handles s' h = (if h \<in> X \<or> h \<in> owned s \<and> h \<notin> owned s' then None else handles s h))"

lemma shrinks_refl_on: "targets s' = targets s \<Longrightarrow> handles s' = handles s \<Longrightarrow> shrinks {} s s'"
  by (auto simp: shrinks_def owned_def)

lemma shrinks_owned: "shrinks X s s' \<Longrightarrow> owned s' \<subseteq> owned s"
  by (simp add: shrinks_def owned_mono)

lemma shrinks_trans:
  assumes "shrinks X s s1" "shrinks Y s1 s2"
  shows "shrinks (X \<union> Y) s s2"
  using assms shrinks_owned [OF assms(1)] shrinks_owned [OF assms(2)]
  unfolding shrinks_def by (auto intro: map_le_trans)

lemma shrinks_card:
  assumes "shrinks X s s'" "finite (dom (targets s))"
  shows "card (dom (targets s')) \<le> card (dom (targets s))"
  using assms by (auto simp: shrinks_def intro!: card_mono map_le_implies_dom_le)

text \<open>
  The contract of the release of a strong reference, as the destructors rely on it: when fewer than
  \<open>n\<close> targets are alive it returns, gives the reference back and shrinks the store, and the target
  dies exactly when no other reference to it is left.
\<close>

locale strong_release =
  fixes rel :: "cb_addr \<Rightarrow> store \<Rightarrow> store outcome" and n :: nat
  assumes rel_ok: "\<lbrakk>store_ok (add_mset t P) Q s; targets s t = Some ob; card (dom (targets s)) < n\<rbrakk> \<Longrightarrow>
    \<exists>s'. rel (tgt_control ob) s = Returns s' \<and> store_ok P Q s' \<and> shrinks {} s s' \<and>
      (targets s' t = None \<longleftrightarrow> occ (handles s) (Strong (Some t)) + count P t = 0) \<and>
      (targets s' t \<noteq> None \<longrightarrow> targets s' = targets s)"
begin

lemma strong_reset_ok:
  assumes ok: "store_ok P Q s" and h: "handles s h = Some (Strong p)" and n: "card (dom (targets s)) < n"
  shows "\<exists>s'. strong_reset_with rel h s = Returns s' \<and> store_ok P Q s' \<and>
    shrinks {} (put_handle h (Strong None) s) s' \<and>
    (\<forall>t. p = Some t \<longrightarrow>
      (targets s' t = None \<longleftrightarrow> occ (handles s) (Strong (Some t)) + count P t = 1) \<and>
      (targets s' t \<noteq> None \<longrightarrow> targets s' = targets s)) \<and>
    (p = None \<longrightarrow> targets s' = targets s)"
proof -
  let ?s = "put_handle h (Strong None) s"
  have ok': "store_ok (strong_ref_of (Some (Strong p)) + P) Q ?s"
    using put_handle_ok [of "Strong None" P Q s h] ok h by simp
  show ?thesis
  proof (cases p)
    case None
    then show ?thesis using ok' h
      by (auto simp: strong_reset_with_def strong_at_def Let_def intro!: shrinks_refl_on)
  next
    case (Some t)
    then obtain ob where ob: "targets s t = Some ob" using strong_handle_target [OF ok] h by blast
    have "occ (handles ?s) (Strong (Some t)) + 1 = occ (handles s) (Strong (Some t))"
      using occ_update [OF store_okD(1) [OF ok], of h "Strong None" "Strong (Some t)"] h Some
      by (simp add: put_handle_def)
    moreover have "\<exists>s'. rel (tgt_control ob) ?s = Returns s' \<and> store_ok P Q s' \<and> shrinks {} ?s s' \<and>
        (targets s' t = None \<longleftrightarrow> occ (handles ?s) (Strong (Some t)) + count P t = 0) \<and>
        (targets s' t \<noteq> None \<longrightarrow> targets s' = targets ?s)"
      using ok' Some ob n by (intro rel_ok) (simp_all add: put_handle_def)
    ultimately show ?thesis using h Some ob
      by (auto simp: strong_reset_with_def strong_at_def Let_def target_at_def put_handle_def)
  qed
qed

lemma handle_dtor_ok:
  assumes ok: "store_ok P Q s" and h: "handles s h \<noteq> None" "h \<notin> owned s"
    and n: "card (dom (targets s)) < n"
  shows "\<exists>s'. handle_dtor_with rel h s = Returns s' \<and> store_ok P Q s' \<and> shrinks {h} s s'"
proof -
  obtain v where v: "handles s h = Some v" using h(1) by blast
  show ?thesis
  proof (cases v)
    case (Strong p)
    obtain s' where s': "strong_reset_with rel h s = Returns s'" "store_ok P Q s'"
        "shrinks {} (put_handle h (Strong None) s) s'"
      using strong_reset_ok [OF ok _ n, of h p] v Strong by auto
    have hs: "handles s' h = Some (Strong None)" "h \<notin> owned s'"
      using s'(3) shrinks_owned [OF s'(3)] h(2) by (auto simp: shrinks_def)
    have "store_ok P Q (end_handle h s')" using end_handle_ok [OF s'(2) hs(2)] hs(1) by simp
    moreover have "shrinks {h} s (end_handle h s')"
      using s'(3) h(2) shrinks_owned [OF s'(3)] by (auto simp: shrinks_def)
    ultimately show ?thesis using s'(1) v Strong by (simp add: handle_dtor_with_def)
  next
    case (Weak p)
    have ok': "store_ok P (weak_ref_of (Some (Weak p)) + Q) (put_handle h (Weak None) s)"
      using put_handle_ok [of "Weak None" P Q s h] ok v Weak by simp
    obtain s' where s': "weak_reset h s = Returns s'" "store_ok P Q s'"
        "targets s' = targets s" "handles s' = (handles s)(h \<mapsto> Weak None)"
    proof (cases p)
      case None
      with that [of "put_handle h (Weak None) s"] ok' v Weak show thesis
        by (simp add: weak_reset_def weak_at_def Let_def put_handle_def)
    next
      case (Some c)
      with release_weak_ref_ok [of P c Q "put_handle h (Weak None) s"] ok' v Weak that
      show thesis by (auto simp: weak_reset_def weak_at_def Let_def put_handle_def)
    qed
    have own: "owned s' = owned s" using s'(3) by (simp add: owned_def)
    have "store_ok P Q (end_handle h s')"
      using end_handle_ok [OF s'(2), of h] own h(2) s'(4) by simp
    moreover have "shrinks {h} s (end_handle h s')"
      using s'(3,4) own by (auto simp: shrinks_def)
    ultimately show ?thesis using s'(1) v Weak by (simp add: handle_dtor_with_def)
  qed
qed

lemma members_dtor_ok:
  assumes "store_ok P Q s" "distinct hs" "\<forall>h \<in> set hs. handles s h \<noteq> None \<and> h \<notin> owned s"
    and "card (dom (targets s)) < n"
  shows "\<exists>s'. members_dtor_with rel hs s = Returns s' \<and> store_ok P Q s' \<and> shrinks (set hs) s s'"
  using assms
proof (induction hs arbitrary: s)
  case Nil
  then show ?case by (simp add: shrinks_refl_on)
next
  case (Cons h hs)
  obtain s1 where s1: "handle_dtor_with rel h s = Returns s1" "store_ok P Q s1" "shrinks {h} s s1"
    using handle_dtor_ok [OF Cons.prems(1) _ _ Cons.prems(4), of h] Cons.prems(3) by auto
  have own: "owned s1 \<subseteq> owned s" by (rule shrinks_owned [OF s1(3)])
  have "\<forall>x \<in> set hs. handles s1 x \<noteq> None \<and> x \<notin> owned s1"
  proof
    fix x assume x: "x \<in> set hs"
    then have "x \<noteq> h" "handles s x \<noteq> None" "x \<notin> owned s" using Cons.prems(2,3) by auto
    then show "handles s1 x \<noteq> None \<and> x \<notin> owned s1" using s1(3) own by (auto simp: shrinks_def)
  qed
  moreover have "card (dom (targets s1)) < n"
    using shrinks_card [OF s1(3) store_okD(2) [OF Cons.prems(1)]] Cons.prems(4) by simp
  ultimately obtain s2 where s2: "members_dtor_with rel hs s1 = Returns s2" "store_ok P Q s2"
      "shrinks (set hs) s1 s2"
    using Cons.IH [of s1] s1(2) Cons.prems(2) by auto
  then show ?case using s1(1) shrinks_trans [OF s1(3) s2(3)] by simp
qed

end

text \<open>Deleting a target: its members are destroyed, and its implicit weak reference is given back.\<close>

context strong_release
begin

lemma delete_target_ok:
  assumes ok: "store_ok (add_mset t P) Q s" and ob: "targets s t = Some ob"
    and b: "blocks s (tgt_control ob) = Some b" "strong_refs b = 1"
    and n: "card (dom (targets s)) \<le> n"
  shows "\<exists>s'. delete_target_with rel t
      (put_block (tgt_control ob) (b\<lparr>strong_refs := 0, cb_target := None\<rparr>) s) = Returns s' \<and>
    store_ok P Q s' \<and> shrinks {} s s' \<and> targets s' t = None"
proof -
  let ?s0 = "put_block (tgt_control ob) (b\<lparr>strong_refs := 0, cb_target := None\<rparr>) s"
  let ?s = "end_target t ?s0"
  have ok': "store_ok P (add_mset (tgt_control ob) Q) ?s" by (rule end_target_ok [OF ok ob b])
  have mem: "distinct (tgt_members ob)" "\<forall>h \<in> set (tgt_members ob). handles s h \<noteq> None"
    using store_okD(7) [OF ok] ob by (auto simp: members_ok_def)
  have "owned ?s = {h. \<exists>u a. u \<noteq> t \<and> targets s u = Some a \<and> h \<in> set (tgt_members a)}"
    by (auto simp: owned_def split: if_splits)
  moreover have "set (tgt_members a) \<inter> set (tgt_members ob) = {}" if "u \<noteq> t" "targets s u = Some a" for u a
    using store_okD(7) [OF ok] ob that unfolding members_ok_def by blast
  ultimately have own: "owned s = owned ?s \<union> set (tgt_members ob)" "owned ?s \<inter> set (tgt_members ob) = {}"
    using ob by (auto simp: owned_def) (metis option.inject)
  have "card (dom (targets s) - {t}) < card (dom (targets s))"
    using ob store_okD(2) [OF ok] by (intro card_Diff1_less) auto
  then have "card (dom (targets ?s)) < n" using n by (simp del: card_Diff_insert)
  then obtain s1 where s1: "members_dtor_with rel (rev (tgt_members ob)) ?s = Returns s1"
      "store_ok P (add_mset (tgt_control ob) Q) s1" "shrinks (set (tgt_members ob)) ?s s1"
    using members_dtor_ok [OF ok', of "rev (tgt_members ob)"] mem own by auto
  obtain s2 where s2: "release_weak_ref (tgt_control ob) s1 = Returns s2" "store_ok P Q s2"
      "targets s2 = targets s1" "handles s2 = handles s1"
    using release_weak_ref_ok [OF s1(2)] by blast
  have own2: "owned s2 = owned s1" using s2(3) by (simp add: owned_def)
  have gone: "targets s1 t = None"
  proof -
    have "dom (targets s1) \<subseteq> dom (targets ?s)"
      using s1(3) by (simp only: shrinks_def map_le_implies_dom_le)
    then show ?thesis by auto
  qed
  have le: "targets s1 \<subseteq>\<^sub>m targets s"
    using s1(3) by (auto simp: shrinks_def intro: map_le_trans [OF _ upd_None_map_le])
  have hs: "handles s1 h = (if h \<in> set (tgt_members ob) \<or> h \<in> owned ?s \<and> h \<notin> owned s1 then None
      else handles s h)" for h
    using s1(3) by (simp add: shrinks_def)
  have "owned s1 \<inter> set (tgt_members ob) = {}" using shrinks_owned [OF s1(3)] own(2) by blast
  then have "shrinks {} s s2"
    unfolding shrinks_def own2 s2(3,4) hs own(1) using le by auto
  then show ?thesis
    using s1(1) s2 gone ob by (auto simp: delete_target_with_def target_at_def)
qed

end

lemma strong_release_ok: "strong_release (release_strong_ref n) n"
proof (induction n)
  case 0
  show ?case by unfold_locales simp
next
  case (Suc n)
  show ?case
  proof
    fix t P Q s ob
    assume ok: "store_ok (add_mset t P) Q s" and ob: "targets s t = Some ob"
      and n: "card (dom (targets s)) < Suc n"
    obtain b where b: "blocks s (tgt_control ob) = Some b" "cb_target b = Some t"
        "unat (strong_refs b) = occ (handles s) (Strong (Some t)) + count (add_mset t P) t"
      using target_block [OF ok ob] by blast
    show "\<exists>s'. release_strong_ref (Suc n) (tgt_control ob) s = Returns s' \<and> store_ok P Q s' \<and>
        shrinks {} s s' \<and>
        (targets s' t = None \<longleftrightarrow> occ (handles s) (Strong (Some t)) + count P t = 0) \<and>
        (targets s' t \<noteq> None \<longrightarrow> targets s' = targets s)"
    proof (cases "strong_refs b = 1")
      case True
      then show ?thesis
        using strong_release.delete_target_ok [OF Suc ok ob b(1) True] n b
        by (fastforce simp: block_at_def Let_def)
    next
      case False
      then have "occ (handles s) (Strong (Some t)) + count P t \<noteq> 0"
        using b(3) by (intro notI) (simp add: word_unat_eq_iff)
      then show ?thesis
        using False drop_strong_ok [OF ok b(1,2) False] b ob
        by (auto simp: block_at_def Let_def intro!: shrinks_refl_on)
    qed
  qed
qed

interpretation release: strong_release "release_strong_ref n" n for n
  by (rule strong_release_ok)

end
