(* ===== verification/IntrusiveOperations.thy ===== *)
theory IntrusiveOperations
  imports IntrusiveSafety
begin

text \<open>
  What the operations of \<open>core/intrusive_ptr.h\<close> do to a store that satisfies the invariant: each of them
  returns and keeps it.
\<close>

abbreviation "quiescent \<equiv> store_ok {#} {#}"

section \<open>Writing handles\<close>

lemma put_block_put_handle: "put_block c b (put_handle h v s) = put_handle h v (put_block c b s)"
  by (simp add: put_block_def put_handle_def)

lemma put_fresh_ok:
  assumes "store_ok (strong_ref_of (Some v) + P) (weak_ref_of (Some v) + Q) s"
    "strong_ref_of (handles s h) = {#}" "weak_ref_of (handles s h) = {#}"
  shows "store_ok P Q (put_handle h v s)"
  using put_handle_ok [OF assms(1), of h] assms(2,3) by simp

lemma put_null_ok:
  assumes "store_ok P Q s" "v = Strong None \<or> v = Weak None"
  shows "store_ok (strong_ref_of (handles s h) + P) (weak_ref_of (handles s h) + Q) (put_handle h v s)"
  using put_handle_ok [of v P Q s h] assms by auto

text \<open>A reference moves from one handle to another.\<close>

lemma move_strong_ok:
  assumes ok: "quiescent s" and o: "handles s other = Some (Strong p)"
    and h: "strong_ref_of (handles s h) = {#}" "weak_ref_of (handles s h) = {#}" "h \<noteq> other"
  shows "quiescent (put_handle h (Strong p) (put_handle other (Strong None) s))"
  using put_null_ok [OF ok, of "Strong None" other] o h by (simp add: put_fresh_ok)

lemma move_weak_ok:
  assumes ok: "quiescent s" and o: "handles s other = Some (Weak p)"
    and h: "strong_ref_of (handles s h) = {#}" "weak_ref_of (handles s h) = {#}" "h \<noteq> other"
  shows "quiescent (put_handle h (Weak p) (put_handle other (Weak None) s))"
  using put_null_ok [OF ok, of "Weak None" other] o h by (simp add: put_fresh_ok)

lemma swap_strong_ok:
  assumes ok: "quiescent s" and h: "handles s h = Some (Strong p)" and o: "handles s k = Some (Strong q)"
  shows "quiescent (put_handle k (Strong p) (put_handle h (Strong q) s))"
proof (cases "h = k")
  case True
  then show ?thesis using ok h o by (simp add: put_handle_twice put_handle_same)
next
  case False
  have 1: "store_ok (strong_ref_of (Some (Strong p))) {#} (put_handle h (Strong None) s)"
    using put_null_ok [OF ok, of "Strong None" h] h by simp
  have 2: "store_ok (strong_ref_of (Some (Strong q))) {#}
      (put_handle k (Strong p) (put_handle h (Strong None) s))"
    using put_handle_ok [of "Strong p" "{#}" "{#}" "put_handle h (Strong None) s" k] 1 o False by simp
  have "quiescent (put_handle h (Strong q) (put_handle k (Strong p) (put_handle h (Strong None) s)))"
    using 2 False by (simp add: put_fresh_ok)
  then show ?thesis using False
    by (simp add: put_handle_twist [of h k] put_handle_twice)
qed

lemma swap_weak_ok:
  assumes ok: "quiescent s" and h: "handles s h = Some (Weak p)" and o: "handles s k = Some (Weak q)"
  shows "quiescent (put_handle k (Weak p) (put_handle h (Weak q) s))"
proof (cases "h = k")
  case True
  then show ?thesis using ok h o by (simp add: put_handle_twice put_handle_same)
next
  case False
  have 1: "store_ok {#} (weak_ref_of (Some (Weak p))) (put_handle h (Weak None) s)"
    using put_null_ok [OF ok, of "Weak None" h] h by simp
  have 2: "store_ok {#} (weak_ref_of (Some (Weak q)))
      (put_handle k (Weak p) (put_handle h (Weak None) s))"
    using put_handle_ok [of "Weak p" "{#}" "{#}" "put_handle h (Weak None) s" k] 1 o False by simp
  have "quiescent (put_handle h (Weak q) (put_handle k (Weak p) (put_handle h (Weak None) s)))"
    using 2 False by (simp add: put_fresh_ok)
  then show ?thesis using False
    by (simp add: put_handle_twist [of h k] put_handle_twice)
qed

section \<open>Bounds of the counts\<close>

text \<open>A handle takes eight bytes of a 64-bit address space, so fewer than \<open>2 ^ 61\<close> are alive.\<close>

definition handles_fit :: "store \<Rightarrow> bool" where
  "handles_fit s \<longleftrightarrow> card (dom (handles s)) < 2 ^ 61"

lemma occ_le_card: "finite (dom m) \<Longrightarrow> occ m v \<le> card (dom m)"
  unfolding occ_def by (rule card_mono) auto

lemma u_max_bound: "unat (x :: size_t) \<le> 2 ^ 61 \<Longrightarrow> x \<noteq> u_max"
proof
  assume "unat x \<le> 2 ^ 61" and "x = u_max"
  moreover have "unat (u_max :: size_t) = 2 ^ 64 - 1" unfolding unat_eq_nat_uint by simp
  ultimately show False by simp
qed

lemma strong_refs_bound:
  assumes "quiescent s" "handles_fit s" "blocks s c = Some b"
  shows "strong_refs b \<noteq> u_max"
proof (cases "cb_target b")
  case None
  then show ?thesis using strong_okD(1) [OF store_okD(5) [OF assms(1)] assms(3)]
    by (simp add: u_max_def)
next
  case (Some t)
  have "unat (strong_refs b) = occ (handles s) (Strong (Some t))"
    using strong_okD(2) [OF store_okD(5) [OF assms(1)] assms(3) Some] by simp
  also have "\<dots> \<le> 2 ^ 61"
    using occ_le_card [OF store_okD(1) [OF assms(1)], of "Strong (Some t)"] assms(2)
    by (simp add: handles_fit_def)
  finally show ?thesis by (rule u_max_bound)
qed

lemma weak_refs_bound:
  assumes "quiescent s" "handles_fit s" "blocks s c = Some b"
  shows "weak_refs b \<noteq> u_max"
proof -
  have "unat (weak_refs b) \<le> occ (handles s) (Weak (Some c)) + 1"
    using weak_okD [OF store_okD(6) [OF assms(1)] assms(3)] by simp
  also have "\<dots> \<le> 2 ^ 61"
    using occ_le_card [OF store_okD(1) [OF assms(1)], of "Weak (Some c)"] assms(2)
    by (simp add: handles_fit_def)
  finally show ?thesis by (rule u_max_bound)
qed

section \<open>The operations\<close>

lemma strong_copy_ctor_ok:
  assumes ok: "quiescent s" "handles_fit s" and o: "handles s other = Some (Strong p)"
    and h: "handles s h = None"
  shows "\<exists>s'. strong_copy_ctor h other s = Returns s' \<and> quiescent s' \<and>
    targets s' = targets s \<and> handles s' = (handles s)(h \<mapsto> Strong p)"
proof (cases p)
  case None
  then show ?thesis using o h put_fresh_ok [of "Strong None" "{#}" "{#}" s h] ok
    by (simp add: strong_copy_ctor_def strong_at_def Let_def)
next
  case (Some t)
  obtain ob where ob: "targets s t = Some ob" using strong_handle_target [OF ok(1)] o Some by blast
  obtain b where b: "blocks s (tgt_control ob) = Some b" "cb_target b = Some t"
    using target_block [OF ok(1) ob] by blast
  have n: "strong_refs b \<noteq> u_max" by (rule strong_refs_bound [OF ok b(1)])
  have "quiescent (put_handle h (Strong p) (put_block (tgt_control ob) (b\<lparr>strong_refs := strong_refs b + 1\<rparr>) s))"
    using retain_strong_ok [OF ok(1) b n] Some h by (simp add: put_fresh_ok)
  then show ?thesis using o h Some ob b n
    by (simp add: strong_copy_ctor_def strong_at_def Let_def target_at_def retain_strong_ref_def
        block_at_def increment_ref_count_def put_block_put_handle)
qed

lemma retain_weak_handle_ok:
  assumes ok: "quiescent s" "handles_fit s" and b: "blocks s c = Some b" and h: "handles s h = None"
  shows "\<exists>s'. retain_weak_ref c (put_handle h (Weak (Some c)) s) = Returns s' \<and> quiescent s' \<and>
    targets s' = targets s \<and> handles s' = (handles s)(h \<mapsto> Weak (Some c))"
proof -
  have n: "weak_refs b \<noteq> u_max" by (rule weak_refs_bound [OF ok b])
  have "quiescent (put_handle h (Weak (Some c)) (put_block c (b\<lparr>weak_refs := weak_refs b + 1\<rparr>) s))"
    using retain_weak_ok [OF ok(1) b n] h by (simp add: put_fresh_ok)
  then show ?thesis using b n
    by (simp add: retain_weak_ref_def block_at_def increment_ref_count_def put_block_put_handle)
qed

lemma put_null_fresh_ok:
  assumes "quiescent s" "handles s h = None" "v = Strong None \<or> v = Weak None"
  shows "quiescent (put_handle h v s)"
  using put_null_ok [OF assms(1,3), of h] assms(2) by simp

lemma weak_from_strong_ok:
  assumes ok: "quiescent s" "handles_fit s" and o: "handles s strong = Some (Strong p)"
    and h: "handles s h = None"
  shows "\<exists>s' q. weak_from_strong h strong s = Returns s' \<and> quiescent s' \<and> targets s' = targets s \<and>
    handles s' = (handles s)(h \<mapsto> Weak q)"
proof (cases p)
  case None
  then show ?thesis using o h put_null_fresh_ok [OF ok(1) h]
    by (auto simp: weak_from_strong_def strong_at_def)
next
  case (Some t)
  obtain ob where ob: "targets s t = Some ob" using strong_handle_target [OF ok(1)] o Some by blast
  obtain b where b: "blocks s (tgt_control ob) = Some b"
    using target_block [OF ok(1) ob] by blast
  then show ?thesis using o Some ob retain_weak_handle_ok [OF ok b h]
    by (auto simp: weak_from_strong_def strong_at_def target_at_def)
qed

lemma weak_copy_ctor_ok:
  assumes ok: "quiescent s" "handles_fit s" and o: "handles s other = Some (Weak p)"
    and h: "handles s h = None"
  shows "\<exists>s'. weak_copy_ctor h other s = Returns s' \<and> quiescent s' \<and>
    targets s' = targets s \<and> handles s' = (handles s)(h \<mapsto> Weak p)"
proof (cases p)
  case None
  then show ?thesis using o h put_null_fresh_ok [OF ok(1) h]
    by (simp add: weak_copy_ctor_def weak_at_def Let_def)
next
  case (Some c)
  obtain b where "blocks s c = Some b" using weak_handle_block [OF ok(1)] o Some by blast
  then show ?thesis using o Some retain_weak_handle_ok [OF ok _ h]
    by (simp add: weak_copy_ctor_def weak_at_def Let_def)
qed

lemma move_ctor_ok:
  assumes ok: "quiescent s" and h: "handles s h = None"
  shows "handles s other = Some (Strong p) \<Longrightarrow>
      \<exists>s'. strong_move_ctor h other s = Returns s' \<and> quiescent s' \<and> targets s' = targets s \<and>
        handles s' = (handles s)(other \<mapsto> Strong None, h \<mapsto> Strong p)"
    and "handles s other = Some (Weak q) \<Longrightarrow>
      \<exists>s'. weak_move_ctor h other s = Returns s' \<and> quiescent s' \<and> targets s' = targets s \<and>
        handles s' = (handles s)(other \<mapsto> Weak None, h \<mapsto> Weak q)"
  using move_strong_ok [OF ok, of other p h] move_weak_ok [OF ok, of other q h] h
  by (cases "h = other", simp_all add: strong_move_ctor_def strong_at_def weak_move_ctor_def weak_at_def)+

text \<open>The destructors are the ones a target runs for its members.\<close>

lemma strong_dtor_is: "handles s h = Some (Strong p) \<Longrightarrow>
    strong_dtor n h s = handle_dtor_with (release_strong_ref n) h s"
  by (simp add: strong_dtor_def strong_reset_def handle_dtor_with_def)

lemma weak_dtor_is: "handles s h = Some (Weak p) \<Longrightarrow> weak_dtor h s = handle_dtor_with rel h s"
  by (simp add: weak_dtor_def handle_dtor_with_def)

lemma weak_dtor_ok:
  assumes "quiescent s" "handles s h = Some (Weak p)" "h \<notin> owned s"
  shows "\<exists>s'. weak_dtor h s = Returns s' \<and> quiescent s' \<and> shrinks {h} s s'"
  using release.handle_dtor_ok [of "{#}" "{#}" s h "Suc (card (dom (targets s)))"] assms
  by (simp add: weak_dtor_is [OF assms(2), of "release_strong_ref (Suc (card (dom (targets s))))"])

lemma weak_reset_ok:
  assumes ok: "quiescent s" and h: "handles s h = Some (Weak p)"
  shows "\<exists>s'. weak_reset h s = Returns s' \<and> quiescent s' \<and> targets s' = targets s \<and>
    handles s' = (handles s)(h \<mapsto> Weak None)"
proof -
  have ok': "store_ok {#} (weak_ref_of (Some (Weak p))) (put_handle h (Weak None) s)"
    using put_null_ok [OF ok, of "Weak None" h] h by simp
  show ?thesis
  proof (cases p)
    case None
    then show ?thesis using ok' h by (simp add: weak_reset_def weak_at_def)
  next
    case (Some c)
    then show ?thesis
      using release_weak_ref_ok [of "{#}" c "{#}" "put_handle h (Weak None) s"] ok' h
      by (auto simp: weak_reset_def weak_at_def)
  qed
qed

lemma handles_kept:
  assumes "shrinks X s s'" "h \<notin> X" "h \<notin> owned s \<or> targets s' = targets s"
  shows "handles s' h = handles s h"
proof -
  have "targets s' = targets s \<Longrightarrow> owned s' = owned s" by (simp add: owned_def)
  then show ?thesis using assms by (auto simp: shrinks_def)
qed

lemma swap_ok:
  assumes "quiescent s"
  shows "handles s h = Some (Strong p) \<Longrightarrow> handles s k = Some (Strong q) \<Longrightarrow>
      \<exists>s'. strong_swap h k s = Returns s' \<and> quiescent s' \<and> targets s' = targets s \<and>
        handles s' = (handles s)(h \<mapsto> Strong q, k \<mapsto> Strong p)"
    and "handles s h = Some (Weak p') \<Longrightarrow> handles s k = Some (Weak q') \<Longrightarrow>
      \<exists>s'. weak_swap h k s = Returns s' \<and> quiescent s' \<and> targets s' = targets s \<and>
        handles s' = (handles s)(h \<mapsto> Weak q', k \<mapsto> Weak p')"
  using swap_strong_ok [OF assms, of h p k q] swap_weak_ok [OF assms, of h p' k q']
  by (simp_all add: strong_swap_def strong_at_def weak_swap_def weak_at_def)

lemma owned_cong: "targets s' = targets s \<Longrightarrow> owned s' = owned s"
  by (simp add: owned_def)

lemma not_owned_fresh: "quiescent s \<Longrightarrow> handles s h = None \<Longrightarrow> h \<notin> owned s"
  using owned_alive by blast

lemma strong_copy_assign_ok:
  assumes ok: "quiescent s" "handles_fit s" and h: "handles s this = Some (Strong p)"
    and o: "handles s other = Some (Strong q)" and t: "handles s tmp = None"
    and n: "card (dom (targets s)) < n"
  shows "\<exists>s'. strong_copy_assign n tmp this other s = Returns s' \<and> quiescent s'"
proof (cases "this = other")
  case True
  then show ?thesis using ok by (simp add: strong_copy_assign_def)
next
  case False
  obtain s1 where s1: "strong_copy_ctor tmp other s = Returns s1" "quiescent s1" "targets s1 = targets s"
      "handles s1 = (handles s)(tmp \<mapsto> Strong q)"
    using strong_copy_ctor_ok [OF ok o t] by blast
  have "this \<noteq> tmp" using h t by auto
  then have h1: "handles s1 this = Some (Strong p)" "handles s1 tmp = Some (Strong q)"
    using s1(4) h by simp_all
  obtain s2 where s2: "strong_swap this tmp s1 = Returns s2" "quiescent s2" "targets s2 = targets s1"
      "handles s2 = (handles s1)(this \<mapsto> Strong q, tmp \<mapsto> Strong p)"
    using swap_ok(1) [OF s1(2) h1] by blast
  have "tmp \<notin> owned s2" using not_owned_fresh [OF ok(1) t] s1(3) s2(3) by (simp add: owned_def)
  moreover have tmp: "handles s2 tmp = Some (Strong p)" using s2(4) by simp
  ultimately obtain s3 where "handle_dtor_with (release_strong_ref n) tmp s2 = Returns s3" "quiescent s3"
    using release.handle_dtor_ok [of "{#}" "{#}" s2 tmp n] s2(2,3) s1(3) n by auto
  then show ?thesis using False s1(1) s2(1) by (simp add: strong_copy_assign_def strong_dtor_is [OF tmp])
qed

lemma weak_copy_assign_ok:
  assumes ok: "quiescent s" "handles_fit s" and h: "handles s this = Some (Weak p)"
    and o: "handles s other = Some (Weak q)" and t: "handles s tmp = None"
  shows "\<exists>s'. weak_copy_assign tmp this other s = Returns s' \<and> quiescent s'"
proof (cases "this = other")
  case True
  then show ?thesis using ok by (simp add: weak_copy_assign_def)
next
  case False
  obtain s1 where s1: "weak_copy_ctor tmp other s = Returns s1" "quiescent s1" "targets s1 = targets s"
      "handles s1 = (handles s)(tmp \<mapsto> Weak q)"
    using weak_copy_ctor_ok [OF ok o t] by blast
  have "this \<noteq> tmp" using h t by auto
  then have h1: "handles s1 this = Some (Weak p)" "handles s1 tmp = Some (Weak q)"
    using s1(4) h by simp_all
  obtain s2 where s2: "weak_swap this tmp s1 = Returns s2" "quiescent s2" "targets s2 = targets s1"
      "handles s2 = (handles s1)(this \<mapsto> Weak q, tmp \<mapsto> Weak p)"
    using swap_ok(2) [OF s1(2) h1] by blast
  have "tmp \<notin> owned s2" using not_owned_fresh [OF ok(1) t] s1(3) s2(3) by (simp add: owned_def)
  moreover have "handles s2 tmp = Some (Weak p)" using s2(4) by simp
  ultimately show ?thesis
    using weak_dtor_ok [OF s2(2)] False s1(1) s2(1) by (auto simp: weak_copy_assign_def)
qed

text \<open>
  Move assignment is defined when both handles outlive the reset of \<open>*this\<close>: when neither is a member
  of a target, or the target \<open>*this\<close> points to is not destroyed by it.
\<close>

definition move_assign_safe :: "handle_addr \<Rightarrow> handle_addr \<Rightarrow> store \<Rightarrow> bool" where
  "move_assign_safe this other s \<longleftrightarrow> this = other \<or> (this \<notin> owned s \<and> other \<notin> owned s) \<or>
     (case handles s this of Some (Strong (Some t)) \<Rightarrow> occ (handles s) (Strong (Some t)) \<noteq> 1 | _ \<Rightarrow> True)"

lemma strong_move_assign_ok:
  assumes ok: "quiescent s" and h: "handles s this = Some (Strong p)"
    and o: "handles s other = Some (Strong q)" and safe: "move_assign_safe this other s"
    and n: "card (dom (targets s)) < n"
  shows "\<exists>s'. strong_move_assign n this other s = Returns s' \<and> quiescent s'"
proof (cases "this = other")
  case True
  then show ?thesis using ok by (simp add: strong_move_assign_def)
next
  case False
  obtain s1 where s1: "strong_reset n this s = Returns s1" "quiescent s1"
      "shrinks {} (put_handle this (Strong None) s) s1"
      "\<forall>t. p = Some t \<longrightarrow> (targets s1 t = None \<longleftrightarrow> occ (handles s) (Strong (Some t)) = 1) \<and>
        (targets s1 t \<noteq> None \<longrightarrow> targets s1 = targets s)" "p = None \<longrightarrow> targets s1 = targets s"
    using release.strong_reset_ok [OF ok h n] by (auto simp: strong_reset_def)
  have "(this \<notin> owned s \<and> other \<notin> owned s) \<or> targets s1 = targets s"
    using safe False h s1(4,5) by (auto simp: move_assign_safe_def split: option.splits)
  then have h1: "handles s1 this = Some (Strong None)" "handles s1 other = Some (Strong q)"
    using handles_kept [OF s1(3), of this] handles_kept [OF s1(3), of other] o False by auto
  have "quiescent (put_handle this (Strong q) (put_handle other (Strong None) s1))"
    using move_strong_ok [OF s1(2) h1(2), of this] h1(1) False by simp
  then show ?thesis using False s1(1) h1 by (simp add: strong_move_assign_def strong_at_def)
qed

lemma weak_move_assign_ok:
  assumes ok: "quiescent s" and h: "handles s this = Some (Weak p)"
    and o: "handles s other = Some (Weak q)"
  shows "\<exists>s'. weak_move_assign this other s = Returns s' \<and> quiescent s'"
proof (cases "this = other")
  case True
  then show ?thesis using ok by (simp add: weak_move_assign_def)
next
  case False
  obtain s1 where s1: "weak_reset this s = Returns s1" "quiescent s1"
      "handles s1 = (handles s)(this \<mapsto> Weak None)"
    using weak_reset_ok [OF ok h] by blast
  then have "handles s1 this = Some (Weak None)" "handles s1 other = Some (Weak q)" using o False by auto
  then show ?thesis
    using move_weak_ok [OF s1(2), of other q this] False s1(1)
    by (simp add: weak_move_assign_def weak_at_def)
qed

subsection \<open>New targets\<close>

definition put_target :: "target_addr \<Rightarrow> IntrusivePtrTarget \<Rightarrow> store \<Rightarrow> store" where
  "put_target t ob s = s\<lparr>targets := (targets s)(t \<mapsto> ob)\<rparr>"

lemma put_target_simps [simp]:
  "handles (put_target t ob s) = handles s" "blocks (put_target t ob s) = blocks s"
  "targets (put_target t ob s) = (targets s)(t \<mapsto> ob)"
  by (simp_all add: put_target_def)

lemma put_members_simps [simp]:
  "targets (put_members ms s) = targets s" "blocks (put_members ms s) = blocks s"
  unfolding put_members_def by (induction ms arbitrary: s) auto

lemma put_members_alive: "handles s m \<noteq> None \<or> m \<in> fst ` set ms \<Longrightarrow> handles (put_members ms s) m \<noteq> None"
  unfolding put_members_def by (induction ms arbitrary: s) auto

lemma put_members_other: "m \<notin> fst ` set ms \<Longrightarrow> handles (put_members ms s) m = handles s m"
  unfolding put_members_def by (induction ms arbitrary: s) auto

lemma put_members_target: "put_members ms (put_target t ob (put_block c b s)) =
    put_target t ob (put_block c b (put_members ms s))"
proof (induction ms arbitrary: s)
  case Nil
  then show ?case by (simp add: put_members_def)
next
  case (Cons mk ms)
  have twist: "put_handle m v (put_target t ob (put_block c b s)) =
      put_target t ob (put_block c b (put_handle m v s))" for m v
    by (simp add: put_handle_def put_target_def put_block_def)
  show ?case using Cons by (simp add: put_members_def split_beta twist)
qed

lemma put_members_ok:
  "quiescent s \<Longrightarrow> distinct (map fst ms) \<Longrightarrow> \<forall>m \<in> fst ` set ms. handles s m = None \<Longrightarrow>
    quiescent (put_members ms s)"
proof (induction ms arbitrary: s)
  case Nil
  then show ?case by (simp add: put_members_def)
next
  case (Cons mk ms)
  obtain m k where mk: "mk = (m, k)" by (cases mk)
  have "quiescent (put_handle m (null_handle k) s)"
    using Cons.prems mk by (cases k) (auto intro: put_null_fresh_ok)
  then have "quiescent (put_members ms (put_handle m (null_handle k) s))"
    using Cons.prems mk by (intro Cons.IH) auto
  then show ?case using mk by (simp add: put_members_def)
qed

lemma new_target_ok:
  assumes ok: "quiescent s" and c: "blocks s c = None" and t: "targets s t = None"
    and mem: "distinct ms" "\<forall>m \<in> set ms. handles s m \<noteq> None \<and> m \<notin> owned s"
  shows "store_ok {#t#} {#} (put_target t \<lparr>tgt_control = c, tgt_members = ms\<rparr>
    (put_block c \<lparr>strong_refs = 1, weak_refs = 1, cb_target = Some t\<rparr> s))"
    (is "store_ok _ _ ?s")
proof -
  note d = store_okD [OF ok]
  have o1: "occ (handles s) (Strong (Some t)) = 0"
    using strong_handle_target [OF ok] t by (fastforce simp: occ_zero_iff [OF d(1)])
  have o2: "occ (handles s) (Weak (Some c)) = 0"
    using weak_handle_block [OF ok] c by (fastforce simp: occ_zero_iff [OF d(1)])
  have nc: "tgt_control ob \<noteq> c" if "targets s u = Some ob" for u ob
    using target_block [OF ok that] c by fastforce
  have "refs_live {#t#} {#} ?s" using d(3) by (auto simp: refs_live_def)
  moreover have "targets_ok ?s" using d(4) nc by (auto simp: targets_ok_def)
  moreover have "strong_ok {#t#} ?s"
  proof (rule strong_okI)
    fix c' b' assume b': "blocks ?s c' = Some b'"
    show "cb_target b' = None \<Longrightarrow> strong_refs b' = 0"
      using b' strong_okD(1) [OF d(5), of c' b'] by (auto split: if_splits)
    fix u assume u: "cb_target b' = Some u"
    show "(\<exists>ob. targets ?s u = Some ob \<and> tgt_control ob = c') \<and> strong_refs b' \<noteq> 0 \<and>
        unat (strong_refs b') = occ (handles ?s) (Strong (Some u)) + count {#t#} u"
    proof (cases "c' = c")
      case True
      then show ?thesis using b' u o1 by auto
    next
      case False
      then have old: "blocks s c' = Some b'" using b' by simp
      have "u \<noteq> t" using strong_okD(2) [OF d(5) old u] t by auto
      then show ?thesis using strong_okD(2) [OF d(5) old u] by simp
    qed
  qed
  moreover have "weak_ok {#} ?s"
    using d(6) o2 by (auto simp: weak_ok_def)
  moreover have "members_ok ?s"
    using d(7) mem t by (fastforce simp: members_ok_def owned_def)
  ultimately show ?thesis using d(1,2) by (simp add: store_ok_def)
qed

lemma make_intrusive_ok:
  assumes ok: "quiescent s" and c: "blocks s c = None" and t: "targets s t = None"
    and d: "distinct (h # map fst ms)" "\<forall>m \<in> set (h # map fst ms). handles s m = None"
  shows "\<exists>s'. make_intrusive c t ms h s = Returns s' \<and> quiescent s' \<and> targets s' t \<noteq> None"
proof -
  let ?b = "\<lparr>strong_refs = 1, weak_refs = 1, cb_target = Some t\<rparr>"
  let ?ob = "\<lparr>tgt_control = c, tgt_members = map fst ms\<rparr>"
  have 1: "quiescent (put_members ms s)" using put_members_ok [OF ok] d by auto
  have "owned (put_members ms s) = owned s" by (simp add: owned_def)
  then have own: "\<forall>m \<in> set (map fst ms). handles (put_members ms s) m \<noteq> None \<and> m \<notin> owned (put_members ms s)"
    using put_members_alive [of s _ ms] not_owned_fresh [OF ok] d(2) by auto
  have "store_ok {#t#} {#} (put_target t ?ob (put_block c ?b (put_members ms s)))"
    using new_target_ok [OF 1, of c t "map fst ms"] c t d own by simp
  then have "quiescent (put_handle h (Strong (Some t)) (put_members ms (put_target t ?ob (put_block c ?b s))))"
    using d by (simp add: put_fresh_ok put_members_target put_members_other)
  then show ?thesis by (simp add: make_intrusive_def Let_def put_target_def)
qed

subsection \<open>Locking a weak handle\<close>

lemma weak_lock_ok:
  assumes ok: "quiescent s" "handles_fit s" and w: "handles s w = Some (Weak p)" and h: "handles s h = None"
  shows "\<exists>s' q. weak_lock h w s = Returns s' \<and> quiescent s' \<and> targets s' = targets s \<and>
    handles s' = (handles s)(h \<mapsto> Strong q) \<and>
    (q = (case p of None \<Rightarrow> None | Some c \<Rightarrow> (case blocks s c of None \<Rightarrow> None | Some b \<Rightarrow> cb_target b)))"
proof (cases p)
  case None
  then show ?thesis using w put_null_fresh_ok [OF ok(1) h] by (simp add: weak_lock_def weak_at_def)
next
  case (Some c)
  obtain b where b: "blocks s c = Some b" using weak_handle_block [OF ok(1)] w Some by blast
  note e = strong_okD [OF store_okD(5) [OF ok(1)] b]
  show ?thesis
  proof (cases "cb_target b")
    case None
    then show ?thesis using w Some b e(1) put_null_fresh_ok [OF ok(1) h]
      by (simp add: weak_lock_def weak_at_def try_retain_strong_ref_def block_at_def)
  next
    case (Some t)
    have n: "strong_refs b \<noteq> u_max" by (rule strong_refs_bound [OF ok b])
    have "quiescent (put_handle h (Strong (Some t)) (put_block c (b\<lparr>strong_refs := strong_refs b + 1\<rparr>) s))"
      using retain_strong_ok [OF ok(1) b Some n] h by (simp add: put_fresh_ok)
    then show ?thesis using w \<open>p = Some c\<close> b e(2) Some
      by (simp add: weak_lock_def weak_at_def try_retain_strong_ref_def block_at_def)
  qed
qed

section \<open>Addresses\<close>

text \<open>Whether a handle can be made at an address, and which kind of handle is alive there.\<close>

definition free_at :: "store \<Rightarrow> handle_addr \<Rightarrow> bool" where
  "free_at s h \<longleftrightarrow> handles s h = None"

definition strong_at_addr :: "store \<Rightarrow> handle_addr \<Rightarrow> bool" where
  "strong_at_addr s h \<longleftrightarrow> (case handles s h of Some (Strong _) \<Rightarrow> True | _ \<Rightarrow> False)"

definition weak_at_addr :: "store \<Rightarrow> handle_addr \<Rightarrow> bool" where
  "weak_at_addr s h \<longleftrightarrow> (case handles s h of Some (Weak _) \<Rightarrow> True | _ \<Rightarrow> False)"

lemma strong_at_addr_iff: "strong_at_addr s h \<longleftrightarrow> (\<exists>p. handles s h = Some (Strong p))"
  by (auto simp: strong_at_addr_def split: option.splits handle.splits)

lemma weak_at_addr_iff: "weak_at_addr s h \<longleftrightarrow> (\<exists>p. handles s h = Some (Weak p))"
  by (auto simp: weak_at_addr_def split: option.splits handle.splits)

lemmas addr_iffs = strong_at_addr_iff weak_at_addr_iff free_at_def

end
