(* ===== verification/IntrusiveThrows.thy ===== *)
theory IntrusiveThrows
  imports IntrusiveOperations
begin

text \<open>
  \<open>make_intrusive\<close> when the constructor of the object throws after it has initialised some of the members:
  the members are destroyed as if they had been local handles, and nothing of the object is left.
\<close>

section \<open>A control block nothing refers to\<close>

text \<open>
  While a target is being constructed its control block is in the store but no reference to it. What an
  operation does in a store without the block, it does in the one with it, and leaves the block alone.
\<close>

definition framed :: "cb_addr \<Rightarrow> IntrusiveControlBlock \<Rightarrow> (store \<Rightarrow> store outcome) \<Rightarrow> bool" where
  "framed c b f \<longleftrightarrow> (\<forall>s s'. blocks s c = None \<longrightarrow> f s = Returns s' \<longrightarrow>
     blocks s' c = None \<and> f (put_block c b s) = Returns (put_block c b s'))"

lemma framedD:
  "framed c b f \<Longrightarrow> blocks s c = None \<Longrightarrow> f s = Returns s' \<Longrightarrow>
    blocks s' c = None \<and> f (put_block c b s) = Returns (put_block c b s')"
  by (simp add: framed_def)

lemma framed_bnd: "framed c b f \<Longrightarrow> framed c b g \<Longrightarrow> framed c b (\<lambda>s. bnd (f s) g)"
  unfolding framed_def bnd_eq_Returns by (metis outcome.inject(1) bnd.simps(1))

lemma frame_reads [simp]:
  "strong_at h (put_block c b s) = strong_at h s" "weak_at h (put_block c b s) = weak_at h s"
  "target_at t (put_block c b s) = target_at t s"
  by (simp_all add: strong_at_def weak_at_def target_at_def)

lemma frame_writes:
  "put_handle h v (put_block c b s) = put_block c b (put_handle h v s)"
  "end_handle h (put_block c b s) = put_block c b (end_handle h s)"
  "end_target t (put_block c b s) = put_block c b (end_target t s)"
  "c' \<noteq> c \<Longrightarrow> put_block c' b' (put_block c b s) = put_block c b (put_block c' b' s)"
  "c' \<noteq> c \<Longrightarrow> free_block c' (put_block c b s) = put_block c b (free_block c' s)"
  by (simp_all add: store_ops fun_upd_twist)

lemma free_block_other: "c' \<noteq> c \<Longrightarrow> blocks (free_block c' s) c = blocks s c"
  by (simp add: free_block_def)

lemma block_at_eq_Returns [simp]: "block_at c s = Returns b \<longleftrightarrow> blocks s c = Some b"
  by (simp add: block_at_def split: option.splits)

lemma framedI:
  "(\<And>s s'. blocks s c = None \<Longrightarrow> f s = Returns s' \<Longrightarrow>
    blocks s' c = None \<and> f (put_block c b s) = Returns (put_block c b s')) \<Longrightarrow> framed c b f"
  by (simp add: framed_def)

lemma framed_counts:
  "framed c b (retain_strong_ref c')" "framed c b (retain_weak_ref c')" "framed c b (release_weak_ref c')"
  by (cases "c' = c"; rule framedI;
    auto simp: retain_strong_ref_def retain_weak_ref_def release_weak_ref_def Let_def bnd_eq_Returns frame_writes
      free_block_other split: if_splits)+

lemma framed_weak_reset: "framed c b (weak_reset h)"
proof (rule framedI)
  fix s s' assume s: "blocks s c = None" "weak_reset h s = Returns s'"
  then obtain p where p: "weak_at h s = Returns p" by (auto simp: weak_reset_def bnd_eq_Returns)
  show "blocks s' c = None \<and> weak_reset h (put_block c b s) = Returns (put_block c b s')"
    using s p framedD [OF framed_counts(3), where s = "put_handle h (Weak None) s"]
    by (cases p) (auto simp: weak_reset_def Let_def frame_writes)
qed

lemma framed_strong_reset:
  assumes rel: "\<And>c'. framed c b (rel c')"
  shows "framed c b (strong_reset_with rel h)"
proof (rule framedI)
  fix s s' assume s: "blocks s c = None" "strong_reset_with rel h s = Returns s'"
  then obtain p where p: "strong_at h s = Returns p" by (auto simp: strong_reset_with_def bnd_eq_Returns)
  show "blocks s' c = None \<and> strong_reset_with rel h (put_block c b s) = Returns (put_block c b s')"
    using s p framedD [OF rel, where s = "put_handle h (Strong None) s"]
    by (cases p) (auto simp: strong_reset_with_def Let_def frame_writes bnd_eq_Returns)
qed

lemma framed_handle_dtor:
  assumes rel: "\<And>c'. framed c b (rel c')"
  shows "framed c b (handle_dtor_with rel h)"
proof (rule framedI)
  fix s s' assume s: "blocks s c = None" "handle_dtor_with rel h s = Returns s'"
  have ends: "framed c b (\<lambda>s. Returns (end_handle h s))" by (simp add: framed_def frame_writes)
  note strong = framedD [OF framed_bnd [OF framed_strong_reset [where rel = rel and h = h, OF rel] ends] s(1)]
    and weak = framedD [OF framed_bnd [OF framed_weak_reset [where h = h] ends] s(1)]
  show "blocks s' c = None \<and> handle_dtor_with rel h (put_block c b s) = Returns (put_block c b s')"
    using s(2) strong weak by (simp add: handle_dtor_with_def split: option.splits handle.splits)
qed

lemma framed_members_dtor:
  assumes rel: "\<And>c'. framed c b (rel c')"
  shows "framed c b (members_dtor_with rel hs)"
proof (induction hs)
  case (Cons h hs)
  then show ?case using framed_bnd [OF framed_handle_dtor [where rel = rel and h = h, OF rel]] by simp
qed (simp add: framed_def)

lemma framed_delete_target:
  assumes rel: "\<And>c'. framed c b (rel c')"
  shows "framed c b (delete_target_with rel t)"
proof (rule framedI)
  fix s s' assume s: "blocks s c = None" "delete_target_with rel t s = Returns s'"
  then obtain ob where ob: "target_at t s = Returns ob" by (auto simp: delete_target_with_def bnd_eq_Returns)
  show "blocks s' c = None \<and> delete_target_with rel t (put_block c b s) = Returns (put_block c b s')"
    using s ob framedD [OF framed_bnd [OF framed_members_dtor [where rel = rel, OF rel] framed_counts(3)],
        where s = "end_target t s"]
    by (simp add: delete_target_with_def frame_writes)
qed

lemma framed_release: "framed c b (release_strong_ref n c')"
proof (induction n arbitrary: c')
  case (Suc n)
  show ?case
  proof (rule framedI)
    fix s s' assume s: "blocks s c = None" "release_strong_ref (Suc n) c' s = Returns s'"
    then obtain b' where b': "blocks s c' = Some b'" by (auto simp: bnd_eq_Returns)
    with s(1) have "c' \<noteq> c" by auto
    then show "blocks s' c = None \<and> release_strong_ref (Suc n) c' (put_block c b s) = Returns (put_block c b s')"
      using s b' framedD [OF framed_delete_target [where rel = "release_strong_ref n", OF Suc],
          where s = "put_block c' (b'\<lparr>strong_refs := 0, cb_target := None\<rparr>) s"]
      by (auto simp: bnd_eq_Returns Let_def frame_writes block_at_def split: if_splits option.splits)
  qed
qed (simp add: framed_def)

lemma framed_members: "framed c b (members_dtor_with (release_strong_ref n) hs)"
  by (rule framed_members_dtor [OF framed_release])

lemma framed_strong_copy: "framed c b (strong_copy_ctor h other)"
proof (rule framedI)
  fix s s' assume s: "blocks s c = None" "strong_copy_ctor h other s = Returns s'"
  then obtain p where p: "strong_at other s = Returns p" by (auto simp: strong_copy_ctor_def bnd_eq_Returns)
  show "blocks s' c = None \<and> strong_copy_ctor h other (put_block c b s) = Returns (put_block c b s')"
    using s p framedD [OF framed_counts(1), where s = "put_handle h (Strong p) s"]
    by (cases p) (auto simp: strong_copy_ctor_def Let_def frame_writes bnd_eq_Returns)
qed

lemma framed_weak_copy: "framed c b (weak_copy_ctor h other)"
proof (rule framedI)
  fix s s' assume s: "blocks s c = None" "weak_copy_ctor h other s = Returns s'"
  then obtain p where p: "weak_at other s = Returns p" by (auto simp: weak_copy_ctor_def bnd_eq_Returns)
  show "blocks s' c = None \<and> weak_copy_ctor h other (put_block c b s) = Returns (put_block c b s')"
    using s p framedD [OF framed_counts(2), where s = "put_handle h (Weak p) s"]
    by (cases p) (auto simp: weak_copy_ctor_def Let_def frame_writes)
qed

lemma framed_watch: "framed c b (weak_from_strong h strong)"
proof (rule framedI)
  fix s s' assume s: "blocks s c = None" "weak_from_strong h strong s = Returns s'"
  then obtain p where p: "strong_at strong s = Returns p" by (auto simp: weak_from_strong_def bnd_eq_Returns)
  show "blocks s' c = None \<and> weak_from_strong h strong (put_block c b s) = Returns (put_block c b s')"
    using s p framedD [OF framed_counts(2), where s = "put_handle h v s" for v]
    by (cases p) (auto simp: weak_from_strong_def frame_writes bnd_eq_Returns)
qed

lemma framed_lock: "framed c b (weak_lock h w)"
proof (rule framedI)
  fix s s' assume s: "blocks s c = None" "weak_lock h w s = Returns s'"
  then obtain p where p: "weak_at w s = Returns p" by (auto simp: weak_lock_def bnd_eq_Returns)
  show "blocks s' c = None \<and> weak_lock h w (put_block c b s) = Returns (put_block c b s')"
  proof (cases p)
    case (Some c')
    then obtain b' where b': "blocks s c' = Some b'"
      using s p by (auto simp: weak_lock_def try_retain_strong_ref_def bnd_eq_Returns)
    with s(1) have "c' \<noteq> c" by auto
    then show ?thesis using s p Some b'
      by (auto simp: weak_lock_def try_retain_strong_ref_def block_at_def frame_writes split: if_splits)
  qed (use s p in \<open>auto simp: weak_lock_def frame_writes\<close>)
qed

lemma framed_member_ctor: "framed c b (member_ctor m i)"
proof (cases i)
  case (Init_move other)
  show ?thesis
    unfolding Init_move member_ctor.simps
    by (rule framedI) (auto simp: strong_move_ctor_def bnd_eq_Returns frame_writes)
next
  case (Init_weak_move other)
  show ?thesis
    unfolding Init_weak_move member_ctor.simps
    by (rule framedI) (auto simp: weak_move_ctor_def bnd_eq_Returns frame_writes)
qed (simp_all add: framed_strong_copy framed_weak_copy framed_watch framed_lock,
  simp_all add: framed_def strong_ctor_def weak_ctor_def frame_writes)

lemma framed_construct: "framed c b (construct_members ms)"
proof (induction ms)
  case (Cons mi ms)
  then show ?case using framed_bnd [OF framed_member_ctor] by (cases mi) simp
qed (simp add: framed_def)

text \<open>So a constructor that throws does what local handles would do that are constructed and destroyed.\<close>

lemma make_intrusive_throws_is:
  assumes "blocks s c = None"
    and run: "bnd (construct_members ms s) (members_dtor_with (release_strong_ref n) (rev (map fst ms))) = Returns s'"
  shows "make_intrusive_throws n c t ms s = Returns s'" "blocks s' c = None"
proof -
  let ?b = "\<lparr>strong_refs = 1, weak_refs = 1, cb_target = Some t\<rparr>"
  have *: "blocks s' c = None \<and> bnd (construct_members ms (put_block c ?b s))
      (members_dtor_with (release_strong_ref n) (rev (map fst ms))) = Returns (put_block c ?b s')"
    by (rule framedD [OF framed_bnd [OF framed_construct framed_members] assms])
  then show "blocks s' c = None" by simp
  with * show "make_intrusive_throws n c t ms s = Returns s'"
    by (auto simp: make_intrusive_throws_def bnd_assoc [symmetric] release_weak_ref_def block_at_def Let_def
        put_block_def free_block_def fun_upd_idem)
qed

section \<open>Initialisers\<close>

fun member_allowed :: "handle_addr \<Rightarrow> member_init \<Rightarrow> store \<Rightarrow> bool" where
  "member_allowed m Init_strong s \<longleftrightarrow> free_at s m"
| "member_allowed m (Init_copy other) s \<longleftrightarrow> free_at s m \<and> strong_at_addr s other \<and> handles_fit s"
| "member_allowed m (Init_move other) s \<longleftrightarrow> free_at s m \<and> strong_at_addr s other"
| "member_allowed m Init_weak s \<longleftrightarrow> free_at s m"
| "member_allowed m (Init_watch strong) s \<longleftrightarrow> free_at s m \<and> strong_at_addr s strong \<and> handles_fit s"
| "member_allowed m (Init_weak_copy other) s \<longleftrightarrow> free_at s m \<and> weak_at_addr s other \<and> handles_fit s"
| "member_allowed m (Init_weak_move other) s \<longleftrightarrow> free_at s m \<and> weak_at_addr s other"
| "member_allowed m (Init_lock w) s \<longleftrightarrow> free_at s m \<and> weak_at_addr s w \<and> handles_fit s"

text \<open>Each member is initialised in the store that the ones before it have left.\<close>

fun members_allowed :: "(handle_addr \<times> member_init) list \<Rightarrow> store \<Rightarrow> bool" where
  "members_allowed [] s \<longleftrightarrow> True"
| "members_allowed ((m, i) # ms) s \<longleftrightarrow> member_allowed m i s \<and>
     (case member_ctor m i s of Returns s' \<Rightarrow> members_allowed ms s' | _ \<Rightarrow> True)"

text \<open>The handles an initialiser moves from; a handle after that.\<close>

fun moved_by :: "member_init \<Rightarrow> handle_addr set" where
  "moved_by (Init_move other) = {other}"
| "moved_by (Init_weak_move other) = {other}"
| "moved_by _ = {}"

definition moved_from :: "(handle_addr \<times> member_init) list \<Rightarrow> handle_addr set" where
  "moved_from ms = (\<Union>(m, i) \<in> set ms. moved_by i)"

fun nulled :: "handle option \<Rightarrow> handle option" where
  "nulled (Some (Strong _)) = Some (Strong None)"
| "nulled (Some (Weak _)) = Some (Weak None)"
| "nulled None = None"

lemma nulled_simps [simp]: "nulled (nulled v) = nulled v" "nulled v = None \<longleftrightarrow> v = None"
  by (cases v rule: nulled.cases; simp)+

lemma moved_from_simps [simp]:
  "moved_from [] = {}" "moved_from ((m, i) # ms) = moved_by i \<union> moved_from ms"
  by (simp_all add: moved_from_def)

definition after_move :: "handle_addr set \<Rightarrow> store \<Rightarrow> handle_addr \<Rightarrow> handle option" where
  "after_move X s h = (if h \<in> X then nulled (handles s h) else handles s h)"

lemma member_ctor_ok:
  assumes ok: "quiescent s" and a: "member_allowed m i s"
  shows "\<exists>s' v. member_ctor m i s = Returns s' \<and> quiescent s' \<and> targets s' = targets s \<and>
    handles s m = None \<and> handles s' = (after_move (moved_by i) s)(m \<mapsto> v)"
proof -
  have same: "after_move {} s = handles s" by (simp add: after_move_def fun_eq_iff)
  have strong: "after_move {other} s = (handles s)(other \<mapsto> Strong None)" if "handles s other = Some (Strong p)" for other p
    using that by (auto simp: after_move_def fun_eq_iff)
  have weak: "after_move {other} s = (handles s)(other \<mapsto> Weak None)" if "handles s other = Some (Weak p)" for other p
    using that by (auto simp: after_move_def fun_eq_iff)
  have m: "handles s m = None" using a by (cases i) (simp_all add: free_at_def)
  show ?thesis
  proof (cases i)
    case (Init_copy other)
    with a show ?thesis using strong_copy_ctor_ok [OF ok _ _ m] by (fastforce simp: addr_iffs same)
  next
    case (Init_move other)
    with a show ?thesis using move_ctor_ok(1) [OF ok m] m by (fastforce simp: addr_iffs strong)
  next
    case (Init_watch strong)
    with a show ?thesis using weak_from_strong_ok [OF ok _ _ m] by (fastforce simp: addr_iffs same)
  next
    case (Init_weak_copy other)
    with a show ?thesis using weak_copy_ctor_ok [OF ok _ _ m] by (fastforce simp: addr_iffs same)
  next
    case (Init_weak_move other)
    with a show ?thesis using move_ctor_ok(2) [OF ok m] m by (fastforce simp: addr_iffs weak)
  next
    case (Init_lock w)
    with a show ?thesis using weak_lock_ok [OF ok _ _ m] by (fastforce simp: addr_iffs same)
  qed (use put_null_fresh_ok [OF ok m] m in \<open>auto simp: strong_ctor_def weak_ctor_def same\<close>)
qed

lemma construct_members_ok:
  assumes "quiescent s" "members_allowed ms s"
  shows "\<exists>s'. construct_members ms s = Returns s' \<and> quiescent s' \<and> targets s' = targets s \<and>
    distinct (map fst ms) \<and> (\<forall>m \<in> fst ` set ms. handles s m = None \<and> handles s' m \<noteq> None) \<and>
    (\<forall>h. h \<notin> fst ` set ms \<longrightarrow> handles s' h = after_move (moved_from ms) s h)"
  using assms
proof (induction ms arbitrary: s)
  case Nil
  then show ?case by (simp add: after_move_def)
next
  case (Cons mi ms)
  obtain m i where mi: "mi = (m, i)" by (cases mi)
  obtain s1 v where s1: "member_ctor m i s = Returns s1" "quiescent s1" "targets s1 = targets s"
      "handles s m = None" "handles s1 = (after_move (moved_by i) s)(m \<mapsto> v)"
    using member_ctor_ok [OF Cons.prems(1)] Cons.prems(2) mi by fastforce
  moreover obtain s2 where s2: "construct_members ms s1 = Returns s2" "quiescent s2" "targets s2 = targets s1"
      "distinct (map fst ms)" "\<forall>m \<in> fst ` set ms. handles s1 m = None \<and> handles s2 m \<noteq> None"
      "\<forall>h. h \<notin> fst ` set ms \<longrightarrow> handles s2 h = after_move (moved_from ms) s1 h"
    using Cons.IH [OF s1(2)] Cons.prems(2) mi s1(1) by auto
  moreover have fresh: "m \<notin> fst ` set ms" using s1(5) s2(5) by auto
  moreover have "handles s x = None" if "x \<in> fst ` set ms" for x
    using s2(5) that s1(5) fresh by (auto simp: after_move_def split: if_splits)
  moreover have "handles s2 m \<noteq> None"
    using s2(6) fresh s1(5) by (cases v) (simp_all add: after_move_def)
  moreover have "handles s2 h = after_move (moved_from (mi # ms)) s h" if "h \<notin> fst ` set (mi # ms)" for h
    using s2(6) that s1(5) mi by (auto simp: after_move_def)
  ultimately show ?case using mi by auto
qed

section \<open>What a constructor that throws leaves\<close>

lemma make_intrusive_throws_ok:
  assumes ok: "quiescent s" and c: "blocks s c = None" and a: "members_allowed ms s"
    and n: "card (dom (targets s)) < n"
  shows "\<exists>s'. make_intrusive_throws n c t ms s = Returns s' \<and> quiescent s' \<and> blocks s' c = None \<and>
    targets s' \<subseteq>\<^sub>m targets s \<and> (\<forall>m \<in> fst ` set ms. handles s' m = None) \<and>
    (\<forall>h. h \<notin> fst ` set ms \<and> (h \<in> owned s \<longrightarrow> h \<in> owned s') \<longrightarrow> handles s' h = after_move (moved_from ms) s h)"
proof -
  obtain s1 where s1: "construct_members ms s = Returns s1" "quiescent s1" "targets s1 = targets s"
      "distinct (map fst ms)" "\<forall>m \<in> fst ` set ms. handles s m = None \<and> handles s1 m \<noteq> None"
      "\<forall>h. h \<notin> fst ` set ms \<longrightarrow> handles s1 h = after_move (moved_from ms) s h"
    using construct_members_ok [OF ok a] by blast
  note own = owned_cong [OF s1(3)]
  have "\<forall>m \<in> set (rev (map fst ms)). handles s1 m \<noteq> None \<and> m \<notin> owned s1"
    using s1(5) not_owned_fresh [OF ok] own by auto
  then obtain s' where s': "members_dtor_with (release_strong_ref n) (rev (map fst ms)) s1 = Returns s'"
      "quiescent s'" "shrinks (fst ` set ms) s1 s'"
    using release.members_dtor_ok [OF s1(2), of "rev (map fst ms)" n] s1(3,4) n by auto
  have "bnd (construct_members ms s) (members_dtor_with (release_strong_ref n) (rev (map fst ms))) = Returns s'"
    using s1(1) s'(1) by simp
  note run = make_intrusive_throws_is [OF c this]
  have "targets s' \<subseteq>\<^sub>m targets s" using s'(3) s1(3) by (simp add: shrinks_def)
  moreover have "\<forall>m \<in> fst ` set ms. handles s' m = None" using s'(3) by (simp add: shrinks_def)
  moreover have "handles s' h = after_move (moved_from ms) s h"
    if "h \<notin> fst ` set ms" "h \<in> owned s \<longrightarrow> h \<in> owned s'" for h
    using s'(3) s1(6) that own by (auto simp: shrinks_def)
  ultimately show ?thesis using run s'(2) by blast
qed

text \<open>A handle that is destroyed while another one holds the same reference destroys nothing else.\<close>

lemma handle_dtor_keeps:
  assumes ok: "quiescent u" and h: "handles u h = Some v" "h \<notin> owned u"
    and other: "\<And>t. v = Strong (Some t) \<Longrightarrow> \<exists>k. k \<noteq> h \<and> handles u k = Some v"
    and n: "card (dom (targets u)) < n"
  shows "\<exists>u'. handle_dtor_with (release_strong_ref n) h u = Returns u' \<and> quiescent u' \<and>
    targets u' = targets u \<and> handles u' = (handles u)(h := None)"
proof -
  obtain u' where u': "handle_dtor_with (release_strong_ref n) h u = Returns u'" "quiescent u'" "shrinks {h} u u'"
    using release.handle_dtor_ok [OF ok _ h(2) n] h(1) by auto
  have same: "targets u' = targets u"
  proof (cases v)
    case (Strong p)
    have "occ (handles u) (Strong (Some t)) \<noteq> 1" if p: "p = Some t" for t
    proof
      obtain k where "k \<noteq> h" "handles u k = Some (Strong (Some t))" using other [of t] Strong p by auto
      moreover assume "occ (handles u) (Strong (Some t)) = 1"
      then obtain x where "{y. handles u y = Some (Strong (Some t))} = {x}"
        unfolding occ_def by (rule card_1_singletonE)
      ultimately show False using h(1) Strong p by (metis mem_Collect_eq singletonD)
    qed
    then show ?thesis
      using release.strong_reset_ok [OF ok _ n, of h p] h(1) Strong u'(1)
      by (cases p) (auto simp: handle_dtor_with_def)
  next
    case (Weak p)
    then show ?thesis using weak_reset_ok [OF ok, of h p] h(1) u'(1) by (auto simp: handle_dtor_with_def)
  qed
  then have "handles u' = (handles u)(h := None)"
    using u'(3) owned_cong [OF same] by (auto simp: shrinks_def fun_eq_iff)
  then show ?thesis using u'(1,2) same by blast
qed

lemma members_dtor_restores:
  assumes s: "quiescent s" "card (dom (targets s)) < n"
    and "quiescent u" "targets u = targets s" "distinct hs"
    and "\<forall>h \<in> set hs. handles s h = None \<and> handles u h \<noteq> None" "\<forall>h. h \<notin> set hs \<longrightarrow> handles u h = handles s h"
  shows "\<exists>u'. members_dtor_with (release_strong_ref n) hs u = Returns u' \<and> quiescent u' \<and>
    targets u' = targets s \<and> handles u' = handles s"
  using assms(3-)
proof (induction hs arbitrary: u)
  case (Cons h hs)
  obtain v where v: "handles u h = Some v" using Cons.prems(4) by auto
  have fresh: "handles s h = None" "h \<notin> owned u"
    using Cons.prems(4) not_owned_fresh [OF s(1), of h] owned_cong [OF Cons.prems(2)] by auto
  have other: "\<exists>k. k \<noteq> h \<and> handles u k = Some v" if p: "v = Strong (Some t)" for t
  proof -
    obtain ob where "targets s t = Some ob" using strong_handle_target [OF Cons.prems(1)] v p Cons.prems(2)
      by metis
    then have "occ (handles s) (Strong (Some t)) \<noteq> 0"
      using target_block [OF s(1)] by (metis add.right_neutral count_empty unat_eq_0)
    then obtain k where k: "handles s k = Some v"
      using occ_zero_iff [OF store_okD(1) [OF s(1)], of "Strong (Some t)"] p by auto
    have "k \<notin> set (h # hs)" using k Cons.prems(4) by auto
    then show ?thesis using k Cons.prems(5) by (intro exI [of _ k]) auto
  qed
  obtain u1 where u1: "handle_dtor_with (release_strong_ref n) h u = Returns u1" "quiescent u1"
      "targets u1 = targets u" "handles u1 = (handles u)(h := None)"
    using handle_dtor_keeps [OF Cons.prems(1) v fresh(2), of n] other s(2) Cons.prems(2) by metis
  have "\<forall>x \<in> set hs. handles s x = None \<and> handles u1 x \<noteq> None"
    using Cons.prems(3,4) u1(4) by auto
  moreover have "\<forall>x. x \<notin> set hs \<longrightarrow> handles u1 x = handles s x"
    using Cons.prems(5) u1(4) fresh(1) by simp
  ultimately show ?case using Cons.IH [OF u1(2)] u1(1,3) Cons.prems(2,3) by simp
qed (auto simp: fun_eq_iff)

text \<open>The handles and the targets determine the control blocks.\<close>

lemma blocks_determined:
  assumes ok: "quiescent s" "quiescent s'" and same: "targets s' = targets s" "handles s' = handles s"
  shows "s' = s"
proof -
  have le: "blocks u' c = Some b" if ok: "quiescent u" "quiescent u'" and same: "targets u' = targets u" "handles u' = handles u"
    and b: "blocks u c = Some b" for u u' c b
  proof -
    note w = weak_okD [OF store_okD(6) [OF ok(1)] b]
    note st = strong_okD [OF store_okD(5) [OF ok(1)] b]
    have "\<exists>b'. blocks u' c = Some b' \<and> cb_target b' = cb_target b"
    proof (cases "cb_target b")
      case (Some t)
      then show ?thesis using st(2) target_block [OF ok(2)] same(1) by metis
    next
      case None
      then obtain h where "handles u h = Some (Weak (Some c))"
        using w occ_zero_iff [OF store_okD(1) [OF ok(1)], of "Weak (Some c)"] by (auto simp: unat_eq_0)
      then obtain b' where b': "blocks u' c = Some b'" using weak_handle_block [OF ok(2)] same(2) by metis
      have "cb_target b' = None"
      proof (rule ccontr)
        assume "cb_target b' \<noteq> None"
        then obtain t where "cb_target b' = Some t" by blast
        then obtain ob where ob: "targets u t = Some ob" "tgt_control ob = c"
          using strong_okD(2) [OF store_okD(5) [OF ok(2)] b'] same(1) by auto
        then show False using target_block [OF ok(1) ob(1)] b None by fastforce
      qed
      then show ?thesis using b' None by simp
    qed
    then obtain b' where b': "blocks u' c = Some b'" "cb_target b' = cb_target b" by blast
    note w' = weak_okD [OF store_okD(6) [OF ok(2)] b'(1)]
    note st' = strong_okD [OF store_okD(5) [OF ok(2)] b'(1)]
    have "weak_refs b' = weak_refs b" using w w' b'(2) same(2) by (simp add: word_unat_eq_iff)
    moreover have "strong_refs b' = strong_refs b"
      using st st' b'(2) same(2) by (cases "cb_target b") (simp_all add: word_unat_eq_iff)
    ultimately show ?thesis using b' by simp
  qed
  have "blocks s' c = blocks s c" for c
    using le [OF ok same, of c] le [OF ok(2,1) same [symmetric], of c]
    by (cases "blocks s c"; cases "blocks s' c") auto
  then show ?thesis using same by (simp add: fun_eq_iff)
qed

lemma make_intrusive_throws_restores:
  assumes ok: "quiescent s" and c: "blocks s c = None" and a: "members_allowed ms s"
    and n: "card (dom (targets s)) < n" and "moved_from ms = {}"
  shows "make_intrusive_throws n c t ms s = Returns s"
proof -
  obtain s1 where s1: "construct_members ms s = Returns s1" "quiescent s1" "targets s1 = targets s"
      "distinct (map fst ms)" "\<forall>m \<in> fst ` set ms. handles s m = None \<and> handles s1 m \<noteq> None"
      "\<forall>h. h \<notin> fst ` set ms \<longrightarrow> handles s1 h = handles s h"
    using construct_members_ok [OF ok a] assms(5) by (auto simp: after_move_def)
  obtain s2 where s2: "members_dtor_with (release_strong_ref n) (rev (map fst ms)) s1 = Returns s2" "quiescent s2"
      "targets s2 = targets s" "handles s2 = handles s"
    using members_dtor_restores [OF ok n s1(2,3), of "rev (map fst ms)"] s1(4-6) by auto
  have "s2 = s" by (rule blocks_determined [OF ok s2(2-4)])
  then show ?thesis using make_intrusive_throws_is(1) [OF c, of ms n s] s1(1) s2(1) by simp
qed

declare block_at_eq_Returns [simp del]

end
