(* ===== verification/IntrusivePrograms.thy ===== *)
theory IntrusivePrograms
  imports IntrusiveThrows
begin

text \<open>
  The programs a client builds of the operations of \<open>core/intrusive_ptr.h\<close>, the stores they reach, and
  what holds in all of them.
\<close>

section \<open>Programs\<close>

text \<open>
  The calls a client makes, with the addresses of the handles they are made on. A constructor call
  names the address of its handle, an assignment the address of its temporary.
\<close>

datatype call =
    Strong_ctor handle_addr
  | Strong_copy_ctor handle_addr handle_addr
  | Strong_move_ctor handle_addr handle_addr
  | Strong_dtor handle_addr
  | Strong_copy_assign handle_addr handle_addr handle_addr
  | Strong_move_assign handle_addr handle_addr
  | Strong_reset handle_addr
  | Strong_swap handle_addr handle_addr
  | Make_intrusive cb_addr target_addr "(handle_addr \<times> handle_kind) list" handle_addr
  | Make_throws cb_addr target_addr "(handle_addr \<times> member_init) list"
  | Weak_ctor handle_addr
  | Weak_from_strong handle_addr handle_addr
  | Weak_copy_ctor handle_addr handle_addr
  | Weak_move_ctor handle_addr handle_addr
  | Weak_dtor handle_addr
  | Weak_copy_assign handle_addr handle_addr handle_addr
  | Weak_move_assign handle_addr handle_addr
  | Weak_reset handle_addr
  | Weak_swap handle_addr handle_addr
  | Weak_lock handle_addr handle_addr

fun run_call :: "nat \<Rightarrow> call \<Rightarrow> store \<Rightarrow> store outcome" where
  "run_call n (Strong_ctor h) s = strong_ctor h s"
| "run_call n (Strong_copy_ctor h other) s = strong_copy_ctor h other s"
| "run_call n (Strong_move_ctor h other) s = strong_move_ctor h other s"
| "run_call n (Strong_dtor h) s = strong_dtor n h s"
| "run_call n (Strong_copy_assign tmp this other) s = strong_copy_assign n tmp this other s"
| "run_call n (Strong_move_assign this other) s = strong_move_assign n this other s"
| "run_call n (Strong_reset h) s = strong_reset n h s"
| "run_call n (Strong_swap h other) s = strong_swap h other s"
| "run_call n (Make_intrusive c t ms h) s = make_intrusive c t ms h s"
| "run_call n (Make_throws c t ms) s = make_intrusive_throws n c t ms s"
| "run_call n (Weak_ctor h) s = weak_ctor h s"
| "run_call n (Weak_from_strong h strong) s = weak_from_strong h strong s"
| "run_call n (Weak_copy_ctor h other) s = weak_copy_ctor h other s"
| "run_call n (Weak_move_ctor h other) s = weak_move_ctor h other s"
| "run_call n (Weak_dtor h) s = weak_dtor h s"
| "run_call n (Weak_copy_assign tmp this other) s = weak_copy_assign tmp this other s"
| "run_call n (Weak_move_assign this other) s = weak_move_assign this other s"
| "run_call n (Weak_reset h) s = weak_reset h s"
| "run_call n (Weak_swap h other) s = weak_swap h other s"
| "run_call n (Weak_lock h w) s = weak_lock h w s"

text \<open>
  What the language makes a client keep to: handles are used while they are alive and at their type,
  constructed where none is alive, also those of a target whose constructor throws, and the members of a
  target are destroyed by the target only;
  \<open>new\<close> returns addresses that are not in use.
\<close>

fun call_allowed :: "call \<Rightarrow> store \<Rightarrow> bool" where
  "call_allowed (Strong_ctor h) s \<longleftrightarrow> free_at s h"
| "call_allowed (Strong_copy_ctor h other) s \<longleftrightarrow> free_at s h \<and> strong_at_addr s other"
| "call_allowed (Strong_move_ctor h other) s \<longleftrightarrow> free_at s h \<and> strong_at_addr s other"
| "call_allowed (Strong_dtor h) s \<longleftrightarrow> strong_at_addr s h \<and> h \<notin> owned s"
| "call_allowed (Strong_copy_assign tmp this other) s \<longleftrightarrow>
     free_at s tmp \<and> strong_at_addr s this \<and> strong_at_addr s other"
| "call_allowed (Strong_move_assign this other) s \<longleftrightarrow>
     strong_at_addr s this \<and> strong_at_addr s other \<and> move_assign_safe this other s"
| "call_allowed (Strong_reset h) s \<longleftrightarrow> strong_at_addr s h"
| "call_allowed (Strong_swap h other) s \<longleftrightarrow> strong_at_addr s h \<and> strong_at_addr s other"
| "call_allowed (Make_intrusive c t ms h) s \<longleftrightarrow>
     blocks s c = None \<and> targets s t = None \<and> distinct (h # map fst ms) \<and>
     (\<forall>m \<in> set (h # map fst ms). free_at s m)"
| "call_allowed (Make_throws c t ms) s \<longleftrightarrow>
     blocks s c = None \<and> targets s t = None \<and> members_allowed ms s"
| "call_allowed (Weak_ctor h) s \<longleftrightarrow> free_at s h"
| "call_allowed (Weak_from_strong h strong) s \<longleftrightarrow> free_at s h \<and> strong_at_addr s strong"
| "call_allowed (Weak_copy_ctor h other) s \<longleftrightarrow> free_at s h \<and> weak_at_addr s other"
| "call_allowed (Weak_move_ctor h other) s \<longleftrightarrow> free_at s h \<and> weak_at_addr s other"
| "call_allowed (Weak_dtor h) s \<longleftrightarrow> weak_at_addr s h \<and> h \<notin> owned s"
| "call_allowed (Weak_copy_assign tmp this other) s \<longleftrightarrow>
     free_at s tmp \<and> weak_at_addr s this \<and> weak_at_addr s other"
| "call_allowed (Weak_move_assign this other) s \<longleftrightarrow> weak_at_addr s this \<and> weak_at_addr s other"
| "call_allowed (Weak_reset h) s \<longleftrightarrow> weak_at_addr s h"
| "call_allowed (Weak_swap h other) s \<longleftrightarrow> weak_at_addr s h \<and> weak_at_addr s other"
| "call_allowed (Weak_lock h w) s \<longleftrightarrow> free_at s h \<and> weak_at_addr s w"

text \<open>The stores a client reaches from the empty one, with enough stack for the nested releases.\<close>

inductive reachable :: "store \<Rightarrow> bool" where
  start: "reachable empty_store"
| call: "\<lbrakk>reachable s; handles_fit s; call_allowed c s; card (dom (targets s)) < n;
    run_call n c s = Returns s'\<rbrakk> \<Longrightarrow> reachable s'"

lemma run_call_ok:
  assumes ok: "quiescent s" "handles_fit s" and a: "call_allowed c s" and n: "card (dom (targets s)) < n"
  shows "\<exists>s'. run_call n c s = Returns s' \<and> quiescent s'"
proof (cases c)
  case (Strong_ctor h)
  then show ?thesis using a put_null_fresh_ok [OF ok(1)] by (simp add: strong_ctor_def free_at_def)
next
  case (Strong_copy_ctor h other)
  with a show ?thesis by (clarsimp simp: addr_iffs) (metis strong_copy_ctor_ok [OF ok])
next
  case (Strong_move_ctor h other)
  with a show ?thesis by (clarsimp simp: addr_iffs) (metis move_ctor_ok(1) [OF ok(1)])
next
  case (Strong_dtor h)
  then show ?thesis using a release.handle_dtor_ok [OF ok(1) _ _ n, of h]
    by (auto simp: addr_iffs strong_dtor_is)
next
  case (Strong_copy_assign tmp this other)
  with a show ?thesis by (clarsimp simp: addr_iffs) (metis strong_copy_assign_ok [OF ok _ _ _ n])
next
  case (Strong_move_assign this other)
  with a show ?thesis by (clarsimp simp: addr_iffs) (metis strong_move_assign_ok [OF ok(1) _ _ _ n])
next
  case (Strong_reset h)
  then show ?thesis using a release.strong_reset_ok [OF ok(1) _ n, of h]
    by (fastforce simp: addr_iffs strong_reset_def)
next
  case (Strong_swap h other)
  with a show ?thesis by (clarsimp simp: addr_iffs) (metis swap_ok(1) [OF ok(1)])
next
  case (Make_intrusive c t ms h)
  then show ?thesis using a make_intrusive_ok [OF ok(1), of c t h ms] by (auto simp: free_at_def)
next
  case (Make_throws c t ms)
  with a show ?thesis by clarsimp (metis make_intrusive_throws_ok [OF ok(1) _ _ n])
next
  case (Weak_ctor h)
  then show ?thesis using a put_null_fresh_ok [OF ok(1)] by (simp add: weak_ctor_def free_at_def)
next
  case (Weak_from_strong h strong)
  with a show ?thesis by (clarsimp simp: addr_iffs) (metis weak_from_strong_ok [OF ok])
next
  case (Weak_copy_ctor h other)
  with a show ?thesis by (clarsimp simp: addr_iffs) (metis weak_copy_ctor_ok [OF ok])
next
  case (Weak_move_ctor h other)
  with a show ?thesis by (clarsimp simp: addr_iffs) (metis move_ctor_ok(2) [OF ok(1)])
next
  case (Weak_dtor h)
  with a show ?thesis by (clarsimp simp: addr_iffs) (metis weak_dtor_ok [OF ok(1)])
next
  case (Weak_copy_assign tmp this other)
  with a show ?thesis by (clarsimp simp: addr_iffs) (metis weak_copy_assign_ok [OF ok])
next
  case (Weak_move_assign this other)
  with a show ?thesis by (clarsimp simp: addr_iffs) (metis weak_move_assign_ok [OF ok(1)])
next
  case (Weak_reset h)
  with a show ?thesis by (clarsimp simp: addr_iffs) (metis weak_reset_ok [OF ok(1)])
next
  case (Weak_swap h other)
  with a show ?thesis by (clarsimp simp: addr_iffs) (metis swap_ok(2) [OF ok(1)])
next
  case (Weak_lock h w)
  with a show ?thesis by (clarsimp simp: addr_iffs) (metis weak_lock_ok [OF ok])
qed

lemma empty_store_ok: "quiescent empty_store"
  by (simp add: store_ok_defs empty_store_def)

lemma reachable_ok: "reachable s \<Longrightarrow> quiescent s"
proof (induction rule: reachable.induct)
  case start
  show ?case by (rule empty_store_ok)
next
  case (call s c n s')
  then show ?case using run_call_ok by fastforce
qed

section \<open>An example: a list of two nodes\<close>

text \<open>
  A node is a target with one strong handle, its successor, among its members. The client makes two
  nodes and moves the handle to the second one into the first.
\<close>

definition one_node :: store where
  "one_node = \<lparr>blocks = [0 \<mapsto> \<lparr>strong_refs = 1, weak_refs = 1, cb_target = Some 0\<rparr>],
     targets = [0 \<mapsto> \<lparr>tgt_control = 0, tgt_members = [10]\<rparr>],
     handles = [10 \<mapsto> Strong None, 1 \<mapsto> Strong (Some 0)]\<rparr>"

definition two_nodes :: store where
  "two_nodes = \<lparr>blocks = [0 \<mapsto> \<lparr>strong_refs = 1, weak_refs = 1, cb_target = Some 0\<rparr>,
       1 \<mapsto> \<lparr>strong_refs = 1, weak_refs = 1, cb_target = Some 1\<rparr>],
     targets = [0 \<mapsto> \<lparr>tgt_control = 0, tgt_members = [10]\<rparr>, 1 \<mapsto> \<lparr>tgt_control = 1, tgt_members = [20]\<rparr>],
     handles = [10 \<mapsto> Strong None, 1 \<mapsto> Strong (Some 0), 20 \<mapsto> Strong None, 2 \<mapsto> Strong (Some 1)]\<rparr>"

definition linked_nodes :: store where
  "linked_nodes = two_nodes\<lparr>handles :=
     [1 \<mapsto> Strong (Some 0), 20 \<mapsto> Strong None, 2 \<mapsto> Strong None, 10 \<mapsto> Strong (Some 1)]\<rparr>"

lemma run_one_node: "run_call n (Make_intrusive 0 0 [(10, StrongKind)] 1) empty_store = Returns one_node"
  by (simp add: make_intrusive_def Let_def put_members_def empty_store_def one_node_def store_ops)

lemma run_two_nodes: "run_call n (Make_intrusive 1 1 [(20, StrongKind)] 2) one_node = Returns two_nodes"
  by (simp add: make_intrusive_def Let_def put_members_def one_node_def two_nodes_def store_ops)

lemma run_linked_nodes: "run_call n (Strong_move_assign 10 2) two_nodes = Returns linked_nodes"
  by (auto simp: strong_move_assign_def strong_reset_def strong_reset_with_def strong_at_def Let_def
      two_nodes_def linked_nodes_def put_handle_def)

lemma handles_fit_examples: "handles_fit empty_store" "handles_fit one_node" "handles_fit two_nodes"
  "handles_fit linked_nodes"
  by (simp_all add: handles_fit_def empty_store_def one_node_def two_nodes_def linked_nodes_def)

lemma reachable_one_node: "reachable one_node"
  by (rule reachable.call [OF reachable.start handles_fit_examples(1) _ _ run_one_node [of 1]])
    (simp_all add: empty_store_def free_at_def)

lemma reachable_two_nodes: "reachable two_nodes"
  by (rule reachable.call [OF reachable_one_node handles_fit_examples(2) _ _ run_two_nodes [of 2]])
    (simp_all add: one_node_def free_at_def)

lemma reachable_linked_nodes: "reachable linked_nodes"
  by (rule reachable.call [OF reachable_two_nodes handles_fit_examples(3) _ _ run_linked_nodes [of 3]])
    (simp_all add: two_nodes_def strong_at_addr_def move_assign_safe_def)

section \<open>Properties\<close>

text \<open>C1: No client of the smart pointers meets undefined behaviour: from the empty store, after any
  sequence of calls that the language allows (constructors, destructors, copies, moves, assignments,
  resets, swaps, \<open>make_intrusive\<close> also with a constructor that throws, \<open>lock\<close>, on handles that may be members of targets), the next
  allowed call returns. It accesses no object that is not alive, it terminates although destroying
  a target destroys its members, it does not abort, and it needs no more stack than there are targets.\<close>

theorem intrusive_calls_safe:
  assumes "reachable s" "handles_fit s" "call_allowed c s" "card (dom (targets s)) < n"
  shows "\<exists>s'. run_call n c s = Returns s' \<and> reachable s'"
  using run_call_ok [OF reachable_ok [OF assms(1)] assms(2-4)] reachable.call [OF assms] by blast

theorem intrusive_calls_safe_witness:
  "\<exists>s'. run_call 3 (Strong_dtor 1) linked_nodes = Returns s' \<and> reachable s'"
  by (rule intrusive_calls_safe [OF reachable_linked_nodes handles_fit_examples(4)])
    (auto simp: linked_nodes_def two_nodes_def strong_at_addr_def owned_def split: if_splits)

text \<open>C2: A target is alive exactly as long as a strong handle points to it, and a control block exactly
  as long as a weak handle or a live target refers to it: nothing is freed early and nothing leaks.\<close>

theorem intrusive_lifetimes:
  assumes "reachable s"
  shows "(targets s t \<noteq> None \<longleftrightarrow> (\<exists>h. handles s h = Some (Strong (Some t)))) \<and>
    (blocks s c \<noteq> None \<longleftrightarrow>
       (\<exists>h. handles s h = Some (Weak (Some c))) \<or> (\<exists>u ob. targets s u = Some ob \<and> tgt_control ob = c))"
proof -
  note ok = reachable_ok [OF assms]
  note d = store_okD [OF ok]
  have 1: "\<exists>h. handles s h = Some (Strong (Some t))" if "targets s t = Some ob" for ob
    using target_block [OF ok that] occ_zero_iff [OF d(1), of "Strong (Some t)"]
    by (metis add.right_neutral count_empty unat_eq_0)
  have 2: "(\<exists>h. handles s h = Some (Weak (Some c))) \<or> (\<exists>u ob. targets s u = Some ob \<and> tgt_control ob = c)"
    if b: "blocks s c = Some b" for b
  proof (cases "cb_target b")
    case None
    then show ?thesis
      using weak_okD [OF d(6) b] occ_zero_iff [OF d(1), of "Weak (Some c)"] by (auto simp: unat_eq_0)
  next
    case (Some u)
    then show ?thesis using strong_okD(2) [OF d(5) b] by blast
  qed
  show ?thesis
    using 1 2 strong_handle_target [OF ok] weak_handle_block [OF ok] target_block [OF ok]
    by (metis option.distinct(1) option.exhaust)
qed

theorem intrusive_lifetimes_witness:
  "targets linked_nodes 1 \<noteq> None \<and> handles linked_nodes 10 = Some (Strong (Some 1))"
proof -
  have h: "handles linked_nodes 10 = Some (Strong (Some 1))" by (simp add: linked_nodes_def)
  have "targets linked_nodes 1 \<noteq> None \<longleftrightarrow> (\<exists>h. handles linked_nodes h = Some (Strong (Some 1)))"
    by (rule intrusive_lifetimes [OF reachable_linked_nodes, THEN conjunct1])
  with h show ?thesis by blast
qed

text \<open>C3: \<open>use_count\<close> of a non-null handle is the exact number of strong handles to its target, and
  \<open>reset\<close> destroys the target if and only if that number is one.\<close>

theorem intrusive_use_count:
  assumes "reachable s" "handles s h = Some (Strong (Some t))" "card (dom (targets s)) < n"
  shows "\<exists>k s'. strong_use_count h s = Returns k \<and>
    unat k = card {h'. handles s h' = Some (Strong (Some t))} \<and>
    strong_reset n h s = Returns s' \<and> (targets s' t = None \<longleftrightarrow> k = 1)"
proof -
  note ok = reachable_ok [OF assms(1)]
  obtain ob where ob: "targets s t = Some ob" using strong_handle_target [OF ok assms(2)] by blast
  obtain b where b: "blocks s (tgt_control ob) = Some b"
      "unat (strong_refs b) = occ (handles s) (Strong (Some t))"
    using target_block [OF ok ob] by auto
  have "strong_use_count h s = Returns (strong_refs b)"
    using assms(2) ob b(1)
    by (simp add: strong_use_count_def strong_at_def target_use_count_def target_at_def block_at_def)
  moreover have "occ (handles s) (Strong (Some t)) = 1 \<longleftrightarrow> strong_refs b = 1"
    using b(2) by (simp add: word_unat_eq_iff)
  ultimately show ?thesis
    using release.strong_reset_ok [OF ok assms(2,3)] b(2) by (auto simp: strong_reset_def occ_def)
qed

theorem intrusive_use_count_witness:
  "\<exists>k s'. strong_use_count 1 linked_nodes = Returns k \<and>
    unat k = card {h'. handles linked_nodes h' = Some (Strong (Some 0))} \<and>
    strong_reset 3 1 linked_nodes = Returns s' \<and> (targets s' 0 = None \<longleftrightarrow> k = 1)"
  by (rule intrusive_use_count [OF reachable_linked_nodes])
    (simp_all add: linked_nodes_def two_nodes_def)

text \<open>C4: \<open>expired\<close> and \<open>lock\<close> agree with the life of the target: a weak handle is expired exactly when its
  control block has no live target, \<open>lock\<close> returns a null handle then, and otherwise a handle to the
  target, which it keeps alive.\<close>

theorem intrusive_lock:
  assumes "reachable s" "handles_fit s" "handles s w = Some (Weak p)" "handles s h = None"
  shows "\<exists>e s' q. weak_expired w s = Returns e \<and> weak_lock h w s = Returns s' \<and> reachable s' \<and>
    handles s' h = Some (Strong q) \<and> (e \<longleftrightarrow> q = None) \<and>
    (\<forall>t. q = Some t \<longleftrightarrow> (\<exists>c ob. p = Some c \<and> targets s t = Some ob \<and> tgt_control ob = c))"
proof -
  note ok = reachable_ok [OF assms(1)]
  obtain s' q where l: "weak_lock h w s = Returns s'" "handles s' = (handles s)(h \<mapsto> Strong q)"
    "q = (case p of None \<Rightarrow> None | Some c \<Rightarrow> (case blocks s c of None \<Rightarrow> None | Some b \<Rightarrow> cb_target b))"
    using weak_lock_ok [OF ok assms(2-4)] by blast
  have "reachable s'"
    using reachable.call [OF assms(1,2), of "Weak_lock h w" "Suc (card (dom (targets s)))"] l(1) assms(3,4)
    by (simp add: addr_iffs)
  moreover have "weak_expired w s = Returns (q = None)"
  proof (cases p)
    case None
    then show ?thesis using assms(3) l(3) by (simp add: weak_expired_def weak_at_def)
  next
    case (Some c)
    then obtain b where b: "blocks s c = Some b" using weak_handle_block [OF ok] assms(3) by blast
    have "strong_refs b = 0 \<longleftrightarrow> cb_target b = None"
      using strong_okD [OF store_okD(5) [OF ok] b] by (cases "cb_target b") auto
    then show ?thesis using assms(3) l(3) Some b
      by (simp add: weak_expired_def weak_at_def block_at_def)
  qed
  moreover have "q = Some t \<longleftrightarrow> (\<exists>c ob. p = Some c \<and> targets s t = Some ob \<and> tgt_control ob = c)" for t
  proof
    assume q: "q = Some t"
    then obtain c b where "p = Some c" "blocks s c = Some b" "cb_target b = Some t"
      using l(3) by (auto split: option.splits)
    then show "\<exists>c ob. p = Some c \<and> targets s t = Some ob \<and> tgt_control ob = c"
      using strong_okD(2) [OF store_okD(5) [OF ok]] by blast
  next
    assume "\<exists>c ob. p = Some c \<and> targets s t = Some ob \<and> tgt_control ob = c"
    then obtain ob where ob: "p = Some (tgt_control ob)" "targets s t = Some ob" by blast
    then obtain b where "blocks s (tgt_control ob) = Some b" "cb_target b = Some t"
      using target_block [OF ok ob(2)] by blast
    then show "q = Some t" using ob(1) l(3) by simp
  qed
  ultimately show ?thesis using l(1,2) by auto
qed

definition watched_node :: store where
  "watched_node = \<lparr>blocks = [0 \<mapsto> \<lparr>strong_refs = 1, weak_refs = 2, cb_target = Some 0\<rparr>],
     targets = [0 \<mapsto> \<lparr>tgt_control = 0, tgt_members = [10]\<rparr>],
     handles = [10 \<mapsto> Strong None, 1 \<mapsto> Strong (Some 0), 5 \<mapsto> Weak (Some 0)]\<rparr>"

lemma run_watched_node: "run_call n (Weak_from_strong 5 1) one_node = Returns watched_node"
  by (simp add: weak_from_strong_def strong_at_def target_at_def one_node_def watched_node_def
      retain_weak_ref_def block_at_def increment_ref_count_def store_ops u_max_def)

lemma reachable_watched_node: "reachable watched_node"
  by (rule reachable.call [OF reachable_one_node handles_fit_examples(2) _ _ run_watched_node [of 2]])
    (simp_all add: one_node_def free_at_def strong_at_addr_def)

theorem intrusive_lock_witness:
  "\<exists>e s' q. weak_expired 5 watched_node = Returns e \<and> weak_lock 6 5 watched_node = Returns s' \<and>
    reachable s' \<and> handles s' 6 = Some (Strong q) \<and> (e \<longleftrightarrow> q = None) \<and>
    (\<forall>t. q = Some t \<longleftrightarrow>
      (\<exists>c ob. Some 0 = Some c \<and> targets watched_node t = Some ob \<and> tgt_control ob = c))"
  by (rule intrusive_lock [OF reachable_watched_node])
    (simp_all add: watched_node_def handles_fit_def)

text \<open>C5: Move assignment from a member of the target that \<open>*this\<close> alone keeps alive, as in
  \<open>head = std::move(head->next)\<close>, is undefined: the reset of \<open>*this\<close> destroys that target with the
  member, and \<open>other.target_\<close> is read after it. Copy assignment of the same handles is defined, since
  it makes its copy first.\<close>

theorem intrusive_move_from_member:
  assumes "reachable s" "handles_fit s" "handles s this = Some (Strong (Some t))" "targets s t = Some ob"
    and "other \<in> set (tgt_members ob)" "handles s other = Some (Strong q)" "this \<noteq> other"
    and "{h. handles s h = Some (Strong (Some t))} = {this}"
    and "handles s tmp = None" "card (dom (targets s)) < n"
  shows "strong_move_assign n this other s = Undefined \<and>
    (\<exists>s'. strong_copy_assign n tmp this other s = Returns s' \<and> reachable s')"
proof
  note ok = reachable_ok [OF assms(1)]
  have "occ (handles s) (Strong (Some t)) = 1" using assms(8) by (simp add: occ_def)
  then obtain s1 where s1: "strong_reset n this s = Returns s1" "targets s1 t = None"
      "shrinks {} (put_handle this (Strong None) s) s1"
    using release.strong_reset_ok [OF ok assms(3,10)] by (auto simp: strong_reset_def)
  have "other \<in> owned s" using assms(4,5) by (auto simp: owned_def)
  moreover have "other \<notin> owned s1"
  proof
    assume "other \<in> owned s1"
    then obtain u a where u: "targets s1 u = Some a" "other \<in> set (tgt_members a)"
      by (auto simp: owned_def)
    then have "targets s u = Some a" using s1(3) by (auto simp: shrinks_def map_le_def dom_def)
    moreover have "u \<noteq> t" using u(1) s1(2) by auto
    ultimately show False
      using store_okD(7) [OF ok] assms(4,5) u(2) unfolding members_ok_def by blast
  qed
  ultimately have "handles s1 other = None" using s1(3) by (simp add: shrinks_def)
  then show "strong_move_assign n this other s = Undefined"
    using assms(7) s1(1) by (simp add: strong_move_assign_def strong_at_def)
  show "\<exists>s'. strong_copy_assign n tmp this other s = Returns s' \<and> reachable s'"
  proof -
    have a: "call_allowed (Strong_copy_assign tmp this other) s"
      using assms(3,6,9) by (simp add: addr_iffs)
    then obtain s' where "run_call n (Strong_copy_assign tmp this other) s = Returns s'"
      using run_call_ok [OF ok assms(2) a assms(10)] by blast
    then show ?thesis using reachable.call [OF assms(1,2) a assms(10)] by auto
  qed
qed

theorem intrusive_move_from_member_witness:
  "strong_move_assign 3 1 10 linked_nodes = Undefined"
proof -
  have 1: "handles linked_nodes 1 = Some (Strong (Some 0))"
    and 2: "targets linked_nodes 0 = Some \<lparr>tgt_control = 0, tgt_members = [10]\<rparr>"
    and 3: "handles linked_nodes 10 = Some (Strong (Some 1))"
    and 4: "handles linked_nodes 7 = None"
    and 5: "card (dom (targets linked_nodes)) < 3"
    by (simp_all add: linked_nodes_def two_nodes_def)
  have 6: "{h. handles linked_nodes h = Some (Strong (Some 0))} = {1}"
    by (auto simp: linked_nodes_def split: if_splits)
  show ?thesis
    using intrusive_move_from_member [OF reachable_linked_nodes handles_fit_examples(4) 1 2 _ 3 _ 6 4 5]
    by simp
qed


text \<open>The watched node with its count at the largest \<open>size_t\<close>.\<close>

definition full_node :: store where
  "full_node = put_block 0 \<lparr>strong_refs = u_max, weak_refs = 2, cb_target = Some 0\<rparr> watched_node"


text \<open>C37: When the constructor of the object throws after it has initialised members (null, by copies, by moves, as
  weak handles to arguments, by \<open>lock\<close>, also from members before them), \<open>make_intrusive\<close> still returns the
  store as a client may find it: the control block and the members are gone, no target has been added, and
  the references the members had taken are given back. A handle that a member was moved from is null; every
  other handle is as before, unless it died with a target that a moved handle alone kept alive. Without a
  move, every block with its counts, every target and every handle is exactly as before the call.\<close>

theorem intrusive_construction_throws:
  assumes "reachable s" "handles_fit s" "call_allowed (Make_throws c t ms) s" "card (dom (targets s)) < n"
  shows "\<exists>s'. make_intrusive_throws n c t ms s = Returns s' \<and> reachable s' \<and>
    blocks s' c = None \<and> targets s' \<subseteq>\<^sub>m targets s \<and> (\<forall>m \<in> fst ` set ms. handles s' m = None) \<and>
    (\<forall>h. h \<notin> fst ` set ms \<and> (h \<in> owned s \<longrightarrow> h \<in> owned s') \<longrightarrow>
      handles s' h = (if h \<in> moved_from ms then nulled (handles s h) else handles s h)) \<and>
    (moved_from ms = {} \<longrightarrow> s' = s)"
proof -
  note ok = reachable_ok [OF assms(1)]
  have a: "blocks s c = None" "members_allowed ms s" using assms(3) by simp_all
  obtain s' where s': "make_intrusive_throws n c t ms s = Returns s'" "blocks s' c = None"
      "targets s' \<subseteq>\<^sub>m targets s" "\<forall>m \<in> fst ` set ms. handles s' m = None"
      "\<forall>h. h \<notin> fst ` set ms \<and> (h \<in> owned s \<longrightarrow> h \<in> owned s') \<longrightarrow> handles s' h = after_move (moved_from ms) s h"
    using make_intrusive_throws_ok [OF ok a assms(4)] by blast
  moreover have "reachable s'" using reachable.call [OF assms] s'(1) by simp
  moreover have "moved_from ms = {} \<longrightarrow> s' = s"
    using make_intrusive_throws_restores [OF ok a assms(4)] s'(1) by auto
  ultimately show ?thesis unfolding after_move_def by blast
qed

text \<open>A member copied from an argument, a weak one that watches it, and then the argument moved into a member.\<close>

theorem intrusive_construction_throws_witness:
  "make_intrusive_throws 2 7 7 [(30, Init_copy 1), (31, Init_watch 1), (32, Init_strong)] one_node = Returns one_node \<and>
   (\<exists>s'. make_intrusive_throws 2 7 7 [(30, Init_copy 1), (31, Init_move 1)] one_node = Returns s' \<and> reachable s' \<and>
     handles s' 1 = Some (Strong None) \<and> handles s' 30 = None \<and> handles s' 31 = None)"
proof -
  let ?copies = "[(30, Init_copy 1), (31, Init_watch 1), (32, Init_strong)]"
  let ?moves = "[(30, Init_copy 1), (31, Init_move 1)]"
  note ops = one_node_def addr_iffs handles_fit_def strong_copy_ctor_def weak_from_strong_def strong_ctor_def
    strong_move_ctor_def strong_at_def target_at_def retain_strong_ref_def retain_weak_ref_def block_at_def Let_def
    increment_ref_count_def u_max_def
  have "call_allowed (Make_throws 7 7 ?copies) one_node" "call_allowed (Make_throws 7 7 ?moves) one_node"
    by (simp_all add: ops)
  moreover have "card (dom (targets one_node)) < 2" by (simp add: one_node_def)
  ultimately show ?thesis
    using intrusive_construction_throws [OF reachable_one_node handles_fit_examples(2), of 7 7 ?copies 2]
      intrusive_construction_throws [OF reachable_one_node handles_fit_examples(2), of 7 7 ?moves 2]
    by (auto simp: one_node_def owned_def)
qed

end
