(* ===== verification/IntrusiveDepth.thy ===== *)
theory IntrusiveDepth
  imports IntrusivePrograms
begin

text \<open>
  How deep the releases of \<open>core/intrusive_ptr.h\<close> nest: stack that is enough gives the one result there
  is, and a list of \<open>k\<close> nodes that own each other takes exactly \<open>k\<close> nested releases to destroy.
\<close>

section \<open>More stack never changes a result\<close>

definition extends :: "(cb_addr \<Rightarrow> store \<Rightarrow> store outcome) \<Rightarrow> (cb_addr \<Rightarrow> store \<Rightarrow> store outcome) \<Rightarrow> bool" where
  "extends rel rel' \<longleftrightarrow> (\<forall>c s s'. rel c s = Returns s' \<longrightarrow> rel' c s = Returns s')"

lemma extendsD: "extends rel rel' \<Longrightarrow> rel c s = Returns s' \<Longrightarrow> rel' c s = Returns s'"
  by (simp add: extends_def)

lemma strong_reset_extends:
  "extends rel rel' \<Longrightarrow> strong_reset_with rel h s = Returns s' \<Longrightarrow> strong_reset_with rel' h s = Returns s'"
  by (cases "strong_at h s") (auto simp: strong_reset_with_def Let_def bnd_eq_Returns dest: extendsD split: option.splits)

lemma handle_dtor_extends:
  "extends rel rel' \<Longrightarrow> handle_dtor_with rel h s = Returns s' \<Longrightarrow> handle_dtor_with rel' h s = Returns s'"
  by (auto simp: handle_dtor_with_def bnd_eq_Returns dest: strong_reset_extends split: option.splits handle.splits)

lemma members_dtor_extends:
  "extends rel rel' \<Longrightarrow> members_dtor_with rel hs s = Returns s' \<Longrightarrow> members_dtor_with rel' hs s = Returns s'"
  by (induction hs arbitrary: s) (auto simp: bnd_eq_Returns dest: handle_dtor_extends)

lemma delete_target_extends:
  "extends rel rel' \<Longrightarrow> delete_target_with rel t s = Returns s' \<Longrightarrow> delete_target_with rel' t s = Returns s'"
  by (auto simp: delete_target_with_def bnd_eq_Returns dest: members_dtor_extends)

lemma release_extends_Suc: "extends (release_strong_ref n) (release_strong_ref (Suc n))"
proof (induction n)
  case (Suc n)
  show ?case
    unfolding extends_def
  proof (intro allI impI)
    fix c s s'
    assume "release_strong_ref (Suc n) c s = Returns s'"
    then show "release_strong_ref (Suc (Suc n)) c s = Returns s'"
      using delete_target_extends [OF Suc]
      by (cases "block_at c s")
        (auto simp: Let_def release_strong_ref.simps(2) [of n] release_strong_ref.simps(2) [of "Suc n"]
          simp del: release_strong_ref.simps(2) split: option.splits if_splits)
  qed
qed (simp add: extends_def)

lemma release_extends: "n \<le> m \<Longrightarrow> extends (release_strong_ref n) (release_strong_ref m)"
proof (induction m rule: dec_induct)
  case (step m)
  then show ?case using release_extends_Suc [of m] unfolding extends_def by blast
qed (simp add: extends_def)

lemma strong_reset_more: "strong_reset n h s = Returns s' \<Longrightarrow> n \<le> m \<Longrightarrow> strong_reset m h s = Returns s'"
  unfolding strong_reset_def by (rule strong_reset_extends [OF release_extends])

lemma strong_dtor_more: "strong_dtor n h s = Returns s' \<Longrightarrow> n \<le> m \<Longrightarrow> strong_dtor m h s = Returns s'"
  by (auto simp: strong_dtor_def bnd_eq_Returns dest: strong_reset_more)

lemma run_call_more: "run_call n c s = Returns s' \<Longrightarrow> n \<le> m \<Longrightarrow> run_call m c s = Returns s'"
  by (cases c)
    (auto simp: strong_copy_assign_def strong_move_assign_def make_intrusive_throws_def Let_def bnd_eq_Returns
      dest: strong_reset_more strong_dtor_more members_dtor_extends [OF release_extends] split: if_splits)

text \<open>So an allowed call on a reachable store has one final store, whatever the stack it is given.\<close>

lemma run_call_one_result:
  assumes "reachable s" "handles_fit s" "call_allowed c s"
  shows "\<exists>s'. \<forall>n. card (dom (targets s)) < n \<longrightarrow> run_call n c s = Returns s'"
proof -
  obtain s' where "run_call (Suc (card (dom (targets s)))) c s = Returns s'"
    using run_call_ok [OF reachable_ok [OF assms(1)] assms(2,3)] by blast
  then show ?thesis using run_call_more by (meson Suc_leI)
qed

section \<open>Chains\<close>

text \<open>
  The handle \<open>h\<close> is the only strong one to the first node; a node is a target with its control block and
  one handle among its members, the only strong one to the next node.
\<close>

type_synonym node = "target_addr \<times> cb_addr \<times> handle_addr"

definition node_at :: "store \<Rightarrow> node \<Rightarrow> bool" where
  "node_at s = (\<lambda>(t, c, m). targets s t = Some \<lparr>tgt_control = c, tgt_members = [m]\<rparr> \<and>
     (\<exists>b. blocks s c = Some b \<and> strong_refs b = 1 \<and> cb_target b = Some t))"

fun chain :: "store \<Rightarrow> handle_addr \<Rightarrow> node list \<Rightarrow> bool" where
  "chain s h [] \<longleftrightarrow> handles s h = Some (Strong None)"
| "chain s h ((t, c, m) # ns) \<longleftrightarrow> handles s h = Some (Strong (Some t)) \<and> node_at s (t, c, m) \<and> chain s m ns"

definition separate :: "handle_addr \<Rightarrow> node list \<Rightarrow> bool" where
  "separate h ns \<longleftrightarrow> distinct (map fst ns) \<and> distinct (map (fst \<circ> snd) ns) \<and> distinct (h # map (snd \<circ> snd) ns)"

lemma separate_Cons [simp]:
  "separate h ((t, c, m) # ns) \<longleftrightarrow> separate m ns \<and> t \<notin> fst ` set ns \<and> c \<notin> (fst \<circ> snd) ` set ns \<and>
     h \<noteq> m \<and> h \<notin> (snd \<circ> snd) ` set ns"
  by (auto simp: separate_def)

lemma chain_frame:
  assumes "chain s h ns" "handles s' h = handles s h"
    and "\<forall>(t, c, m) \<in> set ns. targets s' t = targets s t \<and> blocks s' c = blocks s c \<and> handles s' m = handles s m"
  shows "chain s' h ns"
  using assms by (induction ns arbitrary: h) (fastforce simp: node_at_def)+

lemma reset_chain:
  assumes "chain s h ns" "separate h ns"
  shows "if n < length ns then strong_reset_with (release_strong_ref n) h s = Undefined
    else \<exists>s'. strong_reset_with (release_strong_ref n) h s = Returns s' \<and>
      (\<forall>c. c \<notin> (fst \<circ> snd) ` set ns \<longrightarrow> blocks s' c = blocks s c)"
  using assms
proof (induction ns arbitrary: n h s)
  case Nil
  then show ?case by (simp add: strong_reset_with_def strong_at_def Let_def put_handle_def)
next
  case (Cons node ns)
  obtain t c m where node: "node = (t, c, m)" by (cases node)
  obtain b where b: "handles s h = Some (Strong (Some t))" "chain s m ns"
      "targets s t = Some \<lparr>tgt_control = c, tgt_members = [m]\<rparr>" "blocks s c = Some b" "strong_refs b = 1"
      "cb_target b = Some t"
    using Cons.prems(1) by (auto simp: node node_at_def)
  have sep: "separate m ns" "t \<notin> fst ` set ns" "c \<notin> (fst \<circ> snd) ` set ns" "h \<noteq> m" "h \<notin> (snd \<circ> snd) ` set ns"
    using Cons.prems(2) by (simp_all add: node)
  let ?s1 = "put_handle h (Strong None) s"
  let ?s2 = "end_target t (put_block c (b\<lparr>strong_refs := 0, cb_target := None\<rparr>) ?s1)"
  have reset: "strong_reset_with (release_strong_ref n) h s = release_strong_ref n c ?s1"
    using b by (simp add: strong_reset_with_def strong_at_def Let_def target_at_def put_handle_def)
  show ?case
  proof (cases n)
    case 0
    then show ?thesis using reset by (simp add: node)
  next
    case (Suc k)
    have "chain ?s2 m ns"
      using sep b(2) by (intro chain_frame [OF b(2)]) (force simp: end_target_def put_block_def put_handle_def)+
    note IH = Cons.IH [OF this sep(1), of k]
    have nil: "members_dtor_with rel [] = Returns" for rel by (simp add: fun_eq_iff)
    have release: "release_strong_ref n c ?s1 =
        bnd (handle_dtor_with (release_strong_ref k) m ?s2) (\<lambda>s'. release_weak_ref c s')"
      using b by (simp add: Suc block_at_def Let_def delete_target_with_def target_at_def put_handle_def put_block_def nil)
    obtain p where "handles ?s2 m = Some (Strong p)" using \<open>chain ?s2 m ns\<close> by (cases ns) auto
    then have dtor: "handle_dtor_with (release_strong_ref k) m ?s2 =
        bnd (strong_reset_with (release_strong_ref k) m ?s2) (\<lambda>s'. Returns (end_handle m s'))"
      by (simp add: handle_dtor_with_def)
    show ?thesis
    proof (cases "k < length ns")
      case True
      then show ?thesis using IH reset release dtor Suc by (simp add: node)
    next
      case False
      then obtain s' where s': "strong_reset_with (release_strong_ref k) m ?s2 = Returns s'"
          "\<forall>x. x \<notin> (fst \<circ> snd) ` set ns \<longrightarrow> blocks s' x = blocks ?s2 x"
        using IH by auto
      have "blocks s' c = Some (b\<lparr>strong_refs := 0, cb_target := None\<rparr>)"
        using s'(2) sep(3) by (simp add: end_target_def put_block_def)
      then show ?thesis
        using False s' reset release dtor Suc
        by (auto simp: node release_weak_ref_def block_at_def Let_def end_handle_def free_block_def put_block_def
            end_target_def put_handle_def)
    qed
  qed
qed

text \<open>C38: Destroying a list destroys its nodes recursively: resetting the only handle to the first of \<open>k\<close> nodes,
  each of which owns the next, nests exactly \<open>k\<close> releases. With less stack than that it is undefined,
  with that much it returns; so the depth of the recursion is the length of the list and no constant
  stack is enough for every list.\<close>

theorem intrusive_chain_depth:
  assumes "chain s h ns" "separate h ns"
  shows "(n < length ns \<longrightarrow> strong_reset n h s = Undefined) \<and>
    (length ns \<le> n \<longrightarrow> (\<exists>s'. strong_reset n h s = Returns s'))"
  using reset_chain [OF assms, of n] by (auto simp: strong_reset_def split: if_splits)

theorem intrusive_chain_depth_witness:
  "strong_reset 1 1 linked_nodes = Undefined \<and> (\<exists>s'. strong_reset 2 1 linked_nodes = Returns s')"
  using intrusive_chain_depth [of linked_nodes 1 "[(0, 0, 10), (1, 1, 20)]" 1]
    intrusive_chain_depth [of linked_nodes 1 "[(0, 0, 10), (1, 1, 20)]" 2]
  by (simp add: node_at_def separate_def linked_nodes_def two_nodes_def)

end
