(* ===== verification/IntrusiveThreads.thy ===== *)
theory IntrusiveThreads
  imports Status
begin

text \<open>
  \<open>core/intrusive_ptr.h\<close> with threads: the atomic steps of \<open>increment_ref_count\<close>, \<open>try_retain_strong_ref\<close>,
  \<open>release_strong_ref\<close>, \<open>release_weak_ref\<close> and \<open>lock\<close> on one control block and its target, in any
  interleaving, with compare-exchange operations that may fail spuriously. The interleaving is
  sequentially consistent; \<open>IntrusiveOrders\<close> adds the memory orders of the sources.
\<close>

section \<open>Threads and the shared block\<close>

record shared =
  sh_strong :: size_t
  sh_weak :: size_t
  sh_target :: bool
  block_alive :: bool
  target_alive :: bool
  destroyed :: nat
  freed :: nat

text \<open>
  \<open>sh_target\<close>: the atomic pointer is not null. \<open>destroyed\<close> and \<open>freed\<close> count how often the target was
  destroyed and the block deleted.

  Where a thread stands between two atomic steps of a function:
\<close>

datatype count = StrongCount | WeakCount

datatype pc =
    Idle
  | Retain_load count
  | Retain_cas count size_t
  | Strong_sub
  | Strong_exchange
  | Target_delete bool
  | Weak_sub
  | Block_delete
  | Lock_load
  | Lock_cas size_t
  | Lock_target
  | Aborted

text \<open>A thread holds strong and weak handles to the target and runs at most one operation.\<close>

record thread =
  own_strong :: nat
  own_weak :: nat
  pc_of :: pc

section \<open>The steps of one thread\<close>

inductive tstep :: "thread \<Rightarrow> shared \<Rightarrow> thread \<Rightarrow> shared \<Rightarrow> bool" where
  begin_copy: "pc_of t = Idle \<Longrightarrow> 0 < own_strong t \<Longrightarrow>
    tstep t sh (t\<lparr>pc_of := Retain_load StrongCount\<rparr>) sh"
| begin_watch: "pc_of t = Idle \<Longrightarrow> 0 < own_strong t + own_weak t \<Longrightarrow>
    tstep t sh (t\<lparr>pc_of := Retain_load WeakCount\<rparr>) sh"
| begin_release: "pc_of t = Idle \<Longrightarrow> 0 < own_strong t \<Longrightarrow>
    tstep t sh (t\<lparr>own_strong := own_strong t - 1, pc_of := Strong_sub\<rparr>) sh"
| begin_unwatch: "pc_of t = Idle \<Longrightarrow> 0 < own_weak t \<Longrightarrow>
    tstep t sh (t\<lparr>own_weak := own_weak t - 1, pc_of := Weak_sub\<rparr>) sh"
| begin_lock: "pc_of t = Idle \<Longrightarrow> 0 < own_weak t \<Longrightarrow> tstep t sh (t\<lparr>pc_of := Lock_load\<rparr>) sh"
| load_strong: "pc_of t = Retain_load StrongCount \<Longrightarrow>
    tstep t sh (t\<lparr>pc_of := Retain_cas StrongCount (sh_strong sh)\<rparr>) sh"
| load_weak: "pc_of t = Retain_load WeakCount \<Longrightarrow>
    tstep t sh (t\<lparr>pc_of := Retain_cas WeakCount (sh_weak sh)\<rparr>) sh"
| retain_abort: "pc_of t = Retain_cas k current \<Longrightarrow> current = u_max \<Longrightarrow>
    tstep t sh (t\<lparr>pc_of := Aborted\<rparr>) sh"
| cas_strong: "pc_of t = Retain_cas StrongCount current \<Longrightarrow> current \<noteq> u_max \<Longrightarrow> sh_strong sh = current \<Longrightarrow>
    tstep t sh (t\<lparr>own_strong := own_strong t + 1, pc_of := Idle\<rparr>) (sh\<lparr>sh_strong := current + 1\<rparr>)"
| cas_strong_fails: "pc_of t = Retain_cas StrongCount current \<Longrightarrow> current \<noteq> u_max \<Longrightarrow>
    tstep t sh (t\<lparr>pc_of := Retain_cas StrongCount (sh_strong sh)\<rparr>) sh"
| cas_weak: "pc_of t = Retain_cas WeakCount current \<Longrightarrow> current \<noteq> u_max \<Longrightarrow> sh_weak sh = current \<Longrightarrow>
    tstep t sh (t\<lparr>own_weak := own_weak t + 1, pc_of := Idle\<rparr>) (sh\<lparr>sh_weak := current + 1\<rparr>)"
| cas_weak_fails: "pc_of t = Retain_cas WeakCount current \<Longrightarrow> current \<noteq> u_max \<Longrightarrow>
    tstep t sh (t\<lparr>pc_of := Retain_cas WeakCount (sh_weak sh)\<rparr>) sh"
| strong_sub: "pc_of t = Strong_sub \<Longrightarrow> tstep t sh
    (t\<lparr>pc_of := (if sh_strong sh = 1 then Strong_exchange else Idle)\<rparr>)
    (sh\<lparr>sh_strong := sh_strong sh - 1\<rparr>)"
| strong_exchange: "pc_of t = Strong_exchange \<Longrightarrow>
    tstep t sh (t\<lparr>pc_of := Target_delete (sh_target sh)\<rparr>) (sh\<lparr>sh_target := False\<rparr>)"
| delete_null: "pc_of t = Target_delete False \<Longrightarrow> tstep t sh (t\<lparr>pc_of := Idle\<rparr>) sh"
| delete_target: "pc_of t = Target_delete True \<Longrightarrow>
    tstep t sh (t\<lparr>pc_of := Weak_sub\<rparr>) (sh\<lparr>target_alive := False, destroyed := destroyed sh + 1\<rparr>)"
| weak_sub: "pc_of t = Weak_sub \<Longrightarrow> tstep t sh
    (t\<lparr>pc_of := (if sh_weak sh = 1 then Block_delete else Idle)\<rparr>)
    (sh\<lparr>sh_weak := sh_weak sh - 1\<rparr>)"
| delete_block: "pc_of t = Block_delete \<Longrightarrow>
    tstep t sh (t\<lparr>pc_of := Idle\<rparr>) (sh\<lparr>block_alive := False, freed := freed sh + 1\<rparr>)"
| lock_load: "pc_of t = Lock_load \<Longrightarrow> tstep t sh (t\<lparr>pc_of := Lock_cas (sh_strong sh)\<rparr>) sh"
| lock_expired: "pc_of t = Lock_cas current \<Longrightarrow> current = 0 \<Longrightarrow> tstep t sh (t\<lparr>pc_of := Idle\<rparr>) sh"
| lock_cas: "pc_of t = Lock_cas current \<Longrightarrow> current \<noteq> 0 \<Longrightarrow> sh_strong sh = current \<Longrightarrow>
    tstep t sh (t\<lparr>pc_of := Lock_target\<rparr>) (sh\<lparr>sh_strong := current + 1\<rparr>)"
| lock_cas_fails: "pc_of t = Lock_cas current \<Longrightarrow> current \<noteq> 0 \<Longrightarrow>
    tstep t sh (t\<lparr>pc_of := Lock_cas (sh_strong sh)\<rparr>) sh"
| lock_target: "pc_of t = Lock_target \<Longrightarrow> tstep t sh
    (t\<lparr>own_strong := own_strong t + (if sh_target sh then 1 else 0), pc_of := Idle\<rparr>) sh"

inductive_cases tstep_cases: "tstep t sh t' sh'"

text \<open>What a thread is about to touch must be alive, and what it holds must be there to be used.\<close>

definition thread_safe :: "thread \<Rightarrow> shared \<Rightarrow> bool" where
  "thread_safe t sh \<longleftrightarrow>
     (pc_of t \<notin> {Idle, Aborted} \<longrightarrow> block_alive sh) \<and>
     (pc_of t = Target_delete True \<longrightarrow> target_alive sh) \<and>
     (pc_of t = Lock_target \<longrightarrow> sh_target sh) \<and>
     (0 < own_strong t \<longrightarrow> block_alive sh \<and> target_alive sh \<and> sh_target sh) \<and>
     (0 < own_weak t \<longrightarrow> block_alive sh) \<and>
     pc_of t \<noteq> Aborted"

section \<open>The program\<close>

definition tally :: "(thread \<Rightarrow> nat) \<Rightarrow> thread list \<Rightarrow> nat" where
  "tally f ts = sum_list (map f ts)"

definition idle_thread :: thread where
  "idle_thread = \<lparr>own_strong = 0, own_weak = 0, pc_of = Idle\<rparr>"

text \<open>\<open>make_intrusive\<close> in the first of \<open>n + 1\<close> threads: \<open>IntrusiveControlBlock{1, 1, this}\<close>.\<close>

definition new_shared :: shared where
  "new_shared = \<lparr>sh_strong = 1, sh_weak = 1, sh_target = True, block_alive = True, target_alive = True,
     destroyed = 0, freed = 0\<rparr>"

definition new_threads :: "nat \<Rightarrow> thread list" where
  "new_threads n = idle_thread\<lparr>own_strong := 1\<rparr> # replicate n idle_thread"

text \<open>As many references as threads and handles fit the address space.\<close>

definition refs_fit :: "thread list \<Rightarrow> bool" where
  "refs_fit ts \<longleftrightarrow> tally own_strong ts + tally own_weak ts + length ts < 2 ^ 61"

text \<open>A thread makes a step, or hands one of its handles to another one by a move.\<close>

inductive run_threads :: "nat \<Rightarrow> thread list \<Rightarrow> shared \<Rightarrow> bool" for n where
  threads_start: "run_threads n (new_threads n) new_shared"
| threads_step: "\<lbrakk>run_threads n ts sh; refs_fit ts; i < length ts; tstep (ts ! i) sh t' sh'\<rbrakk> \<Longrightarrow>
    run_threads n (ts[i := t']) sh'"
| pass_strong: "\<lbrakk>run_threads n ts sh; i < length ts; j < length ts; i \<noteq> j;
    pc_of (ts ! i) = Idle; pc_of (ts ! j) = Idle; 0 < own_strong (ts ! i)\<rbrakk> \<Longrightarrow>
    run_threads n (ts[i := (ts ! i)\<lparr>own_strong := own_strong (ts ! i) - 1\<rparr>,
      j := (ts ! j)\<lparr>own_strong := own_strong (ts ! j) + 1\<rparr>]) sh"
| pass_weak: "\<lbrakk>run_threads n ts sh; i < length ts; j < length ts; i \<noteq> j;
    pc_of (ts ! i) = Idle; pc_of (ts ! j) = Idle; 0 < own_weak (ts ! i)\<rbrakk> \<Longrightarrow>
    run_threads n (ts[i := (ts ! i)\<lparr>own_weak := own_weak (ts ! i) - 1\<rparr>,
      j := (ts ! j)\<lparr>own_weak := own_weak (ts ! j) + 1\<rparr>]) sh"

section \<open>The invariant\<close>

text \<open>
  The strong references a thread holds: its handles and one it is about to give back or has just got
  from \<open>lock\<close>. The weak ones likewise. A finaliser is between the last strong release and the deletion
  of the target, and holds the implicit weak reference.
\<close>

definition strong_held :: "thread \<Rightarrow> nat" where
  "strong_held t = own_strong t + (if pc_of t = Strong_sub \<or> pc_of t = Lock_target then 1 else 0)"

definition weak_held :: "thread \<Rightarrow> nat" where
  "weak_held t = own_weak t + (if pc_of t = Weak_sub then 1 else 0)"

definition finalising :: "thread \<Rightarrow> nat" where
  "finalising t = (if pc_of t = Strong_exchange \<or> pc_of t = Target_delete True then 1 else 0)"

definition exchanging :: "thread \<Rightarrow> nat" where
  "exchanging t = (if pc_of t = Strong_exchange then 1 else 0)"

definition freeing :: "thread \<Rightarrow> nat" where
  "freeing t = (if pc_of t = Block_delete then 1 else 0)"

text \<open>An operation in progress is on a handle that the thread keeps.\<close>

definition thread_ok :: "thread \<Rightarrow> bool" where
  "thread_ok t \<longleftrightarrow> (case pc_of t of
       Retain_load StrongCount \<Rightarrow> 0 < own_strong t
     | Retain_cas StrongCount c \<Rightarrow> 0 < own_strong t \<and> c \<noteq> u_max
     | Retain_load WeakCount \<Rightarrow> 0 < own_strong t + own_weak t
     | Retain_cas WeakCount c \<Rightarrow> 0 < own_strong t + own_weak t \<and> c \<noteq> u_max
     | Lock_load \<Rightarrow> 0 < own_weak t
     | Lock_cas _ \<Rightarrow> 0 < own_weak t
     | Lock_target \<Rightarrow> 0 < own_weak t
     | Target_delete b \<Rightarrow> b
     | Aborted \<Rightarrow> False
     | _ \<Rightarrow> True)"

definition counts_ok :: "nat \<Rightarrow> nat \<Rightarrow> nat \<Rightarrow> nat \<Rightarrow> nat \<Rightarrow> shared \<Rightarrow> bool" where
  "counts_ok S W F X B sh \<longleftrightarrow>
     destroyed sh = (if target_alive sh then 0 else 1) \<and> freed sh = (if block_alive sh then 0 else 1) \<and>
     (if block_alive sh
      then unat (sh_strong sh) = S \<and> unat (sh_weak sh) = W + (if 0 < S then 1 else 0) + F \<and>
        (if 0 < S then 1 else 0) + F \<le> 1 \<and> (target_alive sh \<longleftrightarrow> 0 < S + F) \<and>
        (sh_target sh \<longleftrightarrow> 0 < S + X) \<and> B = (if sh_weak sh = 0 then 1 else 0)
      else S = 0 \<and> W = 0 \<and> F = 0 \<and> B = 0 \<and> \<not> target_alive sh)"

definition threads_ok :: "thread list \<Rightarrow> shared \<Rightarrow> bool" where
  "threads_ok ts sh \<longleftrightarrow> (\<forall>t \<in> set ts. thread_ok t) \<and>
     counts_ok (tally strong_held ts) (tally weak_held ts) (tally finalising ts) (tally exchanging ts)
       (tally freeing ts) sh"

lemma tally_ge: "t \<in> set ts \<Longrightarrow> f t \<le> tally f ts"
  by (induction ts) (auto simp: tally_def)

text \<open>The tally without one thread.\<close>

definition rest :: "(thread \<Rightarrow> nat) \<Rightarrow> thread list \<Rightarrow> nat \<Rightarrow> nat" where
  "rest f ts i = tally f (take i ts @ drop (Suc i) ts)"

lemma tally_rest: "i < length ts \<Longrightarrow> tally f ts = rest f ts i + f (ts ! i)"
  by (subst id_take_nth_drop) (simp_all add: rest_def tally_def ac_simps)

lemma tally_rest_update: "i < length ts \<Longrightarrow> tally f (ts[i := t]) = rest f ts i + f t"
  by (simp add: upd_conv_take_nth_drop rest_def tally_def ac_simps)

lemma tally_mono: "(\<And>t. f t \<le> g t) \<Longrightarrow> tally f ts \<le> tally g ts"
  by (induction ts) (auto simp: tally_def add_mono)

lemma rest_mono: "(\<And>t. f t \<le> g t) \<Longrightarrow> rest f ts i \<le> rest g ts i"
  unfolding rest_def by (rule tally_mono)

section \<open>Every step keeps it\<close>

lemma word_readings:
  fixes x :: size_t
  shows "x = 0 \<longleftrightarrow> unat x = 0" "x = 1 \<longleftrightarrow> unat x = 1" "unat x < 2 ^ 62 \<Longrightarrow> unat (x + 1) = unat x + 1"
    "unat x < 2 ^ 62 \<Longrightarrow> x \<noteq> u_max" "0 < unat x \<Longrightarrow> unat (x - 1) = unat x - 1"
proof -
  show "x = 0 \<longleftrightarrow> unat x = 0" "x = 1 \<longleftrightarrow> unat x = 1" by (simp_all add: word_unat_eq_iff)
  have "unat (u_max :: size_t) = 2 ^ 64 - 1" unfolding unat_eq_nat_uint by simp
  then show "unat x < 2 ^ 62 \<Longrightarrow> x \<noteq> u_max" by auto
  show "unat x < 2 ^ 62 \<Longrightarrow> unat (x + 1) = unat x + 1" by (simp add: unat_word_ariths)
  show "0 < unat x \<Longrightarrow> unat (x - 1) = unat x - 1" by (intro unat_minus_one) auto
qed

lemmas held_defs = strong_held_def weak_held_def finalising_def exchanging_def freeing_def

lemma tstep_ok:
  assumes "tstep t sh t' sh'" "thread_ok t" "X0 \<le> F0"
    and "S0 + strong_held t + W0 + weak_held t < 2 ^ 61"
    and "counts_ok (S0 + strong_held t) (W0 + weak_held t) (F0 + finalising t) (X0 + exchanging t)
      (B0 + freeing t) sh"
  shows "thread_ok t' \<and> counts_ok (S0 + strong_held t') (W0 + weak_held t') (F0 + finalising t')
    (X0 + exchanging t') (B0 + freeing t') sh'"
proof -
  let ?s = "sh_strong sh" and ?w = "sh_weak sh"
  have bounds: "unat ?s < 2 ^ 62" "unat ?w < 2 ^ 62" if "block_alive sh"
    using assms(4,5) that by (auto simp: counts_ok_def split: if_splits)
  have sum: "block_alive sh \<Longrightarrow> unat (?s + 1) = unat ?s + 1" "block_alive sh \<Longrightarrow> unat (?w + 1) = unat ?w + 1"
    "block_alive sh \<Longrightarrow> ?s \<noteq> u_max" "block_alive sh \<Longrightarrow> ?w \<noteq> u_max"
    using bounds word_readings(3,4) by blast+
  have diff: "0 < unat ?s \<Longrightarrow> unat (?s - 1) = unat ?s - 1" "0 < unat ?w \<Longrightarrow> unat (?w - 1) = unat ?w - 1"
    by (rule word_readings(5), assumption)+
  have small: "?w = 0 \<longleftrightarrow> unat ?w = 0" "?s = 0 \<longleftrightarrow> unat ?s = 0" "?s = 1 \<longleftrightarrow> unat ?s = 1" "?w = 1 \<longleftrightarrow> unat ?w = 1"
    "?w - 1 = 0 \<longleftrightarrow> unat (?w - 1) = 0" "?w + 1 = 0 \<longleftrightarrow> unat (?w + 1) = 0"
    by (rule word_readings(1,2))+
  note defs = thread_ok_def counts_ok_def held_defs
  from assms(1) show ?thesis
  proof (cases rule: tstep.cases)
    case (retain_abort k current)
    then show ?thesis using assms(2) by (cases k) (simp_all add: defs)
  next
    case (cas_strong current)
    then show ?thesis using assms(2-5) sum by (simp add: defs split: if_splits)
  next
    case (cas_weak current)
    then show ?thesis using assms(2-5) sum small by (auto simp: defs simp del: unat_eq_0 split: if_splits)
  next
    case strong_sub
    then show ?thesis using assms(2-5) small diff by (simp add: defs del: unat_eq_0 split: if_splits)
  next
    case weak_sub
    then show ?thesis using assms(2-5) small diff by (simp add: defs del: unat_eq_0 split: if_splits)
  next
    case (lock_cas current)
    then show ?thesis using assms(2-5) sum small by (auto simp: defs simp del: unat_eq_0 split: if_splits)
  qed (use assms(2-5) sum small in \<open>simp_all add: defs split: if_splits\<close>)
qed

lemma tally_add: "tally (\<lambda>t. f t + g t) ts = tally f ts + tally g ts"
  by (induction ts) (auto simp: tally_def)

lemma tally_const: "tally (\<lambda>t. 1) ts = length ts"
  by (induction ts) (auto simp: tally_def)

lemma held_bound: "refs_fit ts \<Longrightarrow> tally strong_held ts + tally weak_held ts < 2 ^ 61"
proof -
  assume fit: "refs_fit ts"
  have "tally (\<lambda>t. strong_held t + weak_held t) ts \<le> tally (\<lambda>t. (own_strong t + own_weak t) + 1) ts"
    by (rule tally_mono) (simp add: held_defs)
  then have "tally strong_held ts + tally weak_held ts \<le> tally own_strong ts + tally own_weak ts + length ts"
    by (simp only: tally_add tally_const)
  then show ?thesis using fit by (simp add: refs_fit_def)
qed

lemma threads_ok_step:
  assumes ok: "threads_ok ts sh" and fit: "refs_fit ts" and i: "i < length ts"
    and step: "tstep (ts ! i) sh t' sh'"
  shows "threads_ok (ts[i := t']) sh'"
proof -
  have "rest exchanging ts i \<le> rest finalising ts i" by (rule rest_mono) (simp add: held_defs)
  moreover have "thread_ok (ts ! i)" using ok i by (simp add: threads_ok_def)
  moreover have "counts_ok (rest strong_held ts i + strong_held (ts ! i)) (rest weak_held ts i + weak_held (ts ! i))
      (rest finalising ts i + finalising (ts ! i)) (rest exchanging ts i + exchanging (ts ! i))
      (rest freeing ts i + freeing (ts ! i)) sh"
    using ok i by (simp add: threads_ok_def flip: tally_rest)
  moreover have "rest strong_held ts i + strong_held (ts ! i) + rest weak_held ts i + weak_held (ts ! i) < 2 ^ 61"
    using held_bound [OF fit] tally_rest [OF i, of strong_held] tally_rest [OF i, of weak_held] by simp
  ultimately have "thread_ok t' \<and> counts_ok (rest strong_held ts i + strong_held t')
      (rest weak_held ts i + weak_held t') (rest finalising ts i + finalising t')
      (rest exchanging ts i + exchanging t') (rest freeing ts i + freeing t') sh'"
    by (intro tstep_ok [OF step])
  then show ?thesis using ok i
    by (auto simp: threads_ok_def tally_rest_update dest: set_update_subset_insert [THEN subsetD])
qed

lemma tally_pass:
  assumes ij: "i < length ts" "j < length ts" "i \<noteq> j" and f: "f a + f b = f (ts ! i) + f (ts ! j)"
  shows "tally f (ts[i := a, j := b]) = tally f ts"
proof -
  have "tally f (ts[i := a, j := b]) + f (ts ! j) = tally f (ts[i := a]) + f b"
    using tally_rest [of j "ts[i := a]" f] tally_rest_update [of j "ts[i := a]" f b] ij by simp
  moreover have "tally f (ts[i := a]) + f (ts ! i) = tally f ts + f a"
    using tally_rest [of i ts f] tally_rest_update [of i ts f a] ij by simp
  ultimately show ?thesis using f by linarith
qed

lemma threads_ok_pass:
  assumes ok: "threads_ok ts sh" and ij: "i < length ts" "j < length ts" "i \<noteq> j"
    and held: "strong_held a + strong_held b = strong_held (ts ! i) + strong_held (ts ! j)"
      "weak_held a + weak_held b = weak_held (ts ! i) + weak_held (ts ! j)"
    and pc: "pc_of a = Idle" "pc_of b = Idle" "pc_of (ts ! i) = Idle" "pc_of (ts ! j) = Idle"
  shows "threads_ok (ts[i := a, j := b]) sh"
proof -
  have "thread_ok a" "thread_ok b" using pc by (simp_all add: thread_ok_def)
  then have "\<forall>t \<in> set (ts[i := a, j := b]). thread_ok t"
    using ok by (auto simp: threads_ok_def dest!: set_update_subset_insert [THEN subsetD])
  then show ?thesis
    using ok pc held by (simp add: threads_ok_def tally_pass [OF ij] held_defs)
qed

lemma run_threads_ok: "run_threads n ts sh \<Longrightarrow> threads_ok ts sh"
proof (induction rule: run_threads.induct)
  case threads_start
  have "tally f (new_threads n) = f (idle_thread\<lparr>own_strong := 1\<rparr>)" if "f idle_thread = 0" for f
    using that by (simp add: tally_def new_threads_def sum_list_replicate)
  then show ?case
    by (auto simp: threads_ok_def counts_ok_def held_defs new_shared_def new_threads_def thread_ok_def
        idle_thread_def)
next
  case (threads_step ts sh i t' sh')
  then show ?case using threads_ok_step by blast
next
  case (pass_strong ts sh i j)
  then show ?case by (intro threads_ok_pass) (auto simp: held_defs)
next
  case (pass_weak ts sh i j)
  then show ?case by (intro threads_ok_pass) (auto simp: held_defs)
qed

section \<open>Properties\<close>

lemma thread_safe_of_ok:
  assumes ok: "threads_ok ts sh" and t: "t \<in> set ts"
  shows "thread_safe t sh"
proof -
  have le: "strong_held t \<le> tally strong_held ts" "weak_held t \<le> tally weak_held ts"
    "finalising t \<le> tally finalising ts" "exchanging t \<le> tally exchanging ts" "freeing t \<le> tally freeing ts"
    using t by (simp_all add: tally_ge)
  have tk: "thread_ok t" using ok t by (simp add: threads_ok_def)
  have c: "counts_ok (tally strong_held ts) (tally weak_held ts) (tally finalising ts) (tally exchanging ts)
      (tally freeing ts) sh" using ok by (simp add: threads_ok_def)
  show ?thesis
  proof (cases "block_alive sh")
    case True
    have "0 < own_strong t \<or> pc_of t = Lock_target \<Longrightarrow> 0 < tally strong_held ts"
      using le(1) by (auto simp: strong_held_def)
    moreover have "pc_of t = Target_delete True \<Longrightarrow> 0 < tally finalising ts"
      using le(3) by (simp add: finalising_def)
    moreover have "pc_of t \<noteq> Aborted" using tk by (auto simp: thread_ok_def)
    ultimately show ?thesis using c True by (auto simp: thread_safe_def counts_ok_def)
  next
    case False
    then have z: "strong_held t = 0" "weak_held t = 0" "finalising t = 0" "freeing t = 0"
      using le c by (simp_all add: counts_ok_def)
    then have "pc_of t = Idle" "own_strong t = 0" "own_weak t = 0"
      using tk by (auto simp: held_defs thread_ok_def split: pc.splits count.splits if_splits)
    then show ?thesis by (simp add: thread_safe_def)
  qed
qed

lemma tstep_progress:
  assumes "pc_of t \<noteq> Idle" "pc_of t \<noteq> Aborted"
  shows "\<exists>t' sh'. tstep t sh t' sh'"
proof (cases "pc_of t")
  case (Retain_load k)
  then show ?thesis by (cases k) (blast intro: tstep.intros)+
next
  case (Retain_cas k c)
  then show ?thesis by (cases k; cases "c = u_max") (blast intro: tstep.intros)+
next
  case (Target_delete b)
  then show ?thesis by (cases b) (auto intro: delete_target delete_null)
next
  case (Lock_cas c)
  then show ?thesis by (cases "c = 0") (blast intro: tstep.intros)+
qed (use assms in \<open>blast intro: tstep.intros\<close>)+

text \<open>C6: With any number of threads copying, watching, locking, releasing and passing on the handles of one
  target, in any interleaving of their atomic steps: no thread ever touches the control block after it
  was deleted, uses or deletes the target after it was destroyed, or gets a null target from a
  successful \<open>lock\<close>; no thread aborts or is stuck inside an operation; the target is destroyed and
  the block deleted at most once.\<close>

theorem intrusive_threads_safe:
  assumes "run_threads n ts sh" "t \<in> set ts"
  shows "thread_safe t sh \<and> (pc_of t \<noteq> Idle \<longrightarrow> (\<exists>t' sh'. tstep t sh t' sh')) \<and>
    destroyed sh \<le> 1 \<and> freed sh \<le> 1"
proof -
  note ok = run_threads_ok [OF assms(1)]
  have safe: "thread_safe t sh" by (rule thread_safe_of_ok [OF ok assms(2)])
  then have "pc_of t \<noteq> Idle \<longrightarrow> (\<exists>t' sh'. tstep t sh t' sh')"
    using tstep_progress [of t sh] by (auto simp: thread_safe_def)
  moreover have "destroyed sh \<le> 1 \<and> freed sh \<le> 1"
    using ok by (simp add: threads_ok_def counts_ok_def)
  ultimately show ?thesis using safe by blast
qed

text \<open>C13: When no thread is inside an operation, the counts are exact: the strong count is the number of strong
  handles of all threads; the target was destroyed if and only if there is none, and the control
  block was deleted if and only if there is no weak handle either. Nothing leaks.\<close>

theorem intrusive_threads_exact:
  assumes "run_threads n ts sh" "list_all (\<lambda>t. pc_of t = Idle) ts"
  shows "(block_alive sh \<longrightarrow> unat (sh_strong sh) = tally own_strong ts) \<and>
    (destroyed sh = 1 \<longleftrightarrow> tally own_strong ts = 0) \<and>
    (freed sh = 1 \<longleftrightarrow> tally own_strong ts + tally own_weak ts = 0)"
proof -
  have idle: "\<forall>t \<in> set ts. pc_of t = Idle" using assms(2) by (simp add: list_all_iff)
  have cong: "tally f ts = tally g ts" if "\<And>t. pc_of t = Idle \<Longrightarrow> f t = g t" for f g
    using idle that by (auto simp: tally_def intro!: arg_cong [of _ _ sum_list])
  have z: "tally (\<lambda>t. 0) ts = 0" by (simp add: tally_def)
  have "tally strong_held ts = tally own_strong ts" "tally weak_held ts = tally own_weak ts"
    "tally finalising ts = 0" "tally exchanging ts = 0" "tally freeing ts = 0"
    using cong [of strong_held own_strong] cong [of weak_held own_weak] cong [of finalising "\<lambda>t. 0"]
      cong [of exchanging "\<lambda>t. 0"] cong [of freeing "\<lambda>t. 0"] z by (simp_all add: held_defs)
  then have c: "counts_ok (tally own_strong ts) (tally own_weak ts) 0 0 0 sh"
    using run_threads_ok [OF assms(1)] by (simp add: threads_ok_def)
  have "0 < tally own_strong ts + tally own_weak ts" if "block_alive sh"
  proof -
    have "sh_weak sh \<noteq> 0" using c that by (auto simp: counts_ok_def split: if_splits)
    then have "unat (sh_weak sh) \<noteq> 0" by (simp add: unat_eq_0)
    then show ?thesis using c that by (auto simp: counts_ok_def)
  qed
  then show ?thesis using c by (auto simp: counts_ok_def split: if_splits)
qed

text \<open>One thread that releases its only handle runs through to the deletion of the block.\<close>

abbreviation "mid p \<equiv> [\<lparr>own_strong = 0, own_weak = 0, pc_of = p\<rparr>]"

lemma run_single:
  "run_threads n [t] sh \<Longrightarrow> refs_fit [t] \<Longrightarrow> tstep t sh t' sh' \<Longrightarrow> run_threads n [t'] sh'"
  using threads_step [of n "[t]" sh 0 t' sh'] by simp

lemma fit_mid: "refs_fit (mid p)"
  by (simp add: refs_fit_def tally_def)

lemma run_to_release: "run_threads 0 (mid Strong_sub) new_shared"
proof -
  have 0: "run_threads 0 [idle_thread\<lparr>own_strong := 1\<rparr>] new_shared"
    using threads_start [of 0] by (simp add: new_threads_def)
  show ?thesis
    by (rule run_single [OF 0])
      (use begin_release [of "idle_thread\<lparr>own_strong := 1\<rparr>" new_shared] in
        \<open>simp_all add: idle_thread_def refs_fit_def tally_def\<close>)
qed

lemma run_to_delete: "run_threads 0 (mid (Target_delete True)) (new_shared\<lparr>sh_strong := 0, sh_target := False\<rparr>)"
proof -
  have 2: "run_threads 0 (mid Strong_exchange) (new_shared\<lparr>sh_strong := 0\<rparr>)"
    by (rule run_single [OF run_to_release fit_mid])
      (use strong_sub [of "hd (mid Strong_sub)" new_shared] in \<open>simp add: new_shared_def\<close>)
  show ?thesis
    by (rule run_single [OF 2 fit_mid])
      (use strong_exchange [of "hd (mid Strong_exchange)" "new_shared\<lparr>sh_strong := 0\<rparr>"] in
        \<open>simp add: new_shared_def\<close>)
qed

lemma run_to_end:
  "run_threads 0 (mid Idle) (new_shared\<lparr>sh_strong := 0, sh_weak := 0, sh_target := False,
     target_alive := False, destroyed := 1, block_alive := False, freed := 1\<rparr>)"
proof -
  have 4: "run_threads 0 (mid Weak_sub) (new_shared\<lparr>sh_strong := 0, sh_target := False,
      target_alive := False, destroyed := 1\<rparr>)"
    by (rule run_single [OF run_to_delete fit_mid])
      (use delete_target [of "hd (mid (Target_delete True))" "new_shared\<lparr>sh_strong := 0, sh_target := False\<rparr>"]
        in \<open>simp add: new_shared_def\<close>)
  have 5: "run_threads 0 (mid Block_delete) (new_shared\<lparr>sh_strong := 0, sh_weak := 0, sh_target := False,
      target_alive := False, destroyed := 1\<rparr>)"
    by (rule run_single [OF 4 fit_mid])
      (use weak_sub [of "hd (mid Weak_sub)" "new_shared\<lparr>sh_strong := 0, sh_target := False,
        target_alive := False, destroyed := 1\<rparr>"] in \<open>simp add: new_shared_def\<close>)
  show ?thesis
    by (rule run_single [OF 5 fit_mid])
      (use delete_block [of "hd (mid Block_delete)" "new_shared\<lparr>sh_strong := 0, sh_weak := 0,
        sh_target := False, target_alive := False, destroyed := 1\<rparr>"] in \<open>simp add: new_shared_def\<close>)
qed

text \<open>On its way it is about to delete the target, which is alive although its count is zero.\<close>

theorem intrusive_threads_safe_witness:
  "\<exists>sh. run_threads 0 (mid (Target_delete True)) sh \<and> sh_strong sh = 0 \<and> target_alive sh \<and>
    thread_safe (hd (mid (Target_delete True))) sh"
  using intrusive_threads_safe [OF run_to_delete, of "hd (mid (Target_delete True))"] run_to_delete
  by (auto simp: new_shared_def intro!: exI [of _ "new_shared\<lparr>sh_strong := 0, sh_target := False\<rparr>"])

theorem intrusive_threads_exact_witness:
  "\<exists>sh. run_threads 0 (mid Idle) sh \<and> destroyed sh = 1 \<and> freed sh = 1 \<and> tally own_strong (mid Idle) = 0"
  using intrusive_threads_exact [OF run_to_end] run_to_end by (auto simp: tally_def)

end
