(* ===== verification/IntrusiveProgress.thy ===== *)
theory IntrusiveProgress
  imports IntrusiveThreads
begin

text \<open>
  Two further views of the threads of \<open>IntrusiveThreads\<close>. Progress: the operations in progress end after
  a bounded number of steps other than spurious failures of a compare-exchange, whatever the scheduler
  does, since any other failure means that another thread has changed the count. Refinement: the counts, the life of the target and that of the
  block move as the life cycle of a counted object, with one step of it for each operation, made at one
  atomic step of the code.
\<close>

section \<open>Progress\<close>

text \<open>The atomic steps an operation has left, when no compare-exchange fails.\<close>

fun steps_left :: "pc \<Rightarrow> nat" where
  "steps_left Idle = 0"
| "steps_left (Retain_load _) = 2"
| "steps_left (Retain_cas _ _) = 1"
| "steps_left Strong_sub = 5"
| "steps_left Strong_exchange = 4"
| "steps_left (Target_delete _) = 3"
| "steps_left Weak_sub = 2"
| "steps_left Block_delete = 1"
| "steps_left Lock_load = 3"
| "steps_left (Lock_cas _) = 2"
| "steps_left Lock_target = 1"
| "steps_left Aborted = 0"

text \<open>The value a compare-exchange expects is not the current one.\<close>

fun stale :: "shared \<Rightarrow> pc \<Rightarrow> bool" where
  "stale sh (Retain_cas StrongCount c) \<longleftrightarrow> c \<noteq> sh_strong sh"
| "stale sh (Retain_cas WeakCount c) \<longleftrightarrow> c \<noteq> sh_weak sh"
| "stale sh (Lock_cas c) \<longleftrightarrow> c \<noteq> sh_strong sh"
| "stale sh _ \<longleftrightarrow> False"

text \<open>
  Threads that finish what they have begun, no operation begins: \<open>k\<close> steps that change something and \<open>f\<close>
  steps that change nothing, spurious failures of \<open>compare_exchange_weak\<close> that see the value they expect
  (\<open>unchanged_spurious\<close>).
\<close>

inductive quiet_run :: "thread list \<Rightarrow> shared \<Rightarrow> nat \<Rightarrow> nat \<Rightarrow> thread list \<Rightarrow> shared \<Rightarrow> bool" for ts sh where
  quiet_start: "quiet_run ts sh 0 0 ts sh"
| quiet_step: "\<lbrakk>quiet_run ts sh k f us r; i < length us; pc_of (us ! i) \<noteq> Idle; tstep (us ! i) r t' r';
    (t', r') \<noteq> (us ! i, r)\<rbrakk> \<Longrightarrow> quiet_run ts sh (Suc k) f (us[i := t']) r'"
| quiet_spurious: "\<lbrakk>quiet_run ts sh k f us r; i < length us; pc_of (us ! i) \<noteq> Idle; tstep (us ! i) r t' r';
    (t', r') = (us ! i, r)\<rbrakk> \<Longrightarrow> quiet_run ts sh k (Suc f) (us[i := t']) r'"

lemma unchanged_spurious:
  "tstep t sh t sh \<Longrightarrow> pc_of t \<noteq> Idle \<Longrightarrow> (\<exists>k c. pc_of t = Retain_cas k c) \<or> (\<exists>c. pc_of t = Lock_cas c)"
  by (erule tstep_cases) (auto dest: arg_cong [of _ _ pc_of] split: if_splits)

definition potential :: "thread list \<Rightarrow> shared \<Rightarrow> nat" where
  "potential ts sh = Suc (length ts) * tally (\<lambda>t. steps_left (pc_of t)) ts +
     tally (\<lambda>t. of_bool (stale sh (pc_of t))) ts"

lemma tally_le_length: "(\<And>t. f t \<le> c) \<Longrightarrow> tally f ts \<le> c * length ts"
  by (induction ts) (auto simp: tally_def add_mono)

lemma steps_left_le: "steps_left p \<le> 5"
  by (cases p) simp_all

lemma potential_le: "potential ts sh \<le> 5 * length ts * Suc (length ts) + length ts"
proof -
  have "tally (\<lambda>t. steps_left (pc_of t)) ts \<le> 5 * length ts" by (rule tally_le_length [OF steps_left_le])
  moreover have "tally (\<lambda>t. of_bool (stale sh (pc_of t))) ts \<le> 1 * length ts" by (rule tally_le_length) simp
  ultimately show ?thesis
    using mult_le_mono1 [of "tally (\<lambda>t. steps_left (pc_of t)) ts" "5 * length ts" "Suc (length ts)"]
    by (simp add: potential_def mult.commute)
qed

lemma tstep_advances:
  assumes "tstep t sh t' sh'" "pc_of t \<noteq> Idle" "(t', sh') \<noteq> (t, sh)"
  shows "steps_left (pc_of t') < steps_left (pc_of t) \<or>
    (steps_left (pc_of t') = steps_left (pc_of t) \<and> sh' = sh \<and> stale sh (pc_of t) \<and> \<not> stale sh (pc_of t'))"
  using assms by cases auto

lemma potential_decreases:
  assumes i: "i < length ts" and "tstep (ts ! i) sh t' sh'" "pc_of (ts ! i) \<noteq> Idle" "(t', sh') \<noteq> (ts ! i, sh)"
  shows "potential (ts[i := t']) sh' < potential ts sh"
proof -
  let ?left = "\<lambda>t. steps_left (pc_of t)"
  let ?stale = "\<lambda>sh t. of_bool (stale sh (pc_of t)) :: nat"
  have total: "tally f ts = rest f ts i + f (ts ! i)" "tally f (ts[i := t']) = rest f ts i + f t'" for f
    by (rule tally_rest [OF i], rule tally_rest_update [OF i])
  consider "?left t' < ?left (ts ! i)"
    | "?left t' = ?left (ts ! i)" "sh' = sh" "stale sh (pc_of (ts ! i))" "\<not> stale sh (pc_of t')"
    using tstep_advances [OF assms(2-4)] by blast
  then show ?thesis
  proof cases
    case 1
    then have "Suc (tally ?left (ts[i := t'])) \<le> tally ?left ts" by (simp add: total)
    then have "Suc (length ts) * Suc (tally ?left (ts[i := t'])) \<le> Suc (length ts) * tally ?left ts"
      by (rule mult_le_mono2)
    moreover have "tally (?stale sh') (ts[i := t']) \<le> length ts"
      using tally_le_length [of "?stale sh'" 1 "ts[i := t']"] by simp
    ultimately show ?thesis by (simp add: potential_def)
  next
    case 2
    then show ?thesis by (simp add: potential_def total)
  qed
qed

lemma quiet_run_length: "quiet_run ts sh k f us r \<Longrightarrow> length us = length ts"
  by (induction rule: quiet_run.induct) simp_all

lemma quiet_run_potential: "quiet_run ts sh k f us r \<Longrightarrow> k + potential us r \<le> potential ts sh"
proof (induction rule: quiet_run.induct)
  case (quiet_step k f us r i t' r')
  then show ?case using potential_decreases [of i us r t' r'] by linarith
qed simp_all

lemma quiet_run_trans:
  "quiet_run us r m g vs q \<Longrightarrow> quiet_run ts sh k f us r \<Longrightarrow> quiet_run ts sh (k + m) (f + g) vs q"
proof (induction rule: quiet_run.induct)
  case (quiet_step m g vs q i t' q')
  then show ?case using quiet_run.quiet_step [OF quiet_step.IH] by simp
next
  case (quiet_spurious m g vs q i t' q')
  then show ?case using quiet_run.quiet_spurious [OF quiet_spurious.IH] by simp
qed simp

text \<open>Handles that exist or that an operation in progress may still produce.\<close>

definition may_own :: "thread \<Rightarrow> nat" where
  "may_own t = own_strong t + own_weak t + of_bool (pc_of t \<noteq> Idle)"

lemma tstep_may_own: "tstep t sh t' sh' \<Longrightarrow> pc_of t \<noteq> Idle \<Longrightarrow> may_own t' \<le> may_own t"
  by (cases rule: tstep.cases) (auto simp: may_own_def)

lemma quiet_run_may_own: "quiet_run ts sh k f us r \<Longrightarrow> tally may_own us \<le> tally may_own ts"
proof (induction rule: quiet_run.induct)
  case (quiet_step k f us r i t' r')
  have "tally may_own (us[i := t']) \<le> tally may_own us"
    using quiet_step.hyps tstep_may_own by (simp add: tally_rest [of i us] tally_rest_update)
  then show ?case using quiet_step.IH by linarith
qed simp_all

definition room_left :: "thread list \<Rightarrow> bool" where
  "room_left ts \<longleftrightarrow> tally own_strong ts + tally own_weak ts + 2 * length ts < 2 ^ 61"

lemma quiet_refs_fit:
  assumes "room_left ts" "quiet_run ts sh k f us r"
  shows "refs_fit us"
proof -
  have "tally (\<lambda>t. own_strong t + own_weak t) us \<le> tally may_own us"
    by (rule tally_mono) (simp add: may_own_def)
  also have "\<dots> \<le> tally may_own ts" by (rule quiet_run_may_own [OF assms(2)])
  also have "\<dots> \<le> tally (\<lambda>t. (own_strong t + own_weak t) + 1) ts"
    by (rule tally_mono) (simp add: may_own_def)
  finally show ?thesis
    using assms(1) quiet_run_length [OF assms(2)]
    by (simp only: tally_add tally_const refs_fit_def room_left_def)
qed

lemma quiet_run_run:
  assumes "quiet_run ts sh k f us r" "run_threads n ts sh" "room_left ts"
  shows "run_threads n us r"
  using assms
proof (induction rule: quiet_run.induct)
  case (quiet_step k f us r i t' r')
  then show ?case using quiet_refs_fit by (blast intro: threads_step)
qed simp_all

lemma tstep_progress_strict:
  assumes "pc_of t \<noteq> Idle" "pc_of t \<noteq> Aborted"
  shows "\<exists>t' sh'. tstep t sh t' sh' \<and> (t', sh') \<noteq> (t, sh)"
proof -
  have differ: "\<exists>t' sh'. tstep t sh t' sh' \<and> (t', sh') \<noteq> (t, sh)"
    if "tstep t sh t' sh'" "pc_of t' \<noteq> pc_of t" for t' sh'
    using that by auto
  show ?thesis
  proof (cases "pc_of t")
    case (Retain_load k)
    then show ?thesis by (cases k) (fastforce intro: differ load_strong load_weak)+
  next
    case (Retain_cas k c)
    show ?thesis
    proof (cases "c = u_max")
      case True
      then show ?thesis using Retain_cas by (intro differ [OF retain_abort]) simp_all
    next
      case False
      then show ?thesis using Retain_cas
        by (cases k; cases "stale sh (pc_of t)")
          (fastforce intro: differ cas_strong cas_strong_fails cas_weak cas_weak_fails)+
    qed
  next
    case (Target_delete b)
    then show ?thesis by (cases b) (fastforce intro: differ delete_target delete_null)+
  next
    case (Lock_cas c)
    then show ?thesis
      by (cases "c = 0"; cases "stale sh (pc_of t)") (fastforce intro: differ lock_expired lock_cas lock_cas_fails)+
  next
    case Strong_sub
    then show ?thesis by (intro differ [OF strong_sub]) simp_all
  next
    case Strong_exchange
    then show ?thesis by (intro differ [OF strong_exchange]) simp_all
  next
    case Weak_sub
    then show ?thesis by (intro differ [OF weak_sub]) simp_all
  next
    case Block_delete
    then show ?thesis by (intro differ [OF delete_block]) simp_all
  next
    case Lock_load
    then show ?thesis by (intro differ [OF lock_load]) simp_all
  next
    case Lock_target
    then show ?thesis by (intro differ [OF lock_target]) simp_all
  qed (use assms in simp_all)
qed


text \<open>A thread in an operation never waits for another one: it has a step that changes something.\<close>

lemma run_advances:
  assumes "run_threads n us r" "i < length us" "pc_of (us ! i) \<noteq> Idle"
  shows "\<exists>t' r'. tstep (us ! i) r t' r' \<and> (t', r') \<noteq> (us ! i, r)"
proof -
  have "thread_ok (us ! i)" using run_threads_ok [OF assms(1)] assms(2) by (simp add: threads_ok_def)
  then have "pc_of (us ! i) \<noteq> Aborted" by (auto simp: thread_ok_def)
  then show ?thesis using tstep_progress_strict [of "us ! i" r] assms(3) by blast
qed

lemma quiet_finish:
  assumes "run_threads n ts sh" "room_left ts" "quiet_run ts sh k f us r"
  shows "\<exists>m vs q. quiet_run us r m 0 vs q \<and> list_all (\<lambda>t. pc_of t = Idle) vs"
  using assms(3)
proof (induction "potential us r" arbitrary: k us r rule: less_induct)
  case less
  show ?case
  proof (cases "list_all (\<lambda>t. pc_of t = Idle) us")
    case False
    then obtain i where i: "i < length us" "pc_of (us ! i) \<noteq> Idle" by (auto simp: list_all_length)
    obtain t' r' where step: "tstep (us ! i) r t' r'" "(t', r') \<noteq> (us ! i, r)"
      using run_advances [OF quiet_run_run [OF less.prems assms(1,2)] i] by blast
    note first = quiet_step [OF quiet_start i step]
    obtain m vs q where "quiet_run (us[i := t']) r' m 0 vs q" "list_all (\<lambda>t. pc_of t = Idle) vs"
      using less.hyps [OF potential_decreases [OF i(1) step(1) i(2) step(2)] quiet_step [OF less.prems i step]] by blast
    then show ?thesis using quiet_run_trans [OF _ first] by fastforce
  qed (use quiet_start in blast)
qed

text \<open>C11: Operations on handles are lock-free with an explicit bound. Once no thread begins a new operation, under
  every schedule of \<open>N\<close> threads and with any number \<open>f\<close> of spurious failures of \<open>compare_exchange_weak\<close>,
  at most \<open>5 * N * (N + 1) + N\<close> other atomic steps are made; wherever the schedule stops, every thread in
  an operation has a step of its own that changes something (it waits for no other thread), and the
  threads can run on from there until all are outside of the operations.\<close>

theorem intrusive_threads_finish:
  assumes "run_threads n ts sh" "room_left ts" "quiet_run ts sh k f us r"
  shows "k \<le> 5 * length ts * Suc (length ts) + length ts \<and> run_threads n us r \<and>
    (\<forall>i < length us. pc_of (us ! i) \<noteq> Idle \<longrightarrow> (\<exists>t' r'. tstep (us ! i) r t' r' \<and> (t', r') \<noteq> (us ! i, r))) \<and>
    (\<exists>m vs q. quiet_run us r m 0 vs q \<and> k + m \<le> 5 * length ts * Suc (length ts) + length ts \<and>
      run_threads n vs q \<and> list_all (\<lambda>t. pc_of t = Idle) vs)"
proof -
  have bound: "j \<le> 5 * length ts * Suc (length ts) + length ts" if "quiet_run ts sh j g vs q" for j g vs q
    using quiet_run_potential [OF that] potential_le [of ts sh] by linarith
  have run: "run_threads n vs q" if "quiet_run ts sh j g vs q" for j g vs q
    using quiet_run_run [OF that assms(1,2)] .
  obtain m vs q where fin: "quiet_run us r m 0 vs q" "list_all (\<lambda>t. pc_of t = Idle) vs"
    using quiet_finish [OF assms] by blast
  note all = quiet_run_trans [OF fin(1) assms(3)]
  show ?thesis using bound [OF assms(3)] run [OF assms(3)] run_advances bound [OF all] run [OF all] fin by blast
qed

text \<open>A copy of the only handle whose compare-exchange has just failed spuriously.\<close>

abbreviation "copying p \<equiv> [\<lparr>own_strong = 1, own_weak = 0, pc_of = p\<rparr>]"

theorem intrusive_threads_finish_witness:
  "\<exists>m vs q. quiet_run (copying (Retain_load StrongCount)) new_shared 1 1 (copying (Retain_cas StrongCount 1)) new_shared \<and>
     quiet_run (copying (Retain_cas StrongCount 1)) new_shared m 0 vs q \<and> 0 < m \<and> 1 + m \<le> 11 \<and>
     list_all (\<lambda>t. pc_of t = Idle) vs"
proof -
  let ?l = "hd (copying (Retain_load StrongCount))" and ?c = "hd (copying (Retain_cas StrongCount 1))"
  have "refs_fit (new_threads 0)" "tstep (new_threads 0 ! 0) new_shared ?l new_shared"
    using begin_copy [of "hd (copying Idle)" new_shared]
    by (simp_all add: new_threads_def idle_thread_def refs_fit_def tally_def)
  from threads_step [OF threads_start this(1) _ this(2)]
  have run: "run_threads 0 [?l] new_shared" by (simp add: new_threads_def)
  have "tstep ?l new_shared ?c new_shared" using load_strong [of ?l new_shared] by (simp add: new_shared_def)
  with quiet_step [OF quiet_start, of 0 "[?l]" new_shared ?c new_shared]
  have "quiet_run [?l] new_shared 1 0 [?c] new_shared" by simp
  moreover have "tstep ?c new_shared ?c new_shared"
    using cas_strong_fails [of ?c 1 new_shared] by (simp add: new_shared_def u_max_def)
  ultimately have failed: "quiet_run [?l] new_shared 1 1 [?c] new_shared"
    using quiet_spurious [of "[?l]" new_shared 1 0 "[?c]" new_shared 0 ?c new_shared] by simp
  have "room_left [?l]" by (simp add: room_left_def tally_def)
  from intrusive_threads_finish [OF run this failed] obtain m vs q where
    fin: "quiet_run [?c] new_shared m 0 vs q" "1 + m \<le> 11" "list_all (\<lambda>t. pc_of t = Idle) vs" by auto
  have "0 < m" using fin(1,3) by (cases m) (auto elim: quiet_run.cases)
  with fin failed show ?thesis by auto
qed

section \<open>The life cycle\<close>

record life =
  live_refs :: nat
  block_refs :: nat
  target_gone :: bool
  block_gone :: bool

datatype effect = Acquire | Release | Watch | Unwatch | Destroy | Free

text \<open>
  The specification: an object with no strong reference never gets one again; its target is destroyed
  once, and only then; a block goes once, after its target and its last reference.
\<close>

inductive life_step :: "effect \<Rightarrow> life \<Rightarrow> life \<Rightarrow> bool" where
  life_acquire: "0 < live_refs l \<Longrightarrow> \<not> target_gone l \<Longrightarrow> \<not> block_gone l \<Longrightarrow>
    life_step Acquire l (l\<lparr>live_refs := live_refs l + 1\<rparr>)"
| life_release: "0 < live_refs l \<Longrightarrow> \<not> target_gone l \<Longrightarrow> \<not> block_gone l \<Longrightarrow>
    life_step Release l (l\<lparr>live_refs := live_refs l - 1\<rparr>)"
| life_watch: "0 < block_refs l \<Longrightarrow> \<not> block_gone l \<Longrightarrow>
    life_step Watch l (l\<lparr>block_refs := block_refs l + 1\<rparr>)"
| life_unwatch: "target_gone l \<or> 1 < block_refs l \<Longrightarrow> 0 < block_refs l \<Longrightarrow> \<not> block_gone l \<Longrightarrow>
    life_step Unwatch l (l\<lparr>block_refs := block_refs l - 1\<rparr>)"
| life_destroy: "live_refs l = 0 \<Longrightarrow> 0 < block_refs l \<Longrightarrow> \<not> target_gone l \<Longrightarrow> \<not> block_gone l \<Longrightarrow>
    life_step Destroy l (l\<lparr>target_gone := True\<rparr>)"
| life_free: "live_refs l = 0 \<Longrightarrow> block_refs l = 0 \<Longrightarrow> target_gone l \<Longrightarrow> \<not> block_gone l \<Longrightarrow>
    life_step Free l (l\<lparr>block_gone := True\<rparr>)"

definition life_of :: "shared \<Rightarrow> life" where
  "life_of sh = \<lparr>live_refs = unat (sh_strong sh), block_refs = unat (sh_weak sh),
     target_gone = (\<not> target_alive sh), block_gone = (\<not> block_alive sh)\<rparr>"

text \<open>The atomic step at which an operation has its effect.\<close>

fun effect_at :: "pc \<Rightarrow> effect option" where
  "effect_at (Retain_cas StrongCount _) = Some Acquire"
| "effect_at (Retain_cas WeakCount _) = Some Watch"
| "effect_at (Lock_cas _) = Some Acquire"
| "effect_at Strong_sub = Some Release"
| "effect_at Weak_sub = Some Unwatch"
| "effect_at (Target_delete _) = Some Destroy"
| "effect_at Block_delete = Some Free"
| "effect_at _ = None"

lemma tstep_refines:
  assumes step: "tstep t sh t' sh'" and ok: "threads_ok ts sh" and fit: "refs_fit ts" and t: "t \<in> set ts"
  shows "life_of sh' = life_of sh \<or> (\<exists>e. effect_at (pc_of t) = Some e \<and> life_step e (life_of sh) (life_of sh'))"
proof (cases "pc_of t = Idle")
  case True
  with step show ?thesis by cases auto
next
  case False
  let ?s = "sh_strong sh" and ?w = "sh_weak sh"
  let ?S = "tally strong_held ts" and ?W = "tally weak_held ts" and ?F = "tally finalising ts"
  have tk: "thread_ok t" using ok t by (simp add: threads_ok_def)
  then have alive: "block_alive sh" using thread_safe_of_ok [OF ok t] False by (auto simp: thread_safe_def thread_ok_def)
  have c: "unat ?s = ?S" "unat ?w = ?W + (if 0 < ?S then 1 else 0) + ?F" "(if 0 < ?S then 1 else 0) + ?F \<le> 1"
      "target_alive sh \<longleftrightarrow> 0 < ?S + ?F" "tally freeing ts = (if ?w = 0 then 1 else 0)"
    using ok alive by (simp_all add: threads_ok_def counts_ok_def)
  have le: "strong_held t \<le> ?S" "weak_held t \<le> ?W" "finalising t \<le> ?F" "freeing t \<le> tally freeing ts"
    using t by (simp_all add: tally_ge)
  have small: "unat ?s < 2 ^ 62" "unat ?w < 2 ^ 62" using held_bound [OF fit] c(1,2,3) by (auto split: if_splits)
  note reads = word_readings(3) [OF small(1)] word_readings(3) [OF small(2)] word_readings(5) [of ?s] word_readings(5) [of ?w]
  from step show ?thesis
  proof cases
    case (cas_strong current)
    then have "life_step Acquire (life_of sh) (life_of sh')"
      using tk le(1) c alive reads life_acquire [of "life_of sh"] by (simp add: life_of_def thread_ok_def held_defs)
    then show ?thesis using cas_strong by simp
  next
    case (cas_weak current)
    then have "0 < unat ?w"
      using tk le(1,2) c by (auto simp: thread_ok_def held_defs split: if_splits)
    then have "life_step Watch (life_of sh) (life_of sh')"
      using cas_weak alive reads life_watch [of "life_of sh"] by (simp add: life_of_def)
    then show ?thesis using cas_weak by simp
  next
    case strong_sub
    then have "life_step Release (life_of sh) (life_of sh')"
      using le(1) c alive reads life_release [of "life_of sh"] by (simp add: life_of_def held_defs)
    then show ?thesis using strong_sub by simp
  next
    case delete_target
    then have "0 < ?F" using le(3) by (simp add: held_defs)
    then have "life_step Destroy (life_of sh) (life_of sh')"
      using delete_target c alive life_destroy [of "life_of sh"] by (simp add: life_of_def split: if_splits)
    then show ?thesis using delete_target by simp
  next
    case weak_sub
    then have "0 < ?W" using le(2) by (simp add: held_defs)
    then have "\<not> target_alive sh \<or> 1 < unat ?w" "0 < unat ?w" using c by (auto split: if_splits)
    then have "life_step Unwatch (life_of sh) (life_of sh')"
      using weak_sub alive reads life_unwatch [of "life_of sh"] by (simp add: life_of_def)
    then show ?thesis using weak_sub by simp
  next
    case delete_block
    then have "?w = 0" using le(4) c(5) by (simp add: held_defs split: if_splits)
    then have "?S = 0" "?F = 0" using c(2) by (simp_all split: if_splits)
    then have "life_step Free (life_of sh) (life_of sh')"
      using delete_block \<open>?w = 0\<close> c alive life_free [of "life_of sh"] by (simp add: life_of_def)
    then show ?thesis using delete_block by simp
  next
    case (lock_cas current)
    then have "0 < unat ?s" by (simp add: unat_gt_0)
    then have "life_step Acquire (life_of sh) (life_of sh')"
      using lock_cas c alive reads life_acquire [of "life_of sh"] by (simp add: life_of_def)
    then show ?thesis using lock_cas by simp
  qed (simp_all add: life_of_def)
qed


inductive life_reach :: "life \<Rightarrow> bool" where
  life_new: "life_reach \<lparr>live_refs = 1, block_refs = 1, target_gone = False, block_gone = False\<rparr>"
| life_next: "life_reach l \<Longrightarrow> life_step e l l' \<Longrightarrow> life_reach l'"

inductive_simps life_step_simps [simp]:
  "life_step Acquire l l'" "life_step Release l l'" "life_step Watch l l'" "life_step Unwatch l l'"
  "life_step Destroy l l'" "life_step Free l l'"

text \<open>What the specification promises.\<close>

lemma life_reach_invariant:
  "life_reach l \<Longrightarrow> (0 < live_refs l \<longrightarrow> \<not> target_gone l) \<and> (\<not> target_gone l \<longrightarrow> 0 < block_refs l) \<and>
     (block_gone l \<longrightarrow> target_gone l \<and> live_refs l = 0 \<and> block_refs l = 0)"
proof (induction rule: life_reach.induct)
  case (life_next l e l')
  then show ?case by (cases e) auto
qed simp

lemma life_never_revives: "life_step e l l' \<Longrightarrow> live_refs l = 0 \<Longrightarrow> live_refs l' = 0"
  by (cases e) auto

lemma run_threads_life: "run_threads n ts sh \<Longrightarrow> life_reach (life_of sh)"
proof (induction rule: run_threads.induct)
  case threads_start
  then show ?case using life_new by (simp add: life_of_def new_shared_def)
next
  case (threads_step ts sh i t' sh')
  then show ?case
    using tstep_refines [OF threads_step.hyps(4) run_threads_ok [OF threads_step.hyps(1)]]
    by (auto intro: life_next)
qed

text \<open>C10: The atomic code refines the life cycle of a counted object: every atomic step of a thread either leaves
  counts, target and block as they are or is the one step of the life cycle that belongs to the
  operation, made at its fetch-and-subtract, its successful compare-exchange or its delete. So a strong
  count of zero is never raised again, a strong count above zero means a living target, a living target
  means a living block, and nothing is destroyed twice.\<close>

theorem intrusive_threads_refine:
  assumes "run_threads n ts sh" "refs_fit ts" "i < length ts" "tstep (ts ! i) sh t' sh'"
  shows "life_reach (life_of sh) \<and> life_reach (life_of sh') \<and>
    (life_of sh' = life_of sh \<or>
     (\<exists>e. effect_at (pc_of (ts ! i)) = Some e \<and> life_step e (life_of sh) (life_of sh'))) \<and>
    (sh_strong sh = 0 \<longrightarrow> sh_strong sh' = 0)"
proof -
  have refines: "life_of sh' = life_of sh \<or>
     (\<exists>e. effect_at (pc_of (ts ! i)) = Some e \<and> life_step e (life_of sh) (life_of sh'))"
    using assms(3) by (intro tstep_refines [OF assms(4) run_threads_ok [OF assms(1)] assms(2)]) simp
  have "unat (sh_strong sh) = 0 \<longrightarrow> unat (sh_strong sh') = 0"
    using refines life_never_revives [of _ "life_of sh" "life_of sh'"] by (auto simp: life_of_def)
  then show ?thesis
    using refines run_threads_life [OF assms(1)] run_threads_life [OF threads_step [OF assms]]
    by (simp add: unat_eq_0)
qed

theorem intrusive_threads_refine_witness:
  "life_of (new_shared\<lparr>sh_strong := 0\<rparr>) \<noteq> life_of new_shared \<and>
   life_step Release (life_of new_shared) (life_of (new_shared\<lparr>sh_strong := 0\<rparr>))"
proof -
  have step: "tstep (mid Strong_sub ! 0) new_shared (hd (mid Strong_exchange)) (new_shared\<lparr>sh_strong := 0\<rparr>)"
    using strong_sub [of "hd (mid Strong_sub)" new_shared] by (simp add: new_shared_def)
  show ?thesis
    using intrusive_threads_refine [OF run_to_release fit_mid _ step] by (simp add: life_of_def new_shared_def)
qed

end
