(* ===== verification/IntrusiveOrders.thy ===== *)
theory IntrusiveOrders
  imports IntrusiveThreads
begin

text \<open>
  \<open>core/intrusive_ptr.h\<close> with threads and with the memory orders of its atomic operations. A thread may read
  an old value of a counter, and knows of what other threads did only through the acquire and release
  operations of the sources. The theory shows that the orders chosen there suffice: no access to the
  target or the control block races with its deletion.
\<close>

section \<open>Views and messages\<close>

datatype memory_order = memory_order_relaxed | memory_order_acquire | memory_order_acq_rel

fun acquires :: "memory_order \<Rightarrow> bool" where
  "acquires memory_order_relaxed \<longleftrightarrow> False"
| "acquires memory_order_acquire \<longleftrightarrow> True"
| "acquires memory_order_acq_rel \<longleftrightarrow> True"

fun releases :: "memory_order \<Rightarrow> bool" where
  "releases memory_order_acq_rel \<longleftrightarrow> True"
| "releases _ \<longleftrightarrow> False"

datatype cell_name = Counter count | Target_pointer

text \<open>
  What happens before the present point of a thread: for each atomic object the position of the newest
  value it can no longer read past, and the accesses to the target and the block, numbered in the order of
  the run.
\<close>

record view =
  front :: "cell_name \<Rightarrow> nat"
  seen :: "nat set"

definition no_view :: view where
  "no_view = \<lparr>front = (\<lambda>_. 0), seen = {}\<rparr>"

definition join_view :: "view \<Rightarrow> view \<Rightarrow> view" where
  "join_view v w = \<lparr>front = (\<lambda>c. max (front v c) (front w c)), seen = seen v \<union> seen w\<rparr>"

text \<open>
  An atomic object is the list of its values in modification order, each with the view that an acquire
  operation gets which reads it. A load reads any value from its front on. A read-modify-write reads the
  last value; its value continues the release sequence of the one it replaces, whatever its order.
\<close>

type_synonym 'a cell = "('a \<times> view) list"

definition current :: "'a cell \<Rightarrow> 'a" where
  "current c = fst (last c)"

definition readable :: "cell_name \<Rightarrow> nat \<Rightarrow> 'a cell \<Rightarrow> view \<Rightarrow> bool" where
  "readable c k xs v \<longleftrightarrow> front v c \<le> k \<and> k < length xs"

definition load_view :: "memory_order \<Rightarrow> cell_name \<Rightarrow> nat \<Rightarrow> 'a cell \<Rightarrow> view \<Rightarrow> view" where
  "load_view ord c k xs v =
     (let v' = v\<lparr>front := (front v)(c := k)\<rparr>
      in if acquires ord then join_view v' (snd (xs ! k)) else v')"

definition rmw_view :: "memory_order \<Rightarrow> cell_name \<Rightarrow> 'a cell \<Rightarrow> view \<Rightarrow> view" where
  "rmw_view ord c xs v =
     (let v' = v\<lparr>front := (front v)(c := length xs)\<rparr>
      in if acquires ord then join_view v' (snd (last xs)) else v')"

definition rmw_cell :: "memory_order \<Rightarrow> cell_name \<Rightarrow> 'a \<Rightarrow> 'a cell \<Rightarrow> view \<Rightarrow> 'a cell" where
  "rmw_cell ord c x xs v =
     xs @ [(x, if releases ord then join_view (rmw_view ord c xs v) (snd (last xs)) else snd (last xs))]"

section \<open>The block and the target\<close>

datatype access = On_target | On_block

record order_memory =
  strong_cell :: "size_t cell"
  weak_cell :: "size_t cell"
  target_cell :: "bool cell"
  accesses :: "access list"
  m_block_alive :: bool
  m_target_alive :: bool
  m_destroyed :: nat
  m_freed :: nat

fun counter :: "count \<Rightarrow> order_memory \<Rightarrow> size_t cell" where
  "counter StrongCount m = strong_cell m"
| "counter WeakCount m = weak_cell m"

fun put_counter :: "count \<Rightarrow> size_t cell \<Rightarrow> order_memory \<Rightarrow> order_memory" where
  "put_counter StrongCount xs m = m\<lparr>strong_cell := xs\<rparr>"
| "put_counter WeakCount xs m = m\<lparr>weak_cell := xs\<rparr>"

fun gain :: "count \<Rightarrow> thread \<Rightarrow> thread" where
  "gain StrongCount t = t\<lparr>own_strong := own_strong t + 1\<rparr>"
| "gain WeakCount t = t\<lparr>own_weak := own_weak t + 1\<rparr>"

text \<open>An access enters the log, and the view of the thread that makes it.\<close>

definition logged :: "access \<Rightarrow> order_memory \<Rightarrow> order_memory" where
  "logged a m = m\<lparr>accesses := accesses m @ [a]\<rparr>"

definition touched :: "order_memory \<Rightarrow> view \<Rightarrow> view" where
  "touched m v = v\<lparr>seen := insert (length (accesses m)) (seen v)\<rparr>"

text \<open>A load of a counter, and a read-modify-write of one; each is an access to the block.\<close>

definition load_count :: "memory_order \<Rightarrow> count \<Rightarrow> nat \<Rightarrow> order_memory \<Rightarrow> view \<Rightarrow> size_t \<times> view" where
  "load_count ord c k m v = (fst (counter c m ! k), load_view ord (Counter c) k (counter c m) (touched m v))"

definition rmw_count :: "memory_order \<Rightarrow> count \<Rightarrow> size_t \<Rightarrow> order_memory \<Rightarrow> view \<Rightarrow> order_memory \<times> view" where
  "rmw_count ord c x m v =
     (logged On_block (put_counter c (rmw_cell ord (Counter c) x (counter c m) (touched m v)) m),
      rmw_view ord (Counter c) (counter c m) (touched m v))"

text \<open>\<open>use_count\<close> through a strong handle, and \<open>expired\<close> of a weak one, when they read value \<open>k\<close>.\<close>

definition order_use_count :: "nat \<Rightarrow> order_memory \<Rightarrow> view \<Rightarrow> size_t \<times> view" where
  "order_use_count k m v = load_count memory_order_acquire StrongCount k (logged On_target m) (touched m v)"

definition order_expired :: "nat \<Rightarrow> order_memory \<Rightarrow> view \<Rightarrow> bool \<times> view" where
  "order_expired k m v = (case load_count memory_order_acquire StrongCount k m v of (x, v') \<Rightarrow> (x = 0, v'))"

lemmas load_defs = load_count_def order_use_count_def order_expired_def

section \<open>The steps of one thread\<close>

text \<open>
  The operations of \<open>IntrusiveThreads\<close>, with the orders of the sources, and the reads that
  change nothing but what a thread knows: a use of the target, \<open>use_count\<close> and \<open>expired\<close>. A handle
  reads \<open>target_->control_\<close> before it works on the counts, which is an access to the target.
\<close>

inductive ostep :: "thread \<Rightarrow> view \<Rightarrow> order_memory \<Rightarrow> thread \<Rightarrow> view \<Rightarrow> order_memory \<Rightarrow> bool" where
  o_begin_copy: "pc_of t = Idle \<Longrightarrow> 0 < own_strong t \<Longrightarrow>
    ostep t v m (t\<lparr>pc_of := Retain_load StrongCount\<rparr>) (touched m v) (logged On_target m)"
| o_begin_watch: "pc_of t = Idle \<Longrightarrow> 0 < own_strong t \<Longrightarrow>
    ostep t v m (t\<lparr>pc_of := Retain_load WeakCount\<rparr>) (touched m v) (logged On_target m)"
| o_begin_watch_weak: "pc_of t = Idle \<Longrightarrow> 0 < own_weak t \<Longrightarrow>
    ostep t v m (t\<lparr>pc_of := Retain_load WeakCount\<rparr>) v m"
| o_begin_release: "pc_of t = Idle \<Longrightarrow> 0 < own_strong t \<Longrightarrow>
    ostep t v m (t\<lparr>own_strong := own_strong t - 1, pc_of := Strong_sub\<rparr>) (touched m v) (logged On_target m)"
| o_begin_unwatch: "pc_of t = Idle \<Longrightarrow> 0 < own_weak t \<Longrightarrow>
    ostep t v m (t\<lparr>own_weak := own_weak t - 1, pc_of := Weak_sub\<rparr>) v m"
| o_begin_lock: "pc_of t = Idle \<Longrightarrow> 0 < own_weak t \<Longrightarrow> ostep t v m (t\<lparr>pc_of := Lock_load\<rparr>) v m"
| o_use: "pc_of t = Idle \<Longrightarrow> 0 < own_strong t \<Longrightarrow> ostep t v m t (touched m v) (logged On_target m)"
| o_load: "pc_of t = Retain_load c \<Longrightarrow> readable (Counter c) k (counter c m) v \<Longrightarrow>
    load_count memory_order_relaxed c k m v = (x, v') \<Longrightarrow>
    ostep t v m (t\<lparr>pc_of := Retain_cas c x\<rparr>) v' (logged On_block m)"
| o_abort: "pc_of t = Retain_cas c x \<Longrightarrow> x = u_max \<Longrightarrow> ostep t v m (t\<lparr>pc_of := Aborted\<rparr>) v m"
| o_cas: "pc_of t = Retain_cas c x \<Longrightarrow> x \<noteq> u_max \<Longrightarrow> current (counter c m) = x \<Longrightarrow>
    rmw_count memory_order_relaxed c (x + 1) m v = (m', v') \<Longrightarrow>
    ostep t v m (gain c t\<lparr>pc_of := Idle\<rparr>) v' m'"
| o_cas_fails: "pc_of t = Retain_cas c x \<Longrightarrow> x \<noteq> u_max \<Longrightarrow> readable (Counter c) k (counter c m) v \<Longrightarrow>
    load_count memory_order_relaxed c k m v = (y, v') \<Longrightarrow>
    ostep t v m (t\<lparr>pc_of := Retain_cas c y\<rparr>) v' (logged On_block m)"
| o_strong_sub: "pc_of t = Strong_sub \<Longrightarrow> current (strong_cell m) = x \<Longrightarrow>
    rmw_count memory_order_acq_rel StrongCount (x - 1) m v = (m', v') \<Longrightarrow>
    ostep t v m (t\<lparr>pc_of := (if x = 1 then Strong_exchange else Idle)\<rparr>) v' m'"
| o_strong_exchange: "pc_of t = Strong_exchange \<Longrightarrow>
    ostep t v m (t\<lparr>pc_of := Target_delete (current (target_cell m))\<rparr>)
      (rmw_view memory_order_acq_rel Target_pointer (target_cell m) (touched m v))
      (logged On_block (m\<lparr>target_cell :=
        rmw_cell memory_order_acq_rel Target_pointer False (target_cell m) (touched m v)\<rparr>))"
| o_delete_null: "pc_of t = Target_delete False \<Longrightarrow> ostep t v m (t\<lparr>pc_of := Idle\<rparr>) v m"
| o_delete_target: "pc_of t = Target_delete True \<Longrightarrow>
    ostep t v m (t\<lparr>pc_of := Weak_sub\<rparr>) (touched m v)
      (logged On_target (m\<lparr>m_target_alive := False, m_destroyed := m_destroyed m + 1\<rparr>))"
| o_weak_sub: "pc_of t = Weak_sub \<Longrightarrow> current (weak_cell m) = x \<Longrightarrow>
    rmw_count memory_order_acq_rel WeakCount (x - 1) m v = (m', v') \<Longrightarrow>
    ostep t v m (t\<lparr>pc_of := (if x = 1 then Block_delete else Idle)\<rparr>) v' m'"
| o_delete_block: "pc_of t = Block_delete \<Longrightarrow>
    ostep t v m (t\<lparr>pc_of := Idle\<rparr>) v (m\<lparr>m_block_alive := False, m_freed := m_freed m + 1\<rparr>)"
| o_lock_load: "pc_of t = Lock_load \<Longrightarrow> readable (Counter StrongCount) k (strong_cell m) v \<Longrightarrow>
    load_count memory_order_acquire StrongCount k m v = (x, v') \<Longrightarrow>
    ostep t v m (t\<lparr>pc_of := Lock_cas x\<rparr>) v' (logged On_block m)"
| o_lock_expired: "pc_of t = Lock_cas x \<Longrightarrow> x = 0 \<Longrightarrow> ostep t v m (t\<lparr>pc_of := Idle\<rparr>) v m"
| o_lock_cas: "pc_of t = Lock_cas x \<Longrightarrow> x \<noteq> 0 \<Longrightarrow> current (strong_cell m) = x \<Longrightarrow>
    rmw_count memory_order_acq_rel StrongCount (x + 1) m v = (m', v') \<Longrightarrow>
    ostep t v m (t\<lparr>pc_of := Lock_target\<rparr>) v' m'"
| o_lock_cas_fails: "pc_of t = Lock_cas x \<Longrightarrow> x \<noteq> 0 \<Longrightarrow>
    readable (Counter StrongCount) k (strong_cell m) v \<Longrightarrow>
    load_count memory_order_acquire StrongCount k m v = (y, v') \<Longrightarrow>
    ostep t v m (t\<lparr>pc_of := Lock_cas y\<rparr>) v' (logged On_block m)"
| o_lock_target: "pc_of t = Lock_target \<Longrightarrow> readable Target_pointer k (target_cell m) v \<Longrightarrow>
    ostep t v m (t\<lparr>own_strong := own_strong t + (if fst (target_cell m ! k) then 1 else 0), pc_of := Idle\<rparr>)
      (load_view memory_order_acquire Target_pointer k (target_cell m) (touched m v)) (logged On_block m)"
| o_use_count: "pc_of t = Idle \<Longrightarrow> 0 < own_strong t \<Longrightarrow> readable (Counter StrongCount) k (strong_cell m) v \<Longrightarrow>
    order_use_count k m v = (x, v') \<Longrightarrow>
    ostep t v m t v' (logged On_block (logged On_target m))"
| o_expired: "pc_of t = Idle \<Longrightarrow> 0 < own_weak t \<Longrightarrow> readable (Counter StrongCount) k (strong_cell m) v \<Longrightarrow>
    order_expired k m v = (b, v') \<Longrightarrow>
    ostep t v m t v' (logged On_block m)"

section \<open>The program\<close>

text \<open>
  The first thread makes the block and the target, which are the accesses 0 and 1. A handle that is passed
  on is a plain object, so the threads synchronise when they pass it; they may also synchronise otherwise.
\<close>

definition start_memory :: order_memory where
  "start_memory = \<lparr>strong_cell = [(1, no_view)], weak_cell = [(1, no_view)], target_cell = [(True, no_view)],
     accesses = [On_block, On_target], m_block_alive = True, m_target_alive = True, m_destroyed = 0,
     m_freed = 0\<rparr>"

definition start_views :: "nat \<Rightarrow> view" where
  "start_views i = (if i = 0 then no_view\<lparr>seen := {0, 1}\<rparr> else no_view)"

definition synchronised :: "nat \<Rightarrow> nat \<Rightarrow> (nat \<Rightarrow> view) \<Rightarrow> nat \<Rightarrow> view" where
  "synchronised i j vs = vs(j := join_view (vs j) (vs i))"

inductive run_orders :: "nat \<Rightarrow> thread list \<Rightarrow> (nat \<Rightarrow> view) \<Rightarrow> order_memory \<Rightarrow> bool" for n where
  orders_start: "run_orders n (new_threads n) start_views start_memory"
| orders_step: "run_orders n ts vs m \<Longrightarrow> refs_fit ts \<Longrightarrow> i < length ts \<Longrightarrow> ostep (ts ! i) (vs i) m t' v' m' \<Longrightarrow>
    run_orders n (ts[i := t']) (vs(i := v')) m'"
| orders_sync: "run_orders n ts vs m \<Longrightarrow> i < length ts \<Longrightarrow> j < length ts \<Longrightarrow>
    run_orders n ts (synchronised i j vs) m"
| orders_pass_strong: "\<lbrakk>run_orders n ts vs m; i < length ts; j < length ts; i \<noteq> j;
    pc_of (ts ! i) = Idle; pc_of (ts ! j) = Idle; 0 < own_strong (ts ! i)\<rbrakk> \<Longrightarrow>
    run_orders n (ts[i := (ts ! i)\<lparr>own_strong := own_strong (ts ! i) - 1\<rparr>,
      j := (ts ! j)\<lparr>own_strong := own_strong (ts ! j) + 1\<rparr>]) (synchronised i j vs) m"
| orders_pass_weak: "\<lbrakk>run_orders n ts vs m; i < length ts; j < length ts; i \<noteq> j;
    pc_of (ts ! i) = Idle; pc_of (ts ! j) = Idle; 0 < own_weak (ts ! i)\<rbrakk> \<Longrightarrow>
    run_orders n (ts[i := (ts ! i)\<lparr>own_weak := own_weak (ts ! i) - 1\<rparr>,
      j := (ts ! j)\<lparr>own_weak := own_weak (ts ! j) + 1\<rparr>]) (synchronised i j vs) m"

section \<open>The present values\<close>

text \<open>The memory as \<open>IntrusiveThreads\<close> sees it: the last value of each atomic object.\<close>

definition now :: "order_memory \<Rightarrow> shared" where
  "now m = \<lparr>sh_strong = current (strong_cell m), sh_weak = current (weak_cell m),
     sh_target = current (target_cell m), block_alive = m_block_alive m, target_alive = m_target_alive m,
     destroyed = m_destroyed m, freed = m_freed m\<rparr>"

lemma now_simps [simp]:
  "sh_strong (now m) = current (strong_cell m)" "sh_weak (now m) = current (weak_cell m)"
  "sh_target (now m) = current (target_cell m)" "block_alive (now m) = m_block_alive m"
  "target_alive (now m) = m_target_alive m" "destroyed (now m) = m_destroyed m" "freed (now m) = m_freed m"
  by (simp_all add: now_def)

lemma logged_simps [simp]:
  "strong_cell (logged a m) = strong_cell m" "weak_cell (logged a m) = weak_cell m"
  "target_cell (logged a m) = target_cell m" "m_block_alive (logged a m) = m_block_alive m"
  "m_target_alive (logged a m) = m_target_alive m" "m_destroyed (logged a m) = m_destroyed m"
  "m_freed (logged a m) = m_freed m" "accesses (logged a m) = accesses m @ [a]" "now (logged a m) = now m"
  "counter c (logged a m) = counter c m"
  by (cases c; simp add: logged_def now_def)+

lemma current_rmw [simp]: "current (rmw_cell ord c x xs v) = x"
  by (simp add: current_def rmw_cell_def)

lemma now_rmw [simp]:
  "now (m\<lparr>strong_cell := rmw_cell ord c x xs v\<rparr>) = (now m)\<lparr>sh_strong := x\<rparr>"
  "now (m\<lparr>weak_cell := rmw_cell ord c x xs v\<rparr>) = (now m)\<lparr>sh_weak := x\<rparr>"
  "now (m\<lparr>target_cell := rmw_cell ord c y ys v\<rparr>) = (now m)\<lparr>sh_target := y\<rparr>"
  by (simp_all add: now_def)

text \<open>
  The values of the past that a load may still give: none is the largest count, and the pointer was not
  null while it is not.
\<close>

definition past_ok :: "order_memory \<Rightarrow> bool" where
  "past_ok m \<longleftrightarrow> strong_cell m \<noteq> [] \<and> weak_cell m \<noteq> [] \<and> target_cell m \<noteq> [] \<and>
     (\<forall>x \<in> set (strong_cell m). fst x \<noteq> u_max) \<and> (\<forall>x \<in> set (weak_cell m). fst x \<noteq> u_max) \<and>
     (current (target_cell m) \<longrightarrow> (\<forall>x \<in> set (target_cell m). fst x))"

text \<open>A step that loads an old value: the thread tries with it, or goes on as it was.\<close>

definition stale :: "thread \<Rightarrow> thread \<Rightarrow> bool" where
  "stale t t' \<longleftrightarrow> t' = t \<or>
     (\<exists>c x. (pc_of t = Retain_load c \<or> (\<exists>y. pc_of t = Retain_cas c y)) \<and> x \<noteq> u_max \<and> t' = t\<lparr>pc_of := Retain_cas c x\<rparr>) \<or>
     (\<exists>x. (pc_of t = Lock_load \<or> (\<exists>y. pc_of t = Lock_cas y)) \<and> t' = t\<lparr>pc_of := Lock_cas x\<rparr>)"

lemma stale_held:
  "stale t t' \<Longrightarrow> strong_held t' = strong_held t \<and> weak_held t' = weak_held t \<and> finalising t' = finalising t \<and>
    exchanging t' = exchanging t \<and> freeing t' = freeing t"
  by (auto simp: stale_def held_defs)

lemma stale_ok:
  assumes "stale t t'" "thread_ok t"
  shows "thread_ok t'"
proof -
  consider "t' = t" | (retain) c x where "pc_of t = Retain_load c \<or> (\<exists>y. pc_of t = Retain_cas c y)" "x \<noteq> u_max"
      "t' = t\<lparr>pc_of := Retain_cas c x\<rparr>"
    | (lock) x where "pc_of t = Lock_load \<or> (\<exists>y. pc_of t = Lock_cas y)" "t' = t\<lparr>pc_of := Lock_cas x\<rparr>"
    using assms(1) unfolding stale_def by blast
  then show ?thesis
  proof cases
    case (retain c x)
    then show ?thesis using assms(2) by (cases c) (auto simp: thread_ok_def)
  qed (use assms(2) in \<open>auto simp: thread_ok_def\<close>)
qed

lemma past_counter: "past_ok m \<Longrightarrow> k < length (counter c m) \<Longrightarrow> fst (counter c m ! k) \<noteq> u_max"
  by (cases c) (simp_all add: past_ok_def)

text \<open>Every step is one of \<open>IntrusiveThreads\<close> or the load of an old value.\<close>

lemma ostep_now:
  assumes "ostep t v m t' v' m'" "past_ok m" "thread_safe t (now m)" "thread_ok t"
  shows "tstep t (now m) t' (now m') \<or> stale t t' \<and> now m' = now m"
  using assms(1)
proof (cases rule: ostep.cases)
  case (o_cas c x)
  then show ?thesis
    using cas_strong [of t x "now m"] cas_weak [of t x "now m"]
    by (cases c) (auto simp: rmw_count_def)
next
  case (o_load c k x)
  then have "x \<noteq> u_max" using past_counter [OF assms(2)] by (auto simp: load_defs readable_def)
  then show ?thesis using o_load by (auto simp: stale_def)
next
  case (o_cas_fails c x k y)
  then have "y \<noteq> u_max" using past_counter [OF assms(2)] by (auto simp: load_defs readable_def)
  then show ?thesis using o_cas_fails by (auto simp: stale_def)
next
  case (o_abort c x)
  then show ?thesis using assms(4) by (cases c) (auto simp: thread_ok_def)
next
  case (o_strong_sub x)
  then show ?thesis using strong_sub [of t "now m"] by (auto simp: rmw_count_def)
next
  case (o_weak_sub x)
  then show ?thesis using weak_sub [of t "now m"] by (auto simp: rmw_count_def)
next
  case o_strong_exchange
  have "now m' = (now m)\<lparr>sh_target := False\<rparr>" unfolding o_strong_exchange by (simp add: now_def)
  then show ?thesis using o_strong_exchange strong_exchange [of t "now m"] by simp
next
  case o_delete_target
  then show ?thesis using delete_target [of t "now m"] by (simp add: now_def logged_def)
next
  case o_delete_block
  then show ?thesis using delete_block [of t "now m"] by (simp add: now_def)
next
  case (o_lock_cas x)
  then show ?thesis using lock_cas [of t x "now m"] by (auto simp: rmw_count_def)
next
  case (o_lock_target k)
  then have "sh_target (now m)" using assms(3) by (simp add: thread_safe_def)
  then have "fst (target_cell m ! k)" using assms(2) o_lock_target by (simp add: past_ok_def readable_def)
  then show ?thesis using o_lock_target lock_target [of t "now m"] \<open>sh_target (now m)\<close> by simp
next
  case o_begin_copy
  then show ?thesis using begin_copy by simp
next
  case o_begin_watch
  then show ?thesis using begin_watch by simp
next
  case o_begin_watch_weak
  then show ?thesis using begin_watch by simp
next
  case o_begin_release
  then show ?thesis using begin_release by simp
next
  case o_begin_unwatch
  then show ?thesis using begin_unwatch by simp
next
  case o_begin_lock
  then show ?thesis using begin_lock by simp
next
  case o_delete_null
  then show ?thesis using delete_null by simp
next
  case (o_lock_expired x)
  then show ?thesis using lock_expired by simp
qed (auto simp: stale_def)

section \<open>Who knows of an access\<close>

text \<open>
  A thread keeps the target while it holds a strong reference, or is the one that destroys it; it keeps the
  block while it holds any reference or deletes it.
\<close>

definition keeps_target :: "thread \<Rightarrow> bool" where
  "keeps_target t \<longleftrightarrow> 0 < strong_held t \<or> pc_of t = Strong_exchange \<or> (\<exists>b. pc_of t = Target_delete b)"

definition keeps_block :: "thread \<Rightarrow> bool" where
  "keeps_block t \<longleftrightarrow> keeps_target t \<or> 0 < weak_held t \<or> pc_of t = Block_delete"

text \<open>
  The access \<open>e\<close> is known to whoever releases the last reference: a thread that keeps the target knows it, or
  the strong count carries it while there are references. For the block likewise, with either count.
\<close>

definition carried :: "size_t cell \<Rightarrow> nat \<Rightarrow> bool" where
  "carried xs e \<longleftrightarrow> current xs \<noteq> 0 \<and> e \<in> seen (snd (last xs))"

definition target_hand :: "thread \<Rightarrow> view \<Rightarrow> order_memory \<Rightarrow> nat \<Rightarrow> bool" where
  "target_hand t v m e \<longleftrightarrow> carried (strong_cell m) e \<or> keeps_target t \<and> e \<in> seen v"

definition block_hand :: "thread \<Rightarrow> view \<Rightarrow> order_memory \<Rightarrow> nat \<Rightarrow> bool" where
  "block_hand t v m e \<longleftrightarrow> carried (strong_cell m) e \<or> carried (weak_cell m) e \<or> keeps_block t \<and> e \<in> seen v"

lemma seen_views [simp]:
  "seen (touched m v) = insert (length (accesses m)) (seen v)"
  "seen (load_view ord c k xs v) = seen v \<union> (if acquires ord then seen (snd (xs ! k)) else {})"
  "seen (rmw_view ord c xs v) = seen v \<union> (if acquires ord then seen (snd (last xs)) else {})"
  "seen (snd (last (rmw_cell ord c x xs v))) =
    (if releases ord then seen (rmw_view ord c xs v) else {}) \<union> seen (snd (last xs))"
  by (auto simp: touched_def load_view_def rmw_view_def rmw_cell_def join_view_def Let_def)

lemma carried_rmw [simp]:
  "carried (rmw_cell ord c x xs v) e \<longleftrightarrow> x \<noteq> 0 \<and>
    (e \<in> seen (snd (last xs)) \<or> releases ord \<and> e \<in> seen (rmw_view ord c xs v))"
  by (auto simp: carried_def simp del: seen_views(3))

lemma hand_simps [simp]:
  "strong_cell (put_counter StrongCount xs m) = xs" "weak_cell (put_counter StrongCount xs m) = weak_cell m"
  "strong_cell (put_counter WeakCount xs m) = strong_cell m" "weak_cell (put_counter WeakCount xs m) = xs"
  "accesses (put_counter c xs m) = accesses m" "m_target_alive (put_counter c xs m) = m_target_alive m"
  "m_block_alive (put_counter c xs m) = m_block_alive m" "target_cell (put_counter c xs m) = target_cell m"
  by (cases c; simp)+

lemmas hand_defs = target_hand_def block_hand_def keeps_target_def keeps_block_def held_defs

lemma size_t_succ: "x \<noteq> u_max \<Longrightarrow> (x :: size_t) + 1 \<noteq> 0"
proof
  assume x: "x \<noteq> u_max" and "x + 1 = 0"
  then have "x = - 1" by (simp add: eq_neg_iff_add_eq_0)
  then show False using x by (simp add: u_max_def)
qed

lemma past_current: "past_ok m \<Longrightarrow> current (strong_cell m) \<noteq> u_max"
  by (simp add: past_ok_def current_def)

text \<open>A step keeps what it found known to be so.\<close>

lemma hands_kept:
  assumes "ostep t v m t' v' m'" "past_ok m" "thread_safe t (now m)" "thread_ok t"
  shows "m_target_alive m' \<Longrightarrow> target_hand t v m e \<Longrightarrow> target_hand t' v' m' e"
    and "m_block_alive m' \<Longrightarrow> block_hand t v m e \<Longrightarrow> block_hand t' v' m' e"
proof -
  have "(m_target_alive m' \<longrightarrow> target_hand t v m e \<longrightarrow> target_hand t' v' m' e) \<and>
    (m_block_alive m' \<longrightarrow> block_hand t v m e \<longrightarrow> block_hand t' v' m' e)"
    using assms(1)
  proof (cases rule: ostep.cases)
    case (o_lock_target k)
    then have "fst (target_cell m ! k)" using assms(2,3) by (simp add: past_ok_def readable_def thread_safe_def)
    then show ?thesis using o_lock_target by (auto simp: hand_defs)
  next
    case o_delete_null
    then show ?thesis using assms(4) by (simp add: thread_ok_def)
  next
    case (o_load c k x)
    then show ?thesis by (cases c) (auto simp: hand_defs load_defs)
  next
    case (o_cas_fails c k x y)
    then show ?thesis by (cases c) (auto simp: hand_defs load_defs)
  next
    case (o_abort c x)
    then show ?thesis by (cases c) (auto simp: hand_defs)
  next
    case (o_cas c x)
    then show ?thesis using size_t_succ [of x]
      by (cases c) (auto simp: hand_defs rmw_count_def carried_def)
  next
    case (o_lock_cas x)
    then show ?thesis using size_t_succ [of x] past_current [OF assms(2)]
      by (auto simp: hand_defs rmw_count_def carried_def)
  qed (auto simp: hand_defs load_defs rmw_count_def carried_def)
  then show "m_target_alive m' \<Longrightarrow> target_hand t v m e \<Longrightarrow> target_hand t' v' m' e"
    and "m_block_alive m' \<Longrightarrow> block_hand t v m e \<Longrightarrow> block_hand t' v' m' e" by blast+
qed

lemma accesses_grow: "ostep t v m t' v' m' \<Longrightarrow> \<exists>es. accesses m' = accesses m @ es"
  by (erule ostep.cases) (auto simp: rmw_count_def)

text \<open>What a step accesses, its thread keeps, so the access is known.\<close>

lemma hands_new:
  assumes "ostep t v m t' v' m'" "past_ok m" "thread_ok t"
    and "e < length (accesses m')" "\<not> e < length (accesses m)"
  shows "(m_target_alive m' \<longrightarrow> accesses m' ! e = On_target \<longrightarrow> target_hand t' v' m' e) \<and>
    (m_block_alive m' \<longrightarrow> block_hand t' v' m' e)"
  using assms(1)
proof (cases rule: ostep.cases)
  case (o_load c k x)
  then show ?thesis using assms(3-5) by (cases c) (auto simp: hand_defs load_defs thread_ok_def nth_append)
next
  case (o_cas_fails c x k y)
  then show ?thesis using assms(3-5) by (cases c) (auto simp: hand_defs load_defs thread_ok_def nth_append)
next
  case (o_cas c x)
  then show ?thesis using assms(3-5) by (cases c) (auto simp: hand_defs rmw_count_def thread_ok_def nth_append)
next
  case (o_use_count k x)
  then show ?thesis using assms(4,5)
    by (auto simp: hand_defs load_defs nth_append less_Suc_eq)
qed (use assms(3-5) in \<open>auto simp: hand_defs load_defs rmw_count_def thread_ok_def nth_append
  u_max_def eq_neg_iff_add_eq_0\<close>)

section \<open>The invariant\<close>

text \<open>The construction is known to all that hold a reference.\<close>

definition made_known :: "thread \<Rightarrow> view \<Rightarrow> bool" where
  "made_known t v \<longleftrightarrow> (keeps_block t \<longrightarrow> {0, 1} \<subseteq> seen v)"

definition known_ok :: "thread list \<Rightarrow> (nat \<Rightarrow> view) \<Rightarrow> order_memory \<Rightarrow> bool" where
  "known_ok ts vs m \<longleftrightarrow>
     (m_target_alive m \<longrightarrow> (\<forall>e < length (accesses m). accesses m ! e = On_target \<longrightarrow>
        (\<exists>i < length ts. target_hand (ts ! i) (vs i) m e))) \<and>
     (m_block_alive m \<longrightarrow> (\<forall>e < length (accesses m). \<exists>i < length ts. block_hand (ts ! i) (vs i) m e)) \<and>
     (\<forall>i < length ts. made_known (ts ! i) (vs i))"

lemma seen_grows: "ostep t v m t' v' m' \<Longrightarrow> seen v \<subseteq> seen v'"
  by (erule ostep.cases) (auto simp: load_defs rmw_count_def)

lemma keeps_block_before:
  "ostep t v m t' v' m' \<Longrightarrow> thread_ok t \<Longrightarrow> keeps_block t' \<Longrightarrow> keeps_block t"
  by (erule ostep.cases) (auto simp: hand_defs load_defs rmw_count_def thread_ok_def split: count.splits if_splits)

lemma known_ok_step:
  assumes known: "known_ok ts vs m" and i: "i < length ts"
    and step: "ostep (ts ! i) (vs i) m t' v' m'" and ok: "past_ok m" "thread_safe (ts ! i) (now m)" "thread_ok (ts ! i)"
    and alive: "m_target_alive m' \<Longrightarrow> m_target_alive m" "m_block_alive m' \<Longrightarrow> m_block_alive m"
  shows "known_ok (ts[i := t']) (vs(i := v')) m'"
proof -
  let ?ts = "ts[i := t']" and ?vs = "vs(i := v')"
  note kept = hands_kept [OF step ok] and new = hands_new [OF step ok(1,3)]
  obtain es where es: "accesses m' = accesses m @ es" using accesses_grow [OF step] by blast
  have target: "\<exists>j < length ?ts. target_hand (?ts ! j) (?vs j) m' e"
    if a: "m_target_alive m'" "j < length ts" "target_hand (ts ! j) (vs j) m e" for j e
  proof (cases "target_hand (ts ! i) (vs i) m e")
    case True
    then show ?thesis using kept(1) [OF a(1)] i by (intro exI [of _ i]) simp
  next
    case False
    then have "j \<noteq> i" "keeps_target (ts ! j) \<and> e \<in> seen (vs j)" using a(3) by (auto simp: target_hand_def)
    then show ?thesis using a(2) by (intro exI [of _ j]) (simp add: target_hand_def)
  qed
  have block: "\<exists>j < length ?ts. block_hand (?ts ! j) (?vs j) m' e"
    if a: "m_block_alive m'" "j < length ts" "block_hand (ts ! j) (vs j) m e" for j e
  proof (cases "block_hand (ts ! i) (vs i) m e")
    case True
    then show ?thesis using kept(2) [OF a(1)] i by (intro exI [of _ i]) simp
  next
    case False
    then have "j \<noteq> i" "keeps_block (ts ! j) \<and> e \<in> seen (vs j)" using a(3) by (auto simp: block_hand_def)
    then show ?thesis using a(2) by (intro exI [of _ j]) (simp add: block_hand_def)
  qed
  have "\<exists>j < length ?ts. target_hand (?ts ! j) (?vs j) m' e"
    if a: "m_target_alive m'" "e < length (accesses m')" "accesses m' ! e = On_target" for e
  proof (cases "e < length (accesses m)")
    case True
    then obtain j where "j < length ts" "target_hand (ts ! j) (vs j) m e"
      using known a alive(1) by (auto simp: known_ok_def es nth_append)
    then show ?thesis using target a(1) by blast
  next
    case False
    then show ?thesis using new a i by (intro exI [of _ i]) simp
  qed
  moreover have "\<exists>j < length ?ts. block_hand (?ts ! j) (?vs j) m' e"
    if a: "m_block_alive m'" "e < length (accesses m')" for e
  proof (cases "e < length (accesses m)")
    case True
    then obtain j where "j < length ts" "block_hand (ts ! j) (vs j) m e"
      using known a alive(2) by (auto simp: known_ok_def)
    then show ?thesis using block a(1) by blast
  next
    case False
    then show ?thesis using new a i by (intro exI [of _ i]) simp
  qed
  moreover have "made_known (?ts ! j) (?vs j)" if "j < length ?ts" for j
    using known i that keeps_block_before [OF step ok(3)] seen_grows [OF step]
    by (cases "j = i") (auto simp: known_ok_def made_known_def)
  ultimately show ?thesis unfolding known_ok_def by blast
qed


text \<open>A handle is passed from thread \<open>i\<close> to thread \<open>j\<close> with what \<open>i\<close> knows; or they only synchronise.\<close>

lemma known_ok_pass:
  assumes known: "known_ok ts vs m" and ij: "i < length ts" "j < length ts" and l: "length ts' = length ts"
    and seen: "\<And>k. seen (vs k) \<subseteq> seen (vs' k)" "seen (vs i) \<subseteq> seen (vs' j)"
    and target: "\<And>k. keeps_target (ts ! k) \<Longrightarrow> keeps_target (ts' ! k) \<or> k = i \<and> keeps_target (ts' ! j)"
    and block: "\<And>k. keeps_block (ts ! k) \<Longrightarrow> keeps_block (ts' ! k) \<or> k = i \<and> keeps_block (ts' ! j)"
    and before: "\<And>k. keeps_block (ts' ! k) \<Longrightarrow> keeps_block (ts ! k) \<or> k = j \<and> keeps_block (ts ! i)"
  shows "known_ok ts' vs' m"
proof -
  have "\<exists>k < length ts'. target_hand (ts' ! k) (vs' k) m e"
    if "k < length ts" "target_hand (ts ! k) (vs k) m e" for k e
    using that target [of k] seen seen(1) [of k] l ij by (auto simp: target_hand_def)
  moreover have "\<exists>k < length ts'. block_hand (ts' ! k) (vs' k) m e"
    if "k < length ts" "block_hand (ts ! k) (vs k) m e" for k e
    using that block [of k] seen seen(1) [of k] l ij by (auto simp: block_hand_def)
  moreover have "made_known (ts' ! k) (vs' k)" if "k < length ts'" for k
  proof -
    have "made_known (ts ! k) (vs k)" "made_known (ts ! i) (vs i)" using known that l ij by (simp_all add: known_ok_def)
    then show ?thesis using before [of k] seen(2) seen(1) [of k] by (auto simp: made_known_def)
  qed
  ultimately show ?thesis using known l unfolding known_ok_def by metis
qed

lemma synchronised_seen:
  "seen (vs k) \<subseteq> seen (synchronised i j vs k)" "seen (vs i) \<subseteq> seen (synchronised i j vs j)"
  by (auto simp: synchronised_def join_view_def)

section \<open>The values stay in range\<close>

lemma tstep_held: "tstep t sh t' sh' \<Longrightarrow> strong_held t' + weak_held t' \<le> strong_held t + weak_held t + 1"
  by (erule tstep.cases) (auto simp: held_defs)

lemma counts_below_max:
  assumes "threads_ok ts sh" "tally strong_held ts + tally weak_held ts \<le> 2 ^ 61" "block_alive sh"
  shows "sh_strong sh \<noteq> u_max" "sh_weak sh \<noteq> u_max"
proof -
  have "unat (sh_strong sh) < 2 ^ 62" "unat (sh_weak sh) < 2 ^ 62"
    using assms by (auto simp: threads_ok_def counts_ok_def split: if_splits)
  then show "sh_strong sh \<noteq> u_max" "sh_weak sh \<noteq> u_max" by (simp_all add: word_readings(4))
qed

lemma past_ok_step:
  assumes step: "ostep t v m t' v' m'" and past: "past_ok m" and safe: "thread_safe t (now m)"
    and new: "m_block_alive m' \<Longrightarrow> current (strong_cell m') \<noteq> u_max \<and> current (weak_cell m') \<noteq> u_max"
  shows "past_ok m'"
proof -
  have max: "fst (last (strong_cell m')) \<noteq> u_max" "fst (last (weak_cell m')) \<noteq> u_max" if "m_block_alive m'"
    using new that by (simp_all add: current_def)
  show ?thesis
    using step
  proof (cases rule: ostep.cases)
    case (o_cas c x)
    then have "m_block_alive m'" using safe by (cases c) (auto simp: thread_safe_def rmw_count_def)
    then show ?thesis using o_cas max past by (cases c) (auto simp: past_ok_def rmw_count_def rmw_cell_def)
  next
    case (o_strong_sub x)
    then have "m_block_alive m'" using safe by (auto simp: thread_safe_def rmw_count_def)
    then show ?thesis using o_strong_sub max past by (auto simp: past_ok_def rmw_count_def rmw_cell_def)
  next
    case (o_weak_sub x)
    then have "m_block_alive m'" using safe by (auto simp: thread_safe_def rmw_count_def)
    then show ?thesis using o_weak_sub max past by (auto simp: past_ok_def rmw_count_def rmw_cell_def)
  next
    case (o_lock_cas x)
    then have "m_block_alive m'" using safe by (auto simp: thread_safe_def rmw_count_def)
    then show ?thesis using o_lock_cas max past by (auto simp: past_ok_def rmw_count_def rmw_cell_def)
  next
    case o_strong_exchange
    have "\<not> current (target_cell m')" unfolding o_strong_exchange by simp
    then show ?thesis using o_strong_exchange past by (auto simp: past_ok_def rmw_cell_def)
  qed (use past in \<open>auto simp: past_ok_def\<close>)
qed

text \<open>A step of the threads, with what the values of the past need of it.\<close>

lemma stale_step:
  assumes ok: "threads_ok ts sh" and i: "i < length ts" and "stale (ts ! i) t'"
  shows "threads_ok (ts[i := t']) sh"
proof -
  note held = stale_held [OF assms(3)]
  have "tally f (ts[i := t']) = tally f ts" if "f t' = f (ts ! i)" for f
    using tally_rest [OF i, of f] tally_rest_update [OF i, of f t'] that by simp
  moreover have "thread_ok t'" using stale_ok [OF assms(3)] ok i by (simp add: threads_ok_def)
  ultimately show ?thesis using ok i held
    by (auto simp: threads_ok_def dest: set_update_subset_insert [THEN subsetD])
qed

lemma orders_step_ok:
  assumes ok: "threads_ok ts (now m)" "past_ok m" and fit: "refs_fit ts" and i: "i < length ts"
    and step: "ostep (ts ! i) v m t' v' m'"
  shows "threads_ok (ts[i := t']) (now m')" "past_ok m'"
    "m_target_alive m' \<Longrightarrow> m_target_alive m" "m_block_alive m' \<Longrightarrow> m_block_alive m"
proof -
  have t: "thread_safe (ts ! i) (now m)" "thread_ok (ts ! i)"
    using thread_safe_of_ok [OF ok(1)] ok(1) i by (simp_all add: threads_ok_def)
  note either = ostep_now [OF step ok(2) t]
  then show ok': "threads_ok (ts[i := t']) (now m')"
    using threads_ok_step [OF ok(1) fit i] stale_step [OF ok(1) i] by auto
  have "strong_held t' + weak_held t' \<le> strong_held (ts ! i) + weak_held (ts ! i) + 1"
    using either tstep_held stale_held by fastforce
  then have "tally strong_held (ts[i := t']) + tally weak_held (ts[i := t']) \<le> 2 ^ 61"
    using held_bound [OF fit] tally_rest [OF i] tally_rest_update [OF i, of _ t']
    by (simp add: tally_rest [OF i, of strong_held] tally_rest [OF i, of weak_held])
  then show "past_ok m'"
    using past_ok_step [OF step ok(2) t(1)] counts_below_max [OF ok'] by simp
  show "m_target_alive m' \<Longrightarrow> m_target_alive m" "m_block_alive m' \<Longrightarrow> m_block_alive m"
    using step by (cases rule: ostep.cases; auto simp: load_defs rmw_count_def)+
qed

definition orders_ok :: "thread list \<Rightarrow> (nat \<Rightarrow> view) \<Rightarrow> order_memory \<Rightarrow> bool" where
  "orders_ok ts vs m \<longleftrightarrow> threads_ok ts (now m) \<and> past_ok m \<and> known_ok ts vs m"

lemma orders_ok_step:
  assumes "orders_ok ts vs m" "refs_fit ts" "i < length ts" "ostep (ts ! i) (vs i) m t' v' m'"
  shows "orders_ok (ts[i := t']) (vs(i := v')) m'"
proof -
  have ok: "threads_ok ts (now m)" "past_ok m" "known_ok ts vs m" using assms(1) by (simp_all add: orders_ok_def)
  note step = orders_step_ok [OF ok(1,2) assms(2-4)]
  have "thread_safe (ts ! i) (now m)" "thread_ok (ts ! i)"
    using thread_safe_of_ok [OF ok(1)] ok(1) assms(3) by (simp_all add: threads_ok_def)
  then have "known_ok (ts[i := t']) (vs(i := v')) m'"
    using step(3,4) by (intro known_ok_step [OF ok(3) assms(3,4) ok(2)])
  then show ?thesis using step(1,2) by (simp add: orders_ok_def)
qed

lemma keeps_idle:
  assumes "pc_of t = Idle"
  shows "keeps_target t \<longleftrightarrow> 0 < own_strong t" "keeps_block t \<longleftrightarrow> 0 < own_strong t \<or> 0 < own_weak t"
  using assms by (simp_all add: hand_defs)

lemma start_ok: "orders_ok (new_threads n) start_views start_memory"
proof -
  have "now start_memory = new_shared" by (simp add: now_def start_memory_def new_shared_def current_def)
  then have "threads_ok (new_threads n) (now start_memory)" using run_threads_ok [OF threads_start [of n]] by simp
  moreover have "past_ok start_memory" by (simp add: past_ok_def start_memory_def u_max_def)
  moreover have "known_ok (new_threads n) start_views start_memory"
  proof -
    have first: "0 < length (new_threads n)" "keeps_target (new_threads n ! 0)" "keeps_block (new_threads n ! 0)"
      by (simp_all add: new_threads_def keeps_idle idle_thread_def)
    have known: "e \<in> seen (start_views 0)" if "e < length (accesses start_memory)" for e
      using that by (auto simp: start_views_def no_view_def start_memory_def)
    have "target_hand (new_threads n ! 0) (start_views 0) start_memory e"
      "block_hand (new_threads n ! 0) (start_views 0) start_memory e" if "e < length (accesses start_memory)" for e
      using first(2,3) known [OF that] by (simp_all add: target_hand_def block_hand_def)
    moreover have "made_known (new_threads n ! i) (start_views i)" if "i < length (new_threads n)" for i
      using that by (cases i) (simp_all add: made_known_def new_threads_def keeps_idle idle_thread_def
        start_views_def no_view_def)
    ultimately show ?thesis using first(1) unfolding known_ok_def by blast
  qed
  ultimately show ?thesis by (simp add: orders_ok_def)
qed

lemma run_orders_ok: "run_orders n ts vs m \<Longrightarrow> orders_ok ts vs m"
proof (induction rule: run_orders.induct)
  case orders_start
  show ?case by (rule start_ok)
next
  case (orders_step ts vs m i t' v' m')
  show ?case by (rule orders_ok_step [OF orders_step.IH orders_step.hyps(2-4)])
next
  case (orders_sync ts vs m i j)
  then have "known_ok ts (synchronised i j vs) m"
    by (intro known_ok_pass [OF _ _ _ refl synchronised_seen]) (simp_all add: orders_ok_def)
  then show ?case using orders_sync.IH by (simp add: orders_ok_def)
next
  case (orders_pass_strong ts vs m i j)
  let ?ts = "ts[i := (ts ! i)\<lparr>own_strong := own_strong (ts ! i) - 1\<rparr>,
      j := (ts ! j)\<lparr>own_strong := own_strong (ts ! j) + 1\<rparr>]"
  have "known_ok ?ts (synchronised i j vs) m"
    using orders_pass_strong
    by (intro known_ok_pass [OF _ _ _ _ synchronised_seen])
      (auto simp: orders_ok_def keeps_idle nth_list_update split: if_splits)
  moreover have "threads_ok ?ts (now m)"
    using orders_pass_strong by (intro threads_ok_pass) (auto simp: held_defs orders_ok_def)
  ultimately show ?case using orders_pass_strong.IH by (simp add: orders_ok_def)
next
  case (orders_pass_weak ts vs m i j)
  let ?ts = "ts[i := (ts ! i)\<lparr>own_weak := own_weak (ts ! i) - 1\<rparr>,
      j := (ts ! j)\<lparr>own_weak := own_weak (ts ! j) + 1\<rparr>]"
  have "known_ok ?ts (synchronised i j vs) m"
    using orders_pass_weak
    by (intro known_ok_pass [OF _ _ _ _ synchronised_seen])
      (auto simp: orders_ok_def keeps_idle nth_list_update split: if_splits)
  moreover have "threads_ok ?ts (now m)"
    using orders_pass_weak by (intro threads_ok_pass) (auto simp: held_defs orders_ok_def)
  ultimately show ?case using orders_pass_weak.IH by (simp add: orders_ok_def)
qed

section \<open>No access races with a deletion\<close>

lemma tally_two: "i < length ts \<Longrightarrow> j < length ts \<Longrightarrow> i \<noteq> j \<Longrightarrow> f (ts ! i) + f (ts ! j) \<le> tally f ts"
proof -
  assume ij: "i < length ts" "j < length ts" "i \<noteq> j"
  have "sum (\<lambda>k. f (ts ! k)) {i, j} \<le> sum (\<lambda>k. f (ts ! k)) {0..<length ts}"
    using ij by (intro sum_mono2) auto
  then show ?thesis using ij(3) by (simp add: tally_def sum_list_sum_nth)
qed

lemma orders_counts:
  assumes "orders_ok ts vs m"
  shows "counts_ok (tally strong_held ts) (tally weak_held ts) (tally finalising ts) (tally exchanging ts)
    (tally freeing ts) (now m)" "\<And>i. i < length ts \<Longrightarrow> thread_ok (ts ! i)"
    "\<And>i. i < length ts \<Longrightarrow> thread_safe (ts ! i) (now m)"
  using assms thread_safe_of_ok by (auto simp: orders_ok_def threads_ok_def)

lemma tally_pos: "i < length ts \<Longrightarrow> 0 < f (ts ! i) \<Longrightarrow> 0 < tally f ts"
  using tally_ge [of "ts ! i" ts f] by simp

lemma deleter_alone:
  assumes ok: "orders_ok ts vs m" and i: "i < length ts" "pc_of (ts ! i) = Target_delete True"
    and j: "j < length ts" "target_hand (ts ! j) (vs j) m e"
  shows "e \<in> seen (vs i)"
proof -
  note c = orders_counts(1) [OF ok]
  have alive: "m_block_alive m" using orders_counts(3) [OF ok i(1)] i(2) by (simp add: thread_safe_def)
  have "0 < tally finalising ts" using i by (intro tally_pos [OF i(1)]) (simp add: finalising_def)
  then have none: "tally strong_held ts = 0" "tally finalising ts = 1"
    using c alive by (auto simp: counts_ok_def split: if_splits)
  then have "current (strong_cell m) = 0" using c alive by (simp add: counts_ok_def flip: unat_eq_0)
  then have keeps: "keeps_target (ts ! j)" "e \<in> seen (vs j)" using j(2) by (auto simp: target_hand_def carried_def)
  have "strong_held (ts ! j) = 0" using tally_pos [OF j(1), of strong_held] none(1) by auto
  then have "0 < finalising (ts ! j)"
    using keeps(1) orders_counts(2) [OF ok j(1)] by (auto simp: keeps_target_def finalising_def thread_ok_def)
  then have "j = i" using tally_two [OF i(1) j(1), of finalising] none(2) i(2) by (auto simp: finalising_def)
  then show ?thesis using keeps(2) by simp
qed

lemma freer_alone:
  assumes ok: "orders_ok ts vs m" and i: "i < length ts" "pc_of (ts ! i) = Block_delete"
    and j: "j < length ts" "block_hand (ts ! j) (vs j) m e"
  shows "e \<in> seen (vs i)"
proof -
  note c = orders_counts(1) [OF ok]
  have alive: "m_block_alive m" using orders_counts(3) [OF ok i(1)] i(2) by (simp add: thread_safe_def)
  have "0 < tally freeing ts" using i by (intro tally_pos [OF i(1)]) (simp add: freeing_def)
  then have zero: "current (weak_cell m) = 0" "tally freeing ts = 1"
    using c alive by (auto simp: counts_ok_def split: if_splits)
  then have "unat (current (weak_cell m)) = 0" by simp
  then have none: "tally strong_held ts = 0" "tally finalising ts = 0" "tally weak_held ts = 0"
    using c alive by (auto simp: counts_ok_def simp del: unat_eq_0 split: if_splits)
  then have "current (strong_cell m) = 0" using c alive by (simp add: counts_ok_def flip: unat_eq_0)
  then have keeps: "keeps_block (ts ! j)" "e \<in> seen (vs j)"
    using j(2) zero(1) by (auto simp: block_hand_def carried_def)
  have "strong_held (ts ! j) = 0" "finalising (ts ! j) = 0" "weak_held (ts ! j) = 0"
    using tally_pos [OF j(1)] none by (metis less_numeral_extra(3) neq0_conv)+
  then have "pc_of (ts ! j) = Block_delete"
    using keeps(1) orders_counts(2) [OF ok j(1)]
    by (auto simp: keeps_block_def keeps_target_def finalising_def thread_ok_def split: if_splits)
  then have "j = i" using tally_two [OF i(1) j(1), of freeing] zero(2) i(2) by (auto simp: freeing_def)
  then show ?thesis using keeps(2) by simp
qed

text \<open>C7: With the memory orders of the sources: any number of threads that copy, watch, lock, release, pass on and
  use the handles of one target, reading old values of the counters where the orders allow it. Whoever
  deletes the target knows, by synchronisation, of every use of the target by any thread, and whoever
  deletes the control block of every access to it, so no access races with a deletion; nothing is
  touched after it was deleted; whoever holds a handle knows of the construction; each is deleted at
  most once.\<close>

theorem intrusive_orders_race_free:
  assumes "run_orders n ts vs m" "i < length ts"
  shows "thread_safe (ts ! i) (now m) \<and> m_destroyed m \<le> 1 \<and> m_freed m \<le> 1 \<and>
    (pc_of (ts ! i) = Target_delete True \<longrightarrow>
      (\<forall>e < length (accesses m). accesses m ! e = On_target \<longrightarrow> e \<in> seen (vs i))) \<and>
    (pc_of (ts ! i) = Block_delete \<longrightarrow> (\<forall>e < length (accesses m). e \<in> seen (vs i))) \<and>
    (0 < own_strong (ts ! i) + own_weak (ts ! i) \<longrightarrow> {0, 1} \<subseteq> seen (vs i))"
proof -
  note ok = run_orders_ok [OF assms(1)]
  note safe = orders_counts(3) [OF ok assms(2)]
  have known: "known_ok ts vs m" using ok by (simp add: orders_ok_def)
  have "e \<in> seen (vs i)"
    if "pc_of (ts ! i) = Target_delete True" "e < length (accesses m)" "accesses m ! e = On_target" for e
    using deleter_alone [OF ok assms(2) that(1)] known that safe by (auto simp: known_ok_def thread_safe_def)
  moreover have "e \<in> seen (vs i)" if "pc_of (ts ! i) = Block_delete" "e < length (accesses m)" for e
    using freer_alone [OF ok assms(2) that(1)] known that safe by (auto simp: known_ok_def thread_safe_def)
  moreover have "0 < own_strong (ts ! i) + own_weak (ts ! i) \<Longrightarrow> {0, 1} \<subseteq> seen (vs i)"
    using known assms(2) by (auto simp: known_ok_def made_known_def hand_defs)
  moreover have "m_destroyed m \<le> 1 \<and> m_freed m \<le> 1"
    using orders_counts(1) [OF ok] by (simp add: counts_ok_def)
  ultimately show ?thesis using safe by blast
qed

text \<open>The first of two threads uses the target and passes its handle on; the second uses it and releases it.\<close>

definition reaches :: "thread \<Rightarrow> thread \<Rightarrow> size_t \<Rightarrow> access list \<Rightarrow> bool" where
  "reaches a b x es \<longleftrightarrow> (\<exists>vs m. run_orders 1 [a, b] vs m \<and> current (strong_cell m) = x \<and> current (target_cell m) \<and>
     accesses m = es)"

lemma reaches_step0:
  assumes "reaches a b x es" "refs_fit [a, b]"
    and "\<And>v m. current (strong_cell m) = x \<Longrightarrow> current (target_cell m) \<Longrightarrow> accesses m = es \<Longrightarrow>
      \<exists>v' m'. ostep a v m a' v' m' \<and> current (strong_cell m') = y \<and> current (target_cell m') \<and> accesses m' = es'"
  shows "reaches a' b y es'"
proof -
  obtain vs m where m: "run_orders 1 [a, b] vs m" "current (strong_cell m) = x" "current (target_cell m)"
    "accesses m = es" using assms(1) by (auto simp: reaches_def)
  obtain v' m' where "ostep a (vs 0) m a' v' m'" "current (strong_cell m') = y" "current (target_cell m')"
    "accesses m' = es'" using assms(3) [OF m(2-4)] by blast
  then show ?thesis using orders_step [OF m(1) assms(2), of 0 a' v' m'] by (auto simp: reaches_def)
qed

lemma reaches_step1:
  assumes "reaches a b x es" "refs_fit [a, b]"
    and "\<And>v m. current (strong_cell m) = x \<Longrightarrow> current (target_cell m) \<Longrightarrow> accesses m = es \<Longrightarrow>
      \<exists>v' m'. ostep b v m b' v' m' \<and> current (strong_cell m') = y \<and> current (target_cell m') \<and> accesses m' = es'"
  shows "reaches a b' y es'"
proof -
  obtain vs m where m: "run_orders 1 [a, b] vs m" "current (strong_cell m) = x" "current (target_cell m)"
    "accesses m = es" using assms(1) by (auto simp: reaches_def)
  obtain v' m' where "ostep b (vs 1) m b' v' m'" "current (strong_cell m') = y" "current (target_cell m')"
    "accesses m' = es'" using assms(3) [OF m(2-4)] by blast
  then show ?thesis using orders_step [OF m(1) assms(2), of 1 b' v' m'] by (auto simp: reaches_def)
qed

lemma reaches_exchange:
  "reaches idle_thread (idle_thread\<lparr>pc_of := Strong_exchange\<rparr>) 0
    [On_block, On_target, On_target, On_target, On_target, On_block]"
proof -
  let ?one = "idle_thread\<lparr>own_strong := 1\<rparr>"
  have fit: "refs_fit [?one, idle_thread]" "refs_fit [idle_thread, ?one]"
    "refs_fit [idle_thread, idle_thread\<lparr>pc_of := p\<rparr>]" for p
    by (simp_all add: refs_fit_def tally_def idle_thread_def)
  have "reaches ?one idle_thread 1 [On_block, On_target]"
    using orders_start [of 1]
    by (auto simp: reaches_def new_threads_def start_memory_def current_def intro!: exI)
  then have "reaches ?one idle_thread 1 [On_block, On_target, On_target]"
    by (rule reaches_step0 [OF _ fit(1)]) (rule exI, rule exI, rule conjI, rule o_use, simp_all add: idle_thread_def)
  then have "reaches idle_thread ?one 1 [On_block, On_target, On_target]"
    using orders_pass_strong [of 1 "[?one, idle_thread]" _ _ 0 1]
    by (force simp: reaches_def idle_thread_def)
  then have "reaches idle_thread ?one 1 [On_block, On_target, On_target, On_target]"
    by (rule reaches_step1 [OF _ fit(2)]) (rule exI, rule exI, rule conjI, rule o_use, simp_all add: idle_thread_def)
  then have "reaches idle_thread (?one\<lparr>own_strong := own_strong ?one - 1, pc_of := Strong_sub\<rparr>) 1
      [On_block, On_target, On_target, On_target, On_target]"
    by (rule reaches_step1 [OF _ fit(2)])
      (rule exI, rule exI, rule conjI, rule o_begin_release, simp_all add: idle_thread_def)
  then have "reaches idle_thread (idle_thread\<lparr>pc_of := Strong_sub\<rparr>) 1
      [On_block, On_target, On_target, On_target, On_target]" by (simp add: idle_thread_def)
  then show ?thesis
    by (rule reaches_step1 [OF _ fit(3)])
      (use o_strong_sub [of "idle_thread\<lparr>pc_of := Strong_sub\<rparr>"] in
        \<open>fastforce simp: rmw_count_def idle_thread_def\<close>)
qed

theorem intrusive_orders_race_free_witness:
  "\<exists>ts vs m. run_orders 1 ts vs m \<and> pc_of (ts ! 1) = Target_delete True \<and> {1, 2, 3, 4} \<subseteq> seen (vs 1)"
proof -
  let ?t = "idle_thread\<lparr>pc_of := Strong_exchange\<rparr>"
  obtain vs m where m: "run_orders 1 [idle_thread, ?t] vs m" "current (target_cell m)"
    "accesses m = [On_block, On_target, On_target, On_target, On_target, On_block]"
    using reaches_exchange by (auto simp: reaches_def)
  let ?ts = "[idle_thread, ?t\<lparr>pc_of := Target_delete True\<rparr>]"
  have "refs_fit [idle_thread, ?t]" by (simp add: refs_fit_def tally_def idle_thread_def)
  then obtain vs' m' where run: "run_orders 1 ?ts vs' m'" and es: "accesses m' = accesses m @ [On_block]"
    using orders_step [OF m(1) _ _ o_strong_exchange, of 1] m(2) by fastforce
  have "e \<in> seen (vs' 1)" if "e \<in> {1, 2, 3, 4}" for e
    using intrusive_orders_race_free [OF run, of 1] that by (auto simp: es m(3))
  then show ?thesis using run by (intro exI [of _ ?ts] exI [of _ vs'] exI [of _ m']) auto
qed

end
