(* ===== verification/IntrusiveFronts.thy ===== *)
theory IntrusiveFronts
  imports IntrusiveOrders
begin

text \<open>
  The views of the threads point into the values the atomic objects of \<open>core/intrusive_ptr.h\<close> have had: a
  load always has a value to read, and the newest one is among them.
\<close>

lemma front_simps [simp]:
  "front (touched m v) = front v"
  "front (join_view v w) c = max (front v c) (front w c)"
  by (simp_all add: touched_def join_view_def)

lemma front_load:
  "front (load_view ord c k xs v) c' = (if acquires ord then max (if c' = c then k else front v c') (front (snd (xs ! k)) c')
    else if c' = c then k else front v c')"
  by (simp add: load_view_def Let_def)

lemma front_rmw:
  "front (rmw_view ord c xs v) c' = (if acquires ord then max (if c' = c then length xs else front v c') (front (snd (last xs)) c')
    else if c' = c then length xs else front v c')"
  by (simp add: rmw_view_def Let_def)

lemmas front_defs = front_load front_rmw load_defs rmw_count_def rmw_cell_def

lemma rmw_length [simp]: "length (rmw_cell ord c x xs v) = Suc (length xs)"
  by (simp add: rmw_cell_def)

section \<open>Views inside of the memory\<close>

text \<open>How many values an object has had.\<close>

fun cell_length :: "cell_name \<Rightarrow> order_memory \<Rightarrow> nat" where
  "cell_length (Counter c) m = length (counter c m)"
| "cell_length Target_pointer m = length (target_cell m)"

definition inside :: "order_memory \<Rightarrow> view \<Rightarrow> bool" where
  "inside m v \<longleftrightarrow> (\<forall>c. front v c < cell_length c m)"

definition messages :: "order_memory \<Rightarrow> view set" where
  "messages m = snd ` set (strong_cell m) \<union> snd ` set (weak_cell m) \<union> snd ` set (target_cell m)"

definition cells_inside :: "order_memory \<Rightarrow> bool" where
  "cells_inside m \<longleftrightarrow> strong_cell m \<noteq> [] \<and> weak_cell m \<noteq> [] \<and> target_cell m \<noteq> [] \<and>
     (\<forall>w \<in> messages m. inside m w)"

lemma inside_strong: "inside m v \<Longrightarrow> front v (Counter StrongCount) < length (strong_cell m)"
  unfolding inside_def by (metis counter.simps(1) cell_length.simps(1))

lemma extent_logged [simp]: "cell_length c (logged a m) = cell_length c m"
  by (cases c) simp_all

lemma inside_logged [simp]: "inside (logged a m) v \<longleftrightarrow> inside m v" "inside m (touched n v) \<longleftrightarrow> inside m v"
  by (simp_all add: inside_def)

lemma inside_mono: "inside m v \<Longrightarrow> (\<And>c. cell_length c m \<le> cell_length c m') \<Longrightarrow> inside m' v"
  unfolding inside_def by (meson less_le_trans)

lemma message_inside:
  assumes "cells_inside m"
  shows "k < length (counter c m) \<Longrightarrow> inside m (snd (counter c m ! k))" "inside m (snd (last (counter c m)))"
    "k < length (target_cell m) \<Longrightarrow> inside m (snd (target_cell m ! k))" "inside m (snd (last (target_cell m)))"
  using assms by (cases c; auto simp: cells_inside_def messages_def)+

lemma inside_load:
  "inside m v \<Longrightarrow> inside m (snd (xs ! k)) \<Longrightarrow> k < cell_length c m \<Longrightarrow> inside m (load_view ord c k xs v)"
  by (auto simp: inside_def front_load)

lemma inside_rmw:
  assumes "inside m v" "inside m (snd (last xs))" "length xs = cell_length c m"
    and "\<And>c'. cell_length c' m' = (if c' = c then Suc (cell_length c m) else cell_length c' m)"
  shows "inside m' (rmw_view ord c xs v)" "w \<in> snd ` set (rmw_cell ord c x xs v) \<Longrightarrow> w \<in> snd ` set xs \<or> inside m' w"
proof -
  have "inside m' (snd (last xs))" by (rule inside_mono [OF assms(2)]) (simp add: assms(4))
  moreover show view: "inside m' (rmw_view ord c xs v)"
    using assms by (auto simp: inside_def front_rmw less_Suc_eq)
  ultimately show "w \<in> snd ` set (rmw_cell ord c x xs v) \<Longrightarrow> w \<in> snd ` set xs \<or> inside m' w"
    by (auto simp: rmw_cell_def inside_def)
qed

section \<open>Every step keeps them inside\<close>

lemma counter_put [simp]: "counter c (put_counter d xs m) = (if c = d then xs else counter c m)"
  by (cases c; cases d; simp)

lemma target_put [simp]: "target_cell (put_counter c xs m) = target_cell m"
  by (cases c) simp_all

text \<open>A load, and a read-modify-write of a counter or of the pointer.\<close>

lemma load_count_inside:
  assumes "inside m v" "cells_inside m" "readable (Counter c) k (counter c m) v" "load_count ord c k m v = (x, v')"
  shows "inside m v'"
  using assms message_inside(1) [OF assms(2), of k c]
  by (auto simp: load_count_def readable_def intro!: inside_load)

lemma cells_inside_rmw:
  assumes cells: "cells_inside m" and grows: "\<And>c. cell_length c m \<le> cell_length c m'"
    and new: "\<And>w. w \<in> messages m' \<Longrightarrow> w \<in> messages m \<or> inside m' w"
  shows "cells_inside m'"
proof -
  have "inside m' w" if "w \<in> messages m'" for w
    using new [OF that] cells inside_mono [OF _ grows] by (auto simp: cells_inside_def)
  moreover have "strong_cell m' \<noteq> []" "weak_cell m' \<noteq> []" "target_cell m' \<noteq> []"
    using cells grows [of "Counter StrongCount"] grows [of "Counter WeakCount"] grows [of Target_pointer]
    by (auto simp: cells_inside_def)
  ultimately show ?thesis by (simp add: cells_inside_def)
qed

lemma rmw_count_inside:
  assumes "inside m v" "cells_inside m" "rmw_count ord c x m v = (m', v')"
  shows "inside m' v' \<and> cells_inside m' \<and> (\<forall>d. cell_length d m \<le> cell_length d m')"
proof -
  have v: "inside m (touched m v)" using assms(1) by simp
  have m': "m' = logged On_block (put_counter c (rmw_cell ord (Counter c) x (counter c m) (touched m v)) m)"
    "v' = rmw_view ord (Counter c) (counter c m) (touched m v)" using assms(3) by (simp_all add: rmw_count_def)
  have ext: "cell_length d m' = (if d = Counter c then Suc (cell_length (Counter c) m) else cell_length d m)" for d
    by (cases d) (auto simp: m')
  note rmw = inside_rmw [OF v message_inside(2) [OF assms(2)] _ ext, of c, simplified]
  have "messages m' \<subseteq> messages m \<union> snd ` set (counter c m')" by (cases c) (auto simp: m' messages_def)
  moreover have "snd ` set (counter c m) \<subseteq> messages m" by (cases c) (auto simp: messages_def)
  ultimately have "w \<in> messages m \<or> inside m' w" if "w \<in> messages m'" for w
    using that rmw(2) [of w ord x] by (auto simp: m')
  then have "cells_inside m'" by (intro cells_inside_rmw [OF assms(2)]) (simp_all add: ext)
  then show ?thesis using rmw(1) by (simp add: m'(2) ext)
qed

lemma exchange_inside:
  assumes "inside m v" "cells_inside m"
    and m': "m' = logged On_block (m\<lparr>target_cell := rmw_cell ord Target_pointer x (target_cell m) (touched m v)\<rparr>)"
  shows "inside m' (rmw_view ord Target_pointer (target_cell m) (touched m v)) \<and> cells_inside m' \<and>
    (\<forall>d. cell_length d m \<le> cell_length d m')"
proof -
  have v: "inside m (touched m v)" using assms(1) by simp
  have counters: "counter c (m\<lparr>target_cell := xs\<rparr>) = counter c m" for c xs by (cases c) simp_all
  have ext: "cell_length d m' = (if d = Target_pointer then Suc (cell_length Target_pointer m) else cell_length d m)" for d
    by (cases d) (auto simp: m' counters)
  note rmw = inside_rmw [OF v message_inside(4) [OF assms(2)] _ ext, simplified]
  have "w \<in> messages m \<or> inside m' w" if "w \<in> messages m'" for w
    using that rmw(2) [of w ord x] by (auto simp: m' messages_def)
  then have "cells_inside m'" by (intro cells_inside_rmw [OF assms(2)]) (simp_all add: ext)
  then show ?thesis using rmw(1) by (simp add: ext)
qed

lemma inside_same:
  assumes "inside m v" "cells_inside m" "strong_cell m' = strong_cell m" "weak_cell m' = weak_cell m"
    "target_cell m' = target_cell m"
  shows "inside m' v \<and> cells_inside m' \<and> (\<forall>c. cell_length c m \<le> cell_length c m')"
proof -
  have "counter c m' = counter c m" for c using assms(3,4) by (cases c) simp_all
  then have ext: "cell_length d m' = cell_length d m" for d using assms(5) by (cases d) simp_all
  then have "inside m' = inside m" by (simp add: inside_def [abs_def])
  then show ?thesis using assms ext by (simp add: cells_inside_def messages_def)
qed

lemma fronts_step:
  assumes "ostep t v m t' v' m'" "inside m v" "cells_inside m"
  shows "inside m' v' \<and> cells_inside m' \<and> (\<forall>c. cell_length c m \<le> cell_length c m')"
  using assms(1)
proof (cases rule: ostep.cases)
  case (o_load c k x)
  show ?thesis by (rule inside_same [OF load_count_inside [OF assms(2,3) o_load(4,5)] assms(3)]) (simp_all add: o_load(2))
next
  case (o_cas c x)
  show ?thesis by (rule rmw_count_inside [OF assms(2,3) o_cas(5)])
next
  case (o_cas_fails c x k y)
  show ?thesis
    by (rule inside_same [OF load_count_inside [OF assms(2,3) o_cas_fails(5,6)] assms(3)]) (simp_all add: o_cas_fails(2))
next
  case (o_strong_sub x)
  show ?thesis by (rule rmw_count_inside [OF assms(2,3) o_strong_sub(4)])
next
  case o_strong_exchange
  show ?thesis unfolding o_strong_exchange(2) by (rule exchange_inside [OF assms(2,3) o_strong_exchange(3)])
next
  case (o_weak_sub x)
  show ?thesis by (rule rmw_count_inside [OF assms(2,3) o_weak_sub(4)])
next
  case (o_lock_load k x)
  show ?thesis
    by (rule inside_same [OF load_count_inside [where c = StrongCount, OF assms(2,3)] assms(3)])
      (use o_lock_load in simp_all)
next
  case (o_lock_cas x)
  show ?thesis by (rule rmw_count_inside [OF assms(2,3) o_lock_cas(5)])
next
  case (o_lock_cas_fails x k y)
  show ?thesis
    by (rule inside_same [OF load_count_inside [where c = StrongCount, OF assms(2,3)] assms(3)])
      (use o_lock_cas_fails in simp_all)
next
  case (o_lock_target k)
  then have "inside m v'" using assms(2) message_inside(3) [OF assms(3), of k]
    by (auto simp: readable_def intro!: inside_load)
  then show ?thesis by (rule inside_same [OF _ assms(3)]) (use o_lock_target in simp_all)
next
  case (o_use_count k x)
  then have load: "load_count memory_order_acquire StrongCount k (logged On_target m) (touched m v) = (x, v')"
    by (simp add: order_use_count_def)
  have log: "inside (logged On_target m) (touched m v) \<and> cells_inside (logged On_target m) \<and>
      (\<forall>c. cell_length c m \<le> cell_length c (logged On_target m))"
    by (rule inside_same [OF _ assms(3)]) (simp_all add: assms(2))
  have "inside (logged On_target m) v'"
    by (rule load_count_inside [OF _ _ _ load]) (use log o_use_count(5) in \<open>simp_all add: readable_def\<close>)
  then have "inside m v'" by simp
  then show ?thesis by (rule inside_same [OF _ assms(3)]) (use o_use_count in simp_all)
next
  case (o_expired k b)
  obtain x v1 where x: "load_count memory_order_acquire StrongCount k m v = (x, v1)"
    by (cases "load_count memory_order_acquire StrongCount k m v")
  then have "v1 = v'" using o_expired by (simp add: order_expired_def)
  then have "inside m v'" using load_count_inside [OF assms(2,3) _ x] o_expired by simp
  then show ?thesis by (rule inside_same [OF _ assms(3)]) (use o_expired in simp_all)
qed (rule inside_same [OF _ assms(3)]; simp add: assms(2))+

section \<open>In every run\<close>

definition fronts_ok :: "(nat \<Rightarrow> view) \<Rightarrow> order_memory \<Rightarrow> bool" where
  "fronts_ok vs m \<longleftrightarrow> (\<forall>i. inside m (vs i)) \<and> cells_inside m"

lemma fronts_ok_step:
  assumes "fronts_ok vs m" "ostep t (vs i) m t' v' m'"
  shows "fronts_ok (vs(i := v')) m'"
  using fronts_step [OF assms(2)] assms(1) inside_mono [of m _ m'] by (simp add: fronts_ok_def)

lemma fronts_ok_sync: "fronts_ok vs m \<Longrightarrow> fronts_ok (synchronised i j vs) m"
  by (simp add: fronts_ok_def synchronised_def inside_def)

lemma run_orders_fronts: "run_orders n ts vs m \<Longrightarrow> fronts_ok vs m"
proof (induction rule: run_orders.induct)
  case orders_start
  have "0 < cell_length c start_memory" for c
  proof (cases c)
    case (Counter d)
    then show ?thesis by (cases d) (simp_all add: start_memory_def)
  qed (simp add: start_memory_def)
  then have "inside start_memory v" if "front v = (\<lambda>_. 0)" for v using that by (simp add: inside_def)
  then show ?case
    by (auto simp: fronts_ok_def cells_inside_def messages_def start_views_def no_view_def start_memory_def)
next
  case (orders_step ts vs m i t' v' m')
  show ?case by (rule fronts_ok_step [OF orders_step.IH orders_step.hyps(4)])
qed (simp_all add: fronts_ok_sync)

end
