(* ===== verification/IntrusiveCounts.thy ===== *)
theory IntrusiveCounts
  imports IntrusiveFronts
begin

text \<open>
  What \<open>use_count\<close> and \<open>expired\<close> of \<open>core/intrusive_ptr.h\<close> say when other threads work on the counts: both load
  the strong count with acquire order and may read an old value of it.
\<close>

section \<open>Old values of the strong count\<close>

text \<open>
  The strong references, at the \<open>k\<close>-th value of the count, of the threads that may still read it. They are
  counted in that value; and when no weak handle was ever made, an old value counts one more, which
  belongs to a thread that has worked on the count since.
\<close>

definition counted :: "nat \<Rightarrow> thread list \<Rightarrow> (nat \<Rightarrow> view) \<Rightarrow> nat" where
  "counted k ts vs = (\<Sum>i < length ts. if front (vs i) (Counter StrongCount) \<le> k then strong_held (ts ! i) else 0)"

definition never_watched :: "order_memory \<Rightarrow> bool" where
  "never_watched m \<longleftrightarrow> length (weak_cell m) = 1"

definition values_ok :: "thread list \<Rightarrow> (nat \<Rightarrow> view) \<Rightarrow> order_memory \<Rightarrow> bool" where
  "values_ok ts vs m \<longleftrightarrow> fst (hd (weak_cell m)) = 1 \<and>
     (\<forall>k < length (strong_cell m). counted k ts vs \<le> unat (fst (strong_cell m ! k))) \<and>
     (\<forall>k. Suc k < length (strong_cell m) \<longrightarrow> fst (strong_cell m ! k) \<noteq> 0 \<and>
        (never_watched m \<longrightarrow> counted k ts vs < unat (fst (strong_cell m ! k))))"

text \<open>A step leaves the strong count and takes no reference, or it writes a new value after the last.\<close>

definition leaves_strong :: "thread \<Rightarrow> view \<Rightarrow> order_memory \<Rightarrow> thread \<Rightarrow> view \<Rightarrow> order_memory \<Rightarrow> bool" where
  "leaves_strong t v m t' v' m' \<longleftrightarrow> strong_cell m' = strong_cell m \<and> strong_held t' \<le> strong_held t \<and>
     front v (Counter StrongCount) \<le> front v' (Counter StrongCount)"

definition writes_strong :: "thread \<Rightarrow> view \<Rightarrow> order_memory \<Rightarrow> thread \<Rightarrow> view \<Rightarrow> order_memory \<Rightarrow> bool" where
  "writes_strong t v m t' v' m' \<longleftrightarrow> (\<exists>x. strong_cell m' = strong_cell m @ [x]) \<and> weak_cell m' = weak_cell m \<and>
     length (strong_cell m) \<le> front v' (Counter StrongCount) \<and>
     pc_of t \<notin> {Idle, Aborted} \<and> m_block_alive m' = m_block_alive m \<and>
     (0 < strong_held t \<or> current (strong_cell m) \<noteq> 0 \<and> 0 < own_weak t)"

lemma strong_cases:
  assumes "ostep t v m t' v' m'" "thread_ok t"
  shows "leaves_strong t v m t' v' m' \<or> writes_strong t v m t' v' m'"
  using assms(1)
proof (cases rule: ostep.cases)
  case (o_load c k x)
  then show ?thesis by (cases c) (auto simp: leaves_strong_def front_defs held_defs readable_def)
next
  case (o_cas_fails c x k y)
  then show ?thesis by (cases c) (auto simp: leaves_strong_def front_defs held_defs readable_def)
next
  case (o_abort c x)
  then show ?thesis by (cases c) (auto simp: leaves_strong_def held_defs)
next
  case (o_cas c x)
  then show ?thesis using assms(2)
    by (cases c) (auto simp: leaves_strong_def writes_strong_def front_defs held_defs thread_ok_def)
next
  case (o_strong_sub x)
  then show ?thesis by (auto simp: writes_strong_def front_defs held_defs)
next
  case (o_lock_cas x)
  then show ?thesis using assms(2) by (auto simp: writes_strong_def front_defs held_defs thread_ok_def)
qed (auto simp: leaves_strong_def front_defs held_defs readable_def)

section \<open>The invariant\<close>

definition counts_as :: "nat \<Rightarrow> thread \<Rightarrow> view \<Rightarrow> nat" where
  "counts_as k t v = (if front v (Counter StrongCount) \<le> k then strong_held t else 0)"

lemma counted_alt: "counted k ts vs = (\<Sum>i < length ts. counts_as k (ts ! i) (vs i))"
  by (simp add: counted_def counts_as_def)

lemma counted_update:
  assumes "i < length ts"
  shows "counted k (ts[i := t']) (vs(i := v')) + counts_as k (ts ! i) (vs i) = counted k ts vs + counts_as k t' v'"
proof -
  have "(\<Sum>j \<in> {..<length ts} - {i}. counts_as k (ts[i := t'] ! j) ((vs(i := v')) j)) =
      (\<Sum>j \<in> {..<length ts} - {i}. counts_as k (ts ! j) (vs j))"
    by (rule sum.cong) auto
  then show ?thesis
    using assms sum.remove [of "{..<length ts}" i "\<lambda>j. counts_as k (ts[i := t'] ! j) ((vs(i := v')) j)"]
      sum.remove [of "{..<length ts}" i "\<lambda>j. counts_as k (ts ! j) (vs j)"]
    by (simp add: counted_alt)
qed

lemma counted_le_tally: "counted k ts vs \<le> tally strong_held ts"
  unfolding counted_def tally_def sum_list_sum_nth by (simp add: atLeast0LessThan sum_mono)

lemma counted_all:
  "(\<And>i. front (vs i) (Counter StrongCount) \<le> k) \<Longrightarrow> counted k ts vs = tally strong_held ts"
  unfolding counted_def tally_def sum_list_sum_nth by (simp add: atLeast0LessThan)

lemma counted_ge: "i < length ts \<Longrightarrow> counts_as k (ts ! i) (vs i) \<le> counted k ts vs"
  unfolding counted_alt by (rule member_le_sum) auto

lemma values_ok_smaller:
  assumes "values_ok ts vs m" "\<And>k. counted k ts' vs' \<le> counted k ts vs" "strong_cell m' = strong_cell m"
    and "weak_cell m \<noteq> []" "weak_cell m' = weak_cell m @ ys"
  shows "values_ok ts' vs' m'"
proof -
  have "hd (weak_cell m') = hd (weak_cell m)" "never_watched m' \<Longrightarrow> never_watched m"
    using assms(4,5) by (cases "weak_cell m"; simp add: never_watched_def)+
  then show ?thesis using assms(1,3) order_trans [OF assms(2)] le_less_trans [OF assms(2)]
    unfolding values_ok_def by simp
qed

lemma weak_grows: "ostep t v m t' v' m' \<Longrightarrow> \<exists>ys. weak_cell m' = weak_cell m @ ys"
proof (erule ostep.cases, goal_cases)
  case (10 t c x m m' v v')
  then show ?case by (cases c) (auto simp: rmw_count_def rmw_cell_def)
qed (auto simp: rmw_count_def rmw_cell_def)

lemma strong_value:
  assumes "orders_ok ts vs m" "m_block_alive m"
  shows "unat (current (strong_cell m)) = tally strong_held ts"
  using orders_counts(1) [OF assms(1)] assms(2) by (simp add: counts_ok_def)

text \<open>Without weak handles the weak count is the target's own reference.\<close>

lemma never_watched_no_weak:
  assumes "orders_ok ts vs m" "m_block_alive m" "never_watched m" "fst (hd (weak_cell m)) = 1"
    and "current (strong_cell m) \<noteq> 0" "i < length ts"
  shows "own_weak (ts ! i) = 0"
proof -
  have "current (weak_cell m) = 1"
    using assms(3,4) by (cases "weak_cell m") (auto simp: never_watched_def current_def)
  moreover have "0 < tally strong_held ts"
    using strong_value [OF assms(1,2)] assms(5) by (metis neq0_conv unat_eq_0)
  ultimately have "tally weak_held ts = 0"
    using orders_counts(1) [OF assms(1)] assms(2) by (auto simp: counts_ok_def split: if_splits)
  then have "weak_held (ts ! i) = 0" using tally_pos [OF assms(6), of weak_held] by auto
  then show ?thesis by (simp add: weak_held_def)
qed

lemma values_ok_step:
  assumes ok: "orders_ok ts vs m" "orders_ok (ts[i := t']) (vs(i := v')) m'" and vals: "values_ok ts vs m"
    and fronts: "\<And>j. inside m (vs j)" and i: "i < length ts" and step: "ostep (ts ! i) (vs i) m t' v' m'"
  shows "values_ok (ts[i := t']) (vs(i := v')) m'"
proof -
  let ?ts = "ts[i := t']" and ?vs = "vs(i := v')" and ?n = "length (strong_cell m)"
  note t = orders_counts(2,3) [OF ok(1) i]
  have cells: "strong_cell m \<noteq> []" "weak_cell m \<noteq> []" using ok(1) by (simp_all add: orders_ok_def past_ok_def)
  from strong_cases [OF step t(1)] show ?thesis
  proof
    assume leaves: "leaves_strong (ts ! i) (vs i) m t' v' m'"
    then have "counts_as k t' v' \<le> counts_as k (ts ! i) (vs i)" for k
      by (auto simp: leaves_strong_def counts_as_def)
    then have "counted k ?ts ?vs \<le> counted k ts vs" for k
      using counted_update [OF i, of k t' vs v'] by (metis add_le_cancel_right add_left_mono)
    then show ?thesis using values_ok_smaller [OF vals] leaves cells weak_grows [OF step]
      by (auto simp: leaves_strong_def)
  next
    assume writes: "writes_strong (ts ! i) (vs i) m t' v' m'"
    then obtain x where x: "strong_cell m' = strong_cell m @ [x]" by (auto simp: writes_strong_def)
    have weak: "weak_cell m' = weak_cell m" and alive: "m_block_alive m" "m_block_alive m'"
      using writes t(2) by (auto simp: writes_strong_def thread_safe_def)
    have gone: "counted k ?ts ?vs + counts_as k (ts ! i) (vs i) = counted k ts vs" if "k < ?n" for k
      using counted_update [OF i, of k t' vs v'] that writes by (simp add: writes_strong_def counts_as_def)
    have nonzero: "current (strong_cell m) \<noteq> 0"
      using writes strong_value [OF ok(1) alive(1)] tally_pos [OF i, of strong_held]
      by (auto simp: writes_strong_def)
    have last: "strong_cell m ! (?n - 1) = last (strong_cell m)" using cells(1) by (simp add: last_conv_nth)
    have below: "counted k ?ts ?vs \<le> unat (fst (strong_cell m' ! k))" if "k < length (strong_cell m')" for k
    proof (cases "k < ?n")
      case True
      then show ?thesis using gone [OF True] vals x by (fastforce simp: values_ok_def nth_append)
    next
      case False
      then have "fst (strong_cell m' ! k) = current (strong_cell m')" using that x by (simp add: current_def nth_append)
      then show ?thesis using counted_le_tally [of k ?ts ?vs] strong_value [OF ok(2) alive(2)] by simp
    qed
    have strict: "fst (strong_cell m' ! k) \<noteq> 0 \<and>
        (never_watched m' \<longrightarrow> counted k ?ts ?vs < unat (fst (strong_cell m' ! k)))" if "Suc k < length (strong_cell m')" for k
    proof (cases "Suc k < ?n")
      case True
      then show ?thesis using gone [of k] vals x weak
        by (fastforce simp: values_ok_def nth_append never_watched_def)
    next
      case False
      then have k: "k = ?n - 1" "k < ?n" using that x cells(1) by auto
      have v: "fst (strong_cell m' ! k) = current (strong_cell m)" using k x last by (simp add: current_def nth_append)
      have "0 < strong_held (ts ! i)" if "never_watched m'"
        using never_watched_no_weak [OF ok(1) alive(1) _ _ nonzero i] that weak vals writes
        by (auto simp: never_watched_def values_ok_def writes_strong_def)
      moreover have "counts_as k (ts ! i) (vs i) = strong_held (ts ! i)"
        using inside_strong [OF fronts [of i]] k by (auto simp: counts_as_def)
      ultimately have "never_watched m' \<Longrightarrow> counted k ?ts ?vs < unat (current (strong_cell m))"
        using gone [OF k(2)] counted_le_tally [of k ts vs] strong_value [OF ok(1) alive(1)] by linarith
      then show ?thesis using v nonzero by simp
    qed
    show ?thesis using below strict vals weak by (simp add: values_ok_def)
  qed
qed

text \<open>A thread passes handles to another; the fronts of neither go back.\<close>

lemma values_ok_pass:
  assumes vals: "values_ok ts vs m" and ij: "i < length ts" "j < length ts" "i \<noteq> j" and "weak_cell m \<noteq> []"
    and held: "strong_held a + strong_held b = strong_held (ts ! i) + strong_held (ts ! j)"
      "strong_held a \<le> strong_held (ts ! i)"
  shows "values_ok (ts[i := a, j := b]) (synchronised i j vs) m"
proof (rule values_ok_smaller [OF vals])
  fix k
  let ?v = "join_view (vs j) (vs i)"
  have vs: "synchronised i j vs = (vs(i := vs i))(j := ?v)" by (simp add: synchronised_def)
  have "counted k (ts[i := a]) (vs(i := vs i)) + counts_as k (ts ! i) (vs i) = counted k ts vs + counts_as k a (vs i)"
    by (rule counted_update [OF ij(1)])
  moreover have "counted k (ts[i := a, j := b]) ((vs(i := vs i))(j := ?v)) + counts_as k (ts ! j) (vs j) =
      counted k (ts[i := a]) (vs(i := vs i)) + counts_as k b ?v"
    using counted_update [of j "ts[i := a]" k b "vs(i := vs i)" ?v] ij by simp
  moreover have "counts_as k a (vs i) + counts_as k b ?v \<le> counts_as k (ts ! i) (vs i) + counts_as k (ts ! j) (vs j)"
    using held by (auto simp: counts_as_def)
  ultimately show "counted k (ts[i := a, j := b]) (synchronised i j vs) \<le> counted k ts vs" unfolding vs by linarith
qed (use assms(5) in simp_all)

lemma values_ok_sync:
  assumes "values_ok ts vs m" "weak_cell m \<noteq> []"
  shows "values_ok ts (synchronised i j vs) m"
proof (rule values_ok_smaller [OF assms(1)])
  fix k
  have "counts_as k (ts ! l) (synchronised i j vs l) \<le> counts_as k (ts ! l) (vs l)" for l
    by (auto simp: counts_as_def synchronised_def)
  then show "counted k ts (synchronised i j vs) \<le> counted k ts vs" by (simp add: counted_alt sum_mono)
qed (use assms(2) in simp_all)

lemma run_orders_values: "run_orders n ts vs m \<Longrightarrow> values_ok ts vs m"
proof (induction rule: run_orders.induct)
  case orders_start
  have "tally strong_held (new_threads n) = 1"
    using strong_value [OF start_ok] by (simp add: start_memory_def current_def)
  then have "counted 0 (new_threads n) start_views \<le> 1" using counted_le_tally by metis
  then show ?case by (simp add: values_ok_def start_memory_def)
next
  case (orders_step ts vs m i t' v' m')
  note ok = run_orders_ok [OF orders_step.hyps(1)]
  show ?case
    using run_orders_fronts [OF orders_step.hyps(1)] orders_ok_step [OF ok orders_step.hyps(2-4)]
    by (intro values_ok_step [OF ok _ orders_step.IH _ orders_step.hyps(3,4)]) (simp_all add: fronts_ok_def)
next
  case (orders_sync ts vs m i j)
  then show ?case
    using run_orders_fronts [OF orders_sync.hyps(1)] values_ok_sync by (simp add: fronts_ok_def cells_inside_def)
next
  case (orders_pass_strong ts vs m i j)
  then show ?case using run_orders_fronts [OF orders_pass_strong.hyps(1)]
    by (auto simp: fronts_ok_def cells_inside_def held_defs intro!: values_ok_pass)
next
  case (orders_pass_weak ts vs m i j)
  then show ?case using run_orders_fronts [OF orders_pass_weak.hyps(1)]
    by (auto simp: fronts_ok_def cells_inside_def held_defs intro!: values_ok_pass)
qed

section \<open>What \<open>use_count\<close> and \<open>expired\<close> say\<close>

lemma order_use_count_reads:
  "order_use_count k m v = (x, v') \<Longrightarrow> x = fst (strong_cell m ! k) \<and> seen v \<subseteq> seen v' \<and>
    seen (snd (strong_cell m ! k)) \<subseteq> seen v'"
  by (auto simp: load_defs)

lemma use_count_alone:
  assumes run: "run_orders n ts vs m" and i: "i < length ts" "0 < own_strong (ts ! i)"
    and k: "readable (Counter StrongCount) k (strong_cell m) (vs i)"
    and x: "order_use_count k m (vs i) = (x, v')" "x = 1" "never_watched m"
  shows "\<forall>j < length ts. j \<noteq> i \<longrightarrow> strong_held (ts ! j) = 0"
    and "\<forall>e < length (accesses m). accesses m ! e = On_target \<longrightarrow> e \<in> seen v'"
proof -
  note ok = run_orders_ok [OF run]
  have vals: "values_ok ts vs m" by (rule run_orders_values [OF run])
  have alive: "m_block_alive m" "m_target_alive m"
    using orders_counts(3) [OF ok i(1)] i(2) by (simp_all add: thread_safe_def)
  have counted: "1 \<le> counted k ts vs"
    using counted_ge [OF i(1), of k vs] i(2) k by (simp add: counts_as_def readable_def strong_held_def)
  have value_k: "fst (strong_cell m ! k) = 1" using order_use_count_reads [OF x(1)] x(2) by simp
  have "\<not> Suc k < length (strong_cell m)"
  proof
    assume "Suc k < length (strong_cell m)"
    then have "counted k ts vs < unat (1 :: size_t)" using vals x(3) value_k by (fastforce simp: values_ok_def)
    then show False using counted by simp
  qed
  then have last: "strong_cell m ! k = last (strong_cell m)"
    using k by (simp add: readable_def last_conv_nth) (metis Suc_lessI diff_Suc_1 last_conv_nth list.size(3) not_less_zero)
  then have one: "current (strong_cell m) = 1" using value_k by (simp add: current_def)
  then have tally: "tally strong_held ts = 1" using strong_value [OF ok alive(1)] by simp
  have held: "0 < strong_held (ts ! i)" using i(2) by (simp add: strong_held_def)
  show alone: "\<forall>j < length ts. j \<noteq> i \<longrightarrow> strong_held (ts ! j) = 0"
  proof (intro allI impI)
    fix j
    assume "j < length ts" "j \<noteq> i"
    then show "strong_held (ts ! j) = 0" using tally_two [OF i(1), of j strong_held] tally held by simp
  qed
  show "\<forall>e < length (accesses m). accesses m ! e = On_target \<longrightarrow> e \<in> seen v'"
  proof (intro allI impI)
    fix e
    assume "e < length (accesses m)" "accesses m ! e = On_target"
    then obtain j where j: "j < length ts" "target_hand (ts ! j) (vs j) m e"
      using ok alive(2) by (auto simp: orders_ok_def known_ok_def)
    have "0 < tally strong_held ts" using tally by simp
    then have "tally finalising ts = 0" using orders_counts(1) [OF ok] alive(1) by (auto simp: counts_ok_def)
    then have "finalising (ts ! j) = 0" using tally_pos [OF j(1), of finalising] by auto
    then have "j = i" if "keeps_target (ts ! j)"
      using alone j(1) that orders_counts(2) [OF ok j(1)]
      by (auto simp: keeps_target_def finalising_def thread_ok_def split: if_splits)
    then show "e \<in> seen v'"
      using j(2) order_use_count_reads [OF x(1)] last by (auto simp: target_hand_def carried_def)
  qed
qed

text \<open>C8: \<open>use_count\<close> of a handle, read while other threads copy, lock and release: it is never less than the number
  of strong handles the thread itself holds. If it is one and no weak handle was ever made, the handle
  is the only one: no other thread holds a strong reference, and every use of the target that any thread
  made happens before what the caller does next, so the caller may change the target.\<close>

theorem intrusive_use_count_unique:
  assumes "run_orders n ts vs m" "i < length ts" "0 < own_strong (ts ! i)"
    and "readable (Counter StrongCount) k (strong_cell m) (vs i)" "order_use_count k m (vs i) = (x, v')"
  shows "own_strong (ts ! i) \<le> unat x \<and>
    (x = 1 \<and> never_watched m \<longrightarrow> (\<forall>j < length ts. j \<noteq> i \<longrightarrow> strong_held (ts ! j) = 0) \<and>
      (\<forall>e < length (accesses m). accesses m ! e = On_target \<longrightarrow> e \<in> seen v'))"
proof -
  have "values_ok ts vs m" by (rule run_orders_values [OF assms(1)])
  then have "counted k ts vs \<le> unat x"
    using assms(4) order_use_count_reads [OF assms(5)] by (simp add: values_ok_def readable_def)
  then have "own_strong (ts ! i) \<le> unat x"
    using counted_ge [OF assms(2), of k vs] assms(4) by (simp add: counts_as_def readable_def strong_held_def)
  then show ?thesis using use_count_alone [OF assms] by blast
qed

theorem intrusive_use_count_unique_witness:
  "\<exists>v'. order_use_count 0 start_memory (start_views 0) = (1, v') \<and> {1} \<subseteq> seen v' \<and>
    strong_held (new_threads 2 ! 1) = 0 \<and> own_strong (new_threads 2 ! 0) \<le> 1"
proof -
  obtain v' where v': "order_use_count 0 start_memory (start_views 0) = (1, v')"
    by (simp add: load_defs start_memory_def)
  have pre: "0 < length (new_threads 2)" "0 < own_strong (new_threads 2 ! 0)"
    "readable (Counter StrongCount) 0 (strong_cell start_memory) (start_views 0)"
    by (simp_all add: new_threads_def readable_def start_memory_def start_views_def no_view_def)
  have "never_watched start_memory" "length (new_threads 2) = 3" "accesses start_memory = [On_block, On_target]"
    by (simp_all add: never_watched_def start_memory_def new_threads_def)
  then show ?thesis
    using intrusive_use_count_unique [OF orders_start pre v'] v' by (auto dest: spec [of _ "1 :: nat"])
qed

text \<open>C9: \<open>expired\<close> is never wrong when it says so, however old the value it read: if it returns true there is no
  strong reference to the target in any thread, and the count is zero.\<close>

theorem intrusive_expired_final:
  assumes "run_orders n ts vs m" "i < length ts" "0 < own_weak (ts ! i)"
    and "readable (Counter StrongCount) k (strong_cell m) (vs i)" "order_expired k m (vs i) = (True, v')"
  shows "current (strong_cell m) = 0 \<and> (\<forall>j < length ts. strong_held (ts ! j) = 0)"
proof -
  note ok = run_orders_ok [OF assms(1)]
  have vals: "values_ok ts vs m" by (rule run_orders_values [OF assms(1)])
  have alive: "m_block_alive m" using orders_counts(3) [OF ok assms(2)] assms(3) by (simp add: thread_safe_def)
  have value_k: "fst (strong_cell m ! k) = 0" using assms(5) by (simp add: load_defs)
  then have "\<not> Suc k < length (strong_cell m)" using vals by (auto simp: values_ok_def)
  then have "Suc k = length (strong_cell m)" using assms(4) by (simp add: readable_def)
  then have "strong_cell m ! k = last (strong_cell m)" by (metis diff_Suc_1 last_conv_nth list.size(3) nat.distinct(1))
  then have zero: "current (strong_cell m) = 0" using value_k by (simp add: current_def)
  then have "tally strong_held ts = 0" using strong_value [OF ok alive] by simp
  then show ?thesis using zero tally_pos [of _ ts strong_held] by fastforce
qed

lemma single_step:
  "run_orders n [t] vs m \<Longrightarrow> refs_fit [t] \<Longrightarrow> ostep t (vs 0) m t' v' m' \<Longrightarrow> run_orders n [t'] (vs(0 := v')) m'"
  using orders_step [of n "[t]" vs m 0 t' v' m'] by simp

text \<open>A thread makes a weak handle and releases its strong one.\<close>

definition watching :: "thread \<Rightarrow> bool" where
  "watching t \<longleftrightarrow> (\<exists>vs m. run_orders 0 [t] vs m \<and> front (vs 0) (Counter WeakCount) = 0 \<and> never_watched m \<and>
     current (strong_cell m) = 1)"

lemma watch_run: "\<exists>vs m. run_orders 0 [idle_thread\<lparr>own_weak := 1, pc_of := Strong_exchange\<rparr>] vs m \<and>
    current (strong_cell m) = 0"
proof -
  let ?one = "idle_thread\<lparr>own_strong := 1\<rparr>"
  have fit: "refs_fit [t]" if "own_strong t \<le> 1" "own_weak t \<le> 1" for t
    using that by (simp add: refs_fit_def tally_def)
  have "watching ?one"
    using orders_start [of 0]
    by (auto simp: watching_def new_threads_def start_memory_def current_def never_watched_def start_views_def
        no_view_def intro!: exI)
  then obtain vs m where 1: "run_orders 0 [?one] vs m" "front (vs 0) (Counter WeakCount) = 0" "never_watched m"
    "current (strong_cell m) = 1" by (auto simp: watching_def)
  have 2: "run_orders 0 [?one\<lparr>pc_of := Retain_load WeakCount\<rparr>] (vs(0 := touched m (vs 0))) (logged On_target m)"
    by (rule single_step [OF 1(1) fit o_begin_watch]) (simp_all add: idle_thread_def)
  let ?vs = "vs(0 := touched m (vs 0))" and ?m = "logged On_target m"
  have weak: "fst (hd (weak_cell m)) = 1" using run_orders_values [OF 1(1)] by (simp add: values_ok_def)
  then have x: "fst (weak_cell m ! 0) = 1" "current (weak_cell m) = 1"
    using 1(3) by (cases "weak_cell m"; auto simp: never_watched_def current_def)+
  have "readable (Counter WeakCount) 0 (counter WeakCount ?m) (?vs 0)"
    using 1(2,3) by (simp add: readable_def never_watched_def)
  moreover have "load_count memory_order_relaxed WeakCount 0 ?m (?vs 0) =
      (1, snd (load_count memory_order_relaxed WeakCount 0 ?m (?vs 0)))" using x by (simp add: load_defs)
  ultimately obtain vs3 where 3: "run_orders 0 [?one\<lparr>pc_of := Retain_cas WeakCount 1\<rparr>] vs3 (logged On_block ?m)"
    using single_step [OF 2 fit o_load] by (fastforce simp: idle_thread_def)
  have "current (counter WeakCount (logged On_block ?m)) = 1" using x by simp
  then obtain vs4 m4 where 4: "run_orders 0 [?one\<lparr>own_weak := 1\<rparr>] vs4 m4" "current (strong_cell m4) = 1"
    using single_step [OF 3 fit o_cas] 1(4) by (fastforce simp: idle_thread_def rmw_count_def u_max_def)
  obtain vs5 m5 where 5: "run_orders 0 [idle_thread\<lparr>own_weak := 1, pc_of := Strong_sub\<rparr>] vs5 m5"
    "current (strong_cell m5) = 1"
    using single_step [OF 4(1) fit o_begin_release] 4(2) by (fastforce simp: idle_thread_def)
  show ?thesis
    using single_step [OF 5(1) fit o_strong_sub] 5(2) by (fastforce simp: idle_thread_def rmw_count_def)
qed

theorem intrusive_expired_final_witness:
  "\<exists>vs m v'. order_expired (length (strong_cell m) - 1) m (vs (0 :: nat)) = (True, v') \<and> current (strong_cell m) = 0"
proof -
  obtain vs m where m: "run_orders 0 [idle_thread\<lparr>own_weak := 1, pc_of := Strong_exchange\<rparr>] vs m"
    "current (strong_cell m) = 0" using watch_run by blast
  let ?k = "length (strong_cell m) - 1"
  have "front (vs 0) (Counter StrongCount) < length (strong_cell m)"
    using run_orders_fronts [OF m(1)] by (auto simp: fronts_ok_def intro: inside_strong)
  then have k: "readable (Counter StrongCount) ?k (strong_cell m) (vs 0)" "strong_cell m \<noteq> []"
    by (auto simp: readable_def)
  then obtain v' where v': "order_expired ?k m (vs 0) = (True, v')"
    using m(2) by (simp add: load_defs current_def last_conv_nth)
  have "current (strong_cell m) = 0"
    using intrusive_expired_final [OF m(1) _ _ k(1) v'] by simp
  then show ?thesis using v' by blast
qed

end
