(* ===== verification/IntrusiveFinish.thy ===== *)
theory IntrusiveFinish
  imports IntrusiveFronts IntrusiveProgress
begin

text \<open>
  Progress of the operations of \<open>core/intrusive_ptr.h\<close> with the memory orders of the sources. A compare-exchange
  may fail although no thread changed the count: it may be weak, and the value it loads may be old. So an
  operation may retry for as long as the machine lets it; the theory shows that nothing else holds it up.
\<close>

section \<open>Runs in which no operation begins\<close>

text \<open>The step is a compare-exchange that fails.\<close>

fun retries :: "pc \<Rightarrow> pc \<Rightarrow> bool" where
  "retries (Retain_cas _ _) (Retain_cas _ _) \<longleftrightarrow> True"
| "retries (Lock_cas _) (Lock_cas _) \<longleftrightarrow> True"
| "retries _ _ \<longleftrightarrow> False"

text \<open>Threads finish what they have begun: \<open>k\<close> steps and \<open>f\<close> compare-exchanges that fail, in any order.\<close>

inductive quiet_orders ::
  "thread list \<Rightarrow> (nat \<Rightarrow> view) \<Rightarrow> order_memory \<Rightarrow> nat \<Rightarrow> nat \<Rightarrow> thread list \<Rightarrow> (nat \<Rightarrow> view) \<Rightarrow> order_memory \<Rightarrow> bool"
  for ts vs m where
  quiet_orders_start: "quiet_orders ts vs m 0 0 ts vs m"
| quiet_orders_step: "\<lbrakk>quiet_orders ts vs m k f us ws r; i < length us; pc_of (us ! i) \<noteq> Idle;
    ostep (us ! i) (ws i) r t' w' r'; b = retries (pc_of (us ! i)) (pc_of t')\<rbrakk> \<Longrightarrow>
    quiet_orders ts vs m (if b then k else Suc k) (if b then Suc f else f) (us[i := t']) (ws(i := w')) r'"

lemma gain_pc [simp]: "pc_of (gain c t\<lparr>pc_of := p\<rparr>) = p"
  by (cases c) simp_all

lemma ostep_advances:
  assumes "ostep t v m t' v' m'" "pc_of t \<noteq> Idle"
  shows "if retries (pc_of t) (pc_of t') then steps_left (pc_of t') = steps_left (pc_of t)
    else steps_left (pc_of t') < steps_left (pc_of t)"
  using assms by (cases rule: ostep.cases) auto

lemma ostep_may_own: "ostep t v m t' v' m' \<Longrightarrow> pc_of t \<noteq> Idle \<Longrightarrow> may_own t' \<le> may_own t"
proof (erule ostep.cases, goal_cases)
  case (10 t c x m v m' v')
  then show ?case by (cases c) (auto simp: may_own_def)
qed (auto simp: may_own_def)

text \<open>Room for the references that the operations in progress may still take.\<close>

definition room :: "thread list \<Rightarrow> bool" where
  "room ts \<longleftrightarrow> tally may_own ts + length ts < 2 ^ 61"

lemma room_left_room: "room_left ts \<Longrightarrow> room ts"
proof -
  assume r: "room_left ts"
  have "tally may_own ts \<le> tally (\<lambda>t. (own_strong t + own_weak t) + 1) ts"
    by (rule tally_mono) (simp add: may_own_def)
  then show "room ts" using r by (simp only: tally_add tally_const room_def room_left_def)
qed

lemma room_fit: "room ts \<Longrightarrow> refs_fit ts"
proof -
  assume r: "room ts"
  have "tally (\<lambda>t. own_strong t + own_weak t) ts \<le> tally may_own ts"
    by (rule tally_mono) (simp add: may_own_def)
  then show "refs_fit ts" using r by (simp only: tally_add refs_fit_def room_def)
qed

lemma room_step:
  assumes "room ts" "i < length ts" "ostep (ts ! i) v m t' v' m'" "pc_of (ts ! i) \<noteq> Idle"
  shows "room (ts[i := t'])"
  using assms(1) ostep_may_own [OF assms(3,4)] by (simp add: room_def tally_rest [OF assms(2)] tally_rest_update [OF assms(2)])

lemma quiet_orders_run:
  assumes "quiet_orders ts vs m k f us ws r" "run_orders n ts vs m" "room ts"
  shows "run_orders n us ws r \<and> room us \<and> length us = length ts"
  using assms
proof (induction rule: quiet_orders.induct)
  case (quiet_orders_step k f us ws r i t' w' r' b)
  then show ?case
    using orders_step [of n us ws r i t' w' r'] room_fit [of us] room_step [of us i "ws i" r t' w' r']
    by (simp del: fun_upd_apply)
qed simp

lemma quiet_orders_bound:
  "quiet_orders ts vs m k f us ws r \<Longrightarrow>
    k + tally (\<lambda>t. steps_left (pc_of t)) us \<le> tally (\<lambda>t. steps_left (pc_of t)) ts"
proof (induction rule: quiet_orders.induct)
  case (quiet_orders_step k f us ws r i t' w' r' b)
  note total = tally_rest [OF quiet_orders_step.hyps(2)] tally_rest_update [OF quiet_orders_step.hyps(2)]
  show ?case
    using quiet_orders_step.IH ostep_advances [OF quiet_orders_step.hyps(4,3)] quiet_orders_step.hyps(5)
    by (simp add: total split: if_splits)
qed simp

section \<open>An operation can always finish\<close>

text \<open>The steps a thread needs when it runs alone and reads the newest values.\<close>

fun expects_other :: "order_memory \<Rightarrow> pc \<Rightarrow> bool" where
  "expects_other m (Retain_cas c x) \<longleftrightarrow> x \<noteq> current (counter c m)"
| "expects_other m (Lock_cas x) \<longleftrightarrow> x \<noteq> current (strong_cell m)"
| "expects_other m _ \<longleftrightarrow> False"

definition alone_left :: "order_memory \<Rightarrow> thread \<Rightarrow> nat" where
  "alone_left m t = steps_left (pc_of t) + of_bool (expects_other m (pc_of t))"

lemma alone_left_le: "alone_left m t \<le> 5"
  by (cases "pc_of t") (simp_all add: alone_left_def)

text \<open>The newest value can be read.\<close>

lemma newest:
  assumes "inside m v" "cells_inside m"
  shows "readable (Counter c) (length (counter c m) - 1) (counter c m) v"
    "fst (counter c m ! (length (counter c m) - 1)) = current (counter c m)"
    "readable Target_pointer (length (target_cell m) - 1) (target_cell m) v"
proof -
  have "front v (Counter c) < length (counter c m)" "front v Target_pointer < length (target_cell m)"
    using assms(1) unfolding inside_def by (metis cell_length.simps)+
  moreover have "counter c m \<noteq> []" using calculation(1) by auto
  ultimately show "readable (Counter c) (length (counter c m) - 1) (counter c m) v"
    "fst (counter c m ! (length (counter c m) - 1)) = current (counter c m)"
    "readable Target_pointer (length (target_cell m) - 1) (target_cell m) v"
    by (auto simp: readable_def current_def last_conv_nth)
qed

lemma load_newest:
  assumes "inside m v" "cells_inside m"
  obtains v' where "load_count ord c (length (counter c m) - 1) m v = (current (counter c m), v')"
  using newest(2) [OF assms] by (auto simp: load_count_def)

text \<open>A thread in the middle of an operation has a step that brings it nearer to the end of it.\<close>

lemma nearer:
  "ostep t v m t' v' m' \<Longrightarrow> alone_left m' t' < alone_left m t \<Longrightarrow>
    \<exists>t' v' m'. ostep t v m t' v' m' \<and> alone_left m' t' < alone_left m t"
  by blast

lemma alone_retain_cas:
  assumes v: "inside m v" and cells: "cells_inside m" and Retain_cas: "pc_of t = Retain_cas c x" and x: "x \<noteq> u_max"
  shows "\<exists>t' v' m'. ostep t v m t' v' m' \<and> alone_left m' t' < alone_left m t"
proof (cases "x = current (counter c m)")
  case True
  obtain m' v' where got: "rmw_count memory_order_relaxed c (x + 1) m v = (m', v')"
    by (cases "rmw_count memory_order_relaxed c (x + 1) m v")
  show ?thesis by (rule nearer [OF o_cas [OF Retain_cas x True [symmetric] got]])
    (simp add: Retain_cas alone_left_def)
next
  case False
  obtain v' where got: "load_count memory_order_relaxed c (length (counter c m) - 1) m v = (current (counter c m), v')"
    by (rule load_newest [OF v cells])
  show ?thesis by (rule nearer [OF o_cas_fails [OF Retain_cas x newest(1) [OF v cells] got]])
    (simp add: Retain_cas False alone_left_def)
qed

lemma alone_lock_cas:
  assumes v: "inside m v" and cells: "cells_inside m" and Lock_cas: "pc_of t = Lock_cas x"
  shows "\<exists>t' v' m'. ostep t v m t' v' m' \<and> alone_left m' t' < alone_left m t"
proof -
  consider "x = 0" | "x \<noteq> 0" "x = current (strong_cell m)" | "x \<noteq> 0" "x \<noteq> current (strong_cell m)" by blast
  then show ?thesis
  proof cases
    case 1
    show ?thesis by (rule nearer [OF o_lock_expired [OF Lock_cas 1]]) (simp add: Lock_cas alone_left_def)
  next
    case 2
    obtain m' v' where got: "rmw_count memory_order_acq_rel StrongCount (x + 1) m v = (m', v')"
      by (cases "rmw_count memory_order_acq_rel StrongCount (x + 1) m v")
    show ?thesis by (rule nearer [OF o_lock_cas [OF Lock_cas 2(1) 2(2) [symmetric] got]])
      (simp add: Lock_cas alone_left_def)
  next
    case 3
    obtain v' where got: "load_count memory_order_acquire StrongCount (length (strong_cell m) - 1) m v =
        (current (strong_cell m), v')"
      using load_newest [OF v cells, of _ StrongCount] by auto
    show ?thesis by (rule nearer [OF o_lock_cas_fails [OF Lock_cas 3(1) newest(1) [OF v cells, of StrongCount, unfolded counter.simps] got]])
      (simp add: Lock_cas 3 alone_left_def)
  qed
qed

lemma alone_step:
  assumes v: "inside m v" and cells: "cells_inside m" and t: "thread_ok t" "pc_of t \<noteq> Idle"
  shows "\<exists>t' v' m'. ostep t v m t' v' m' \<and> alone_left m' t' < alone_left m t"
proof (cases "pc_of t")
  case (Retain_load c)
  obtain v' where got: "load_count memory_order_relaxed c (length (counter c m) - 1) m v = (current (counter c m), v')"
    by (rule load_newest [OF v cells])
  show ?thesis by (rule nearer [OF o_load [OF Retain_load newest(1) [OF v cells] got]])
    (simp add: Retain_load alone_left_def)
next
  case (Retain_cas c x)
  then have "x \<noteq> u_max" using t(1) by (cases c) (simp_all add: thread_ok_def)
  then show ?thesis by (rule alone_retain_cas [OF v cells Retain_cas])
next
  case Strong_sub
  obtain m' v' where got: "rmw_count memory_order_acq_rel StrongCount (current (strong_cell m) - 1) m v = (m', v')"
    by (cases "rmw_count memory_order_acq_rel StrongCount (current (strong_cell m) - 1) m v")
  show ?thesis by (rule nearer [OF o_strong_sub [OF Strong_sub refl got]]) (simp add: Strong_sub alone_left_def)
next
  case Strong_exchange
  show ?thesis by (rule nearer [OF o_strong_exchange [OF Strong_exchange]]) (simp add: Strong_exchange alone_left_def)
next
  case (Target_delete b)
  then have got: "pc_of t = Target_delete True" using t(1) by (simp add: thread_ok_def)
  show ?thesis by (rule nearer [OF o_delete_target [OF got]]) (simp add: Target_delete alone_left_def)
next
  case Weak_sub
  obtain m' v' where got: "rmw_count memory_order_acq_rel WeakCount (current (weak_cell m) - 1) m v = (m', v')"
    by (cases "rmw_count memory_order_acq_rel WeakCount (current (weak_cell m) - 1) m v")
  show ?thesis by (rule nearer [OF o_weak_sub [OF Weak_sub refl got]]) (simp add: Weak_sub alone_left_def)
next
  case Block_delete
  show ?thesis by (rule nearer [OF o_delete_block [OF Block_delete]]) (simp add: Block_delete alone_left_def)
next
  case Lock_load
  obtain v' where got: "load_count memory_order_acquire StrongCount (length (strong_cell m) - 1) m v =
      (current (strong_cell m), v')"
    using load_newest [OF v cells, of _ StrongCount] by auto
  show ?thesis by (rule nearer [OF o_lock_load [OF Lock_load newest(1) [OF v cells, of StrongCount, unfolded counter.simps] got]])
    (simp add: Lock_load alone_left_def)
next
  case (Lock_cas x)
  then show ?thesis by (rule alone_lock_cas [OF v cells])
next
  case Lock_target
  show ?thesis by (rule nearer [OF o_lock_target [OF Lock_target newest(3) [OF v cells]]])
    (simp add: Lock_target alone_left_def)
qed (use t in \<open>simp_all add: thread_ok_def\<close>)

text \<open>One thread finishes while the others stand still.\<close>

lemma finish_alone:
  assumes "quiet_orders ts vs m k f us ws r" "run_orders n us ws r" "room us" "i < length us" "alone_left r (us ! i) \<le> j"
  shows "\<exists>k' f' t' ws' r'. quiet_orders ts vs m k' f' (us[i := t']) ws' r' \<and> k' + f' \<le> k + f + j \<and> pc_of t' = Idle"
  using assms
proof (induction j arbitrary: k f us ws r)
  case (0 k f us ws r)
  have "thread_ok (us ! i)" using orders_counts(2) [OF run_orders_ok [OF 0(2)] 0(4)] .
  then have "pc_of (us ! i) = Idle"
    using 0(5) by (cases "pc_of (us ! i)") (simp_all add: alone_left_def thread_ok_def)
  then show ?case using 0(1) by (metis list_update_id add_0_right order_refl)
next
  case (Suc j k f us ws r)
  show ?case
  proof (cases "pc_of (us ! i) = Idle")
    case True
    then show ?thesis using Suc.prems(1) by (metis list_update_id le_add1)
  next
    case False
    have "inside r (ws i)" "cells_inside r" using run_orders_fronts [OF Suc.prems(2)] by (simp_all add: fronts_ok_def)
    then obtain t1 w1 r1 where step: "ostep (us ! i) (ws i) r t1 w1 r1" "alone_left r1 t1 < alone_left r (us ! i)"
      using alone_step orders_counts(2) [OF run_orders_ok [OF Suc.prems(2)] Suc.prems(4)] False by blast
    let ?b = "retries (pc_of (us ! i)) (pc_of t1)"
    note quiet = quiet_orders_step [OF Suc.prems(1,4) False step(1) refl]
    have run: "run_orders n (us[i := t1]) (ws(i := w1)) r1"
      by (rule orders_step [OF Suc.prems(2) room_fit [OF Suc.prems(3)] Suc.prems(4) step(1)])
    have room: "room (us[i := t1])" by (rule room_step [OF Suc.prems(3,4) step(1) False])
    have "alone_left r1 (us[i := t1] ! i) \<le> j" "i < length (us[i := t1])"
      using step(2) Suc.prems(4,5) by simp_all
    from Suc.IH [OF quiet run room this(2,1)] obtain k' f' t' ws' r' where
      fin: "quiet_orders ts vs m k' f' (us[i := t']) ws' r'" "pc_of t' = Idle"
        "k' + f' \<le> (if ?b then k else Suc k) + (if ?b then Suc f else f) + j" by auto
    then have "k' + f' \<le> k + f + Suc j" by (simp split: if_splits)
    then show ?thesis using fin by blast
  qed
qed

text \<open>The first \<open>l\<close> threads finish, one after the other.\<close>

lemma finish_some:
  assumes "run_orders n ts vs m" "room ts" "l \<le> length ts"
  shows "\<exists>k f us ws r. quiet_orders ts vs m k f us ws r \<and> k + f \<le> 5 * l \<and> (\<forall>i < l. pc_of (us ! i) = Idle)"
  using assms(3)
proof (induction l)
  case 0
  show ?case using quiet_orders_start by fastforce
next
  case (Suc l)
  then obtain k f us ws r where q: "quiet_orders ts vs m k f us ws r" "k + f \<le> 5 * l" "\<forall>i < l. pc_of (us ! i) = Idle"
    by auto
  have run: "run_orders n us ws r" "room us" "l < length us" using quiet_orders_run [OF q(1) assms(1,2)] Suc.prems by auto
  from finish_alone [OF q(1) run alone_left_le] obtain k' f' t' ws' r' where
    fin: "quiet_orders ts vs m k' f' (us[l := t']) ws' r'" "k' + f' \<le> k + f + 5" "pc_of t' = Idle" by blast
  moreover have "\<forall>i < Suc l. pc_of (us[l := t'] ! i) = Idle"
    using q(3) fin(3) run(3) by (auto simp: nth_list_update less_Suc_eq)
  moreover have "k' + f' \<le> 5 * Suc l" using fin(2) q(2) by simp
  ultimately show ?case by blast
qed

text \<open>C12: Progress with the memory orders of the sources. Once no thread begins a new operation, a run of \<open>N\<close>
  threads has at most \<open>5 * N\<close> steps besides compare-exchanges that fail, so only these can make an
  operation go on; and wherever the run has got to, and whatever old values the threads have read, at
  most \<open>5 * N\<close> more steps end every operation: no thread waits for another, no failed attempt leaves
  the counts in a state that cannot be left, and no operation aborts.\<close>

theorem intrusive_orders_finish:
  assumes "run_orders n ts vs m" "room_left ts" "quiet_orders ts vs m k f us ws r"
  shows "k \<le> 5 * length ts \<and> run_orders n us ws r \<and>
    (\<exists>k' f' us' ws' r'. quiet_orders us ws r k' f' us' ws' r' \<and> k' + f' \<le> 5 * length ts \<and>
      run_orders n us' ws' r' \<and> list_all (\<lambda>t. pc_of t = Idle) us')"
proof -
  note room = room_left_room [OF assms(2)]
  have us: "run_orders n us ws r" "room us" "length us = length ts"
    using quiet_orders_run [OF assms(3,1) room] by simp_all
  have "tally (\<lambda>t. steps_left (pc_of t)) ts \<le> 5 * length ts" by (rule tally_le_length [OF steps_left_le])
  then have "k \<le> 5 * length ts" using quiet_orders_bound [OF assms(3)] by linarith
  moreover obtain k' f' us' ws' r' where fin: "quiet_orders us ws r k' f' us' ws' r'" "k' + f' \<le> 5 * length us"
    "\<forall>i < length us. pc_of (us' ! i) = Idle" using finish_some [OF us(1,2) order_refl] by blast
  moreover have "run_orders n us' ws' r' \<and> length us' = length us" using quiet_orders_run [OF fin(1) us(1,2)] by simp
  ultimately show ?thesis using us(1,3) unfolding list_all_length by metis
qed

text \<open>A thread that has begun to release the only handle finishes.\<close>

theorem intrusive_orders_finish_witness:
  "\<exists>vs m k f us ws r. quiet_orders [idle_thread\<lparr>pc_of := Strong_sub\<rparr>] vs m k f us ws r \<and> k + f \<le> 5 \<and>
    list_all (\<lambda>t. pc_of t = Idle) us"
proof -
  let ?t = "idle_thread\<lparr>own_strong := 1\<rparr>"
  have "refs_fit [?t]" by (simp add: refs_fit_def tally_def idle_thread_def)
  then have run: "run_orders 0 [?t\<lparr>own_strong := own_strong ?t - 1, pc_of := Strong_sub\<rparr>]
      (start_views(0 := touched start_memory (start_views 0))) (logged On_target start_memory)"
    using orders_step [OF orders_start [of 0] _ _ o_begin_release, of 0] by (simp add: new_threads_def idle_thread_def)
  have "room_left [?t\<lparr>own_strong := own_strong ?t - 1, pc_of := Strong_sub\<rparr>]"
    by (simp add: room_left_def tally_def idle_thread_def)
  note fin = intrusive_orders_finish [OF run this quiet_orders_start]
  have "[?t\<lparr>own_strong := own_strong ?t - 1, pc_of := Strong_sub\<rparr>] = [idle_thread\<lparr>pc_of := Strong_sub\<rparr>]"
    by (simp add: idle_thread_def)
  from fin [unfolded this] obtain vs m k' f' us' ws' r' where
    "quiet_orders [idle_thread\<lparr>pc_of := Strong_sub\<rparr>] vs m k' f' us' ws' r'" "k' + f' \<le> 5"
    "list_all (\<lambda>t. pc_of t = Idle) us'" by auto
  then show ?thesis by (intro exI conjI)
qed

end
