(* ===== verification/DataPtrs.thy ===== *)
theory DataPtrs
  imports Devices "HOL-Library.Multiset"
begin

text \<open>
  \<open>core/data_ptr.h\<close>: the unique owner of an allocation, and the proof that an allocation is given to its
  deleter exactly once whatever moves, swaps and resets happen to its owners.
\<close>

section \<open>Allocations and owners\<close>

text \<open>Pointers are 64-bit words and \<open>nullptr\<close> is 0.\<close>

record Allocation =
  al_data :: addr
  al_bytes :: size_t
  al_device :: Device

definition default_device :: Device where
  "default_device = \<lparr>dev_type = kCPU, dev_index = kDefaultDeviceIndex\<rparr>"

definition Allocation_default :: Allocation where
  "Allocation_default = \<lparr>al_data = 0, al_bytes = 0, al_device = default_device\<rparr>"

text \<open>
  A \<open>Deleter\<close> is a pointer to a function: the one the sources define, or one of the client's.
\<close>

datatype Deleter = Free_cpu_memory | Client_deleter addr

record DataPtr =
  allocation :: Allocation
  context_ptr :: addr
  deleter :: "Deleter option"

definition DataPtr_default :: DataPtr where
  "DataPtr_default = \<lparr>allocation = Allocation_default, context_ptr = 0, deleter = None\<rparr>"

definition DataPtr_ctor :: "Allocation \<Rightarrow> addr \<Rightarrow> Deleter option \<Rightarrow> DataPtr" where
  "DataPtr_ctor alloc ctx del = \<lparr>allocation = alloc, context_ptr = ctx, deleter = del\<rparr>"

definition dp_data :: "DataPtr \<Rightarrow> addr" where
  "dp_data p = al_data (allocation p)"

definition dp_bytes :: "DataPtr \<Rightarrow> size_t" where
  "dp_bytes p = al_bytes (allocation p)"

definition dp_device :: "DataPtr \<Rightarrow> Device" where
  "dp_device p = al_device (allocation p)"

definition dp_bool :: "DataPtr \<Rightarrow> bool" where
  "dp_bool p \<longleftrightarrow> al_data (allocation p) \<noteq> 0"

section \<open>The operations\<close>

text \<open>
  The owners that are alive, by address, and the calls of deleters in the order they were made: the
  deleter, the data and the context it was given.
\<close>

type_synonym deletion = "Deleter \<times> addr \<times> addr"

record owners =
  ptrs :: "nat \<rightharpoonup> DataPtr"
  deletions :: "deletion list"

definition no_owners :: owners where
  "no_owners = \<lparr>ptrs = Map.empty, deletions = []\<rparr>"

definition ptr_at :: "nat \<Rightarrow> owners \<Rightarrow> DataPtr outcome" where
  "ptr_at a s = (case ptrs s a of None \<Rightarrow> Undefined | Some p \<Rightarrow> Returns p)"

definition put_ptr :: "nat \<Rightarrow> DataPtr \<Rightarrow> owners \<Rightarrow> owners" where
  "put_ptr a p s = s\<lparr>ptrs := (ptrs s)(a \<mapsto> p)\<rparr>"

definition call_deleter :: "Deleter \<Rightarrow> addr \<Rightarrow> addr \<Rightarrow> owners \<Rightarrow> owners" where
  "call_deleter d mem ctx s = s\<lparr>deletions := deletions s @ [(d, mem, ctx)]\<rparr>"

definition dp_ctor :: "nat \<Rightarrow> owners \<Rightarrow> owners outcome" where
  "dp_ctor a s = Returns (put_ptr a DataPtr_default s)"

definition dp_ctor_from :: "nat \<Rightarrow> Allocation \<Rightarrow> addr \<Rightarrow> Deleter option \<Rightarrow> owners \<Rightarrow> owners outcome" where
  "dp_ctor_from a alloc ctx del s = Returns (put_ptr a (DataPtr_ctor alloc ctx del) s)"

definition dp_move_ctor :: "nat \<Rightarrow> nat \<Rightarrow> owners \<Rightarrow> owners outcome" where
  "dp_move_ctor a other s =
     bnd (ptr_at other s) (\<lambda>p. Returns (put_ptr a p (put_ptr other DataPtr_default s)))"

definition dp_reset :: "nat \<Rightarrow> owners \<Rightarrow> owners outcome" where
  "dp_reset a s =
     bnd (ptr_at a s) (\<lambda>p.
       let s' = (case deleter p of
                   Some d \<Rightarrow> if al_data (allocation p) \<noteq> 0
                             then call_deleter d (al_data (allocation p)) (context_ptr p) s else s
                 | None \<Rightarrow> s)
       in Returns (put_ptr a \<lparr>allocation = Allocation_default, context_ptr = 0, deleter = None\<rparr> s'))"

definition dp_dtor :: "nat \<Rightarrow> owners \<Rightarrow> owners outcome" where
  "dp_dtor a s = bnd (dp_reset a s) (\<lambda>s'. Returns (s'\<lparr>ptrs := (ptrs s')(a := None)\<rparr>))"

definition dp_move_assign :: "nat \<Rightarrow> nat \<Rightarrow> owners \<Rightarrow> owners outcome" where
  "dp_move_assign this other s =
     (if this \<noteq> other
      then bnd (dp_reset this s) (\<lambda>s1. bnd (ptr_at other s1) (\<lambda>p.
             Returns (put_ptr this p (put_ptr other DataPtr_default s1))))
      else Returns s)"

definition dp_swap :: "nat \<Rightarrow> nat \<Rightarrow> owners \<Rightarrow> owners outcome" where
  "dp_swap a other s =
     bnd (ptr_at a s) (\<lambda>p. bnd (ptr_at other s) (\<lambda>q. Returns (put_ptr other p (put_ptr a q s))))"

text \<open>The function of the namespace.\<close>

definition swap_data_ptrs :: "nat \<Rightarrow> nat \<Rightarrow> owners \<Rightarrow> owners outcome" where
  "swap_data_ptrs lhs rhs s = dp_swap lhs rhs s"

lemma swap_data_ptrs_twice: "swap_data_ptrs a b s = Returns s' \<Longrightarrow> swap_data_ptrs a b s' = Returns s"
  by (auto simp: swap_data_ptrs_def dp_swap_def ptr_at_def put_ptr_def bnd_eq_Returns fun_eq_iff
      intro!: owners.equality split: option.splits)

section \<open>What is owned\<close>

text \<open>The deletion an owner still has to make.\<close>

definition pending_of :: "DataPtr \<Rightarrow> deletion multiset" where
  "pending_of p = (case deleter p of
     Some d \<Rightarrow> if dp_bool p then {#(d, dp_data p, context_ptr p)#} else {#} | None \<Rightarrow> {#})"

definition pending :: "owners \<Rightarrow> deletion multiset" where
  "pending s = (\<Sum>a \<in> dom (ptrs s). pending_of (the (ptrs s a)))"

text \<open>All deletions that are made or still to be made.\<close>

definition obligations :: "owners \<Rightarrow> deletion multiset" where
  "obligations s = mset (deletions s) + pending s"

lemma pending_default [simp]: "pending_of DataPtr_default = {#}"
  by (simp add: pending_of_def DataPtr_default_def)

lemma DataPtr_default_eq: "\<lparr>allocation = Allocation_default, context_ptr = 0, deleter = None\<rparr> = DataPtr_default"
  by (simp add: DataPtr_default_def)

definition pending_at :: "nat \<Rightarrow> owners \<Rightarrow> deletion multiset" where
  "pending_at a s = (case ptrs s a of None \<Rightarrow> {#} | Some p \<Rightarrow> pending_of p)"

lemma pending_split:
  assumes "finite (dom (ptrs s))"
  shows "pending s = pending_at a s + (\<Sum>x \<in> dom (ptrs s) - {a}. pending_of (the (ptrs s x)))"
proof (cases "ptrs s a")
  case None
  then have "dom (ptrs s) - {a} = dom (ptrs s)" by auto
  then show ?thesis using None by (simp add: pending_def pending_at_def)
next
  case (Some p)
  then have "a \<in> dom (ptrs s)" by auto
  then show ?thesis
    using Some sum.remove [OF assms, where g = "\<lambda>x. pending_of (the (ptrs s x))"]
    by (simp add: pending_def pending_at_def)
qed

lemma pending_put:
  assumes "finite (dom (ptrs s))"
  shows "pending (put_ptr a p s) + pending_at a s = pending s + pending_of p"
proof -
  have "pending (put_ptr a p s) = pending_of p + (\<Sum>x \<in> dom (ptrs s) - {a}. pending_of (the (ptrs s x)))"
    using assms by (simp add: pending_def put_ptr_def sum.insert_remove)
  then show ?thesis using pending_split [OF assms, of a] by simp
qed

lemma pending_remove:
  assumes "finite (dom (ptrs s))"
  shows "pending (s\<lparr>ptrs := (ptrs s)(a := None)\<rparr>) + pending_at a s = pending s"
proof -
  have "pending (s\<lparr>ptrs := (ptrs s)(a := None)\<rparr>) =
      (\<Sum>x \<in> dom (ptrs s) - {a}. pending_of (the (ptrs s x)))"
    by (auto simp: pending_def intro!: sum.cong)
  then show ?thesis using pending_split [OF assms, of a] by simp
qed

lemma put_ptr_simps [simp]:
  "ptrs (put_ptr a p s) = (ptrs s)(a \<mapsto> p)" "deletions (put_ptr a p s) = deletions s"
  "ptrs (call_deleter d x c s) = ptrs s" "deletions (call_deleter d x c s) = deletions s @ [(d, x, c)]"
  by (simp_all add: put_ptr_def call_deleter_def)

lemma pending_call [simp]: "pending (call_deleter d x c s) = pending s"
  by (simp add: pending_def)

section \<open>The operations keep the obligations\<close>

text \<open>The deletion a reset makes.\<close>

definition deletion_of :: "DataPtr \<Rightarrow> deletion list" where
  "deletion_of p = (case deleter p of
     Some d \<Rightarrow> if dp_bool p then [(d, dp_data p, context_ptr p)] else [] | None \<Rightarrow> [])"

lemma mset_deletion_of [simp]: "mset (deletion_of p) = pending_of p"
  by (simp add: deletion_of_def pending_of_def split: option.splits)

lemma dp_reset_is:
  assumes "ptrs s a = Some p"
  shows "dp_reset a s = Returns
    (put_ptr a DataPtr_default (s\<lparr>deletions := deletions s @ deletion_of p\<rparr>))"
  using assms
  by (cases "deleter p") (auto simp: dp_reset_def ptr_at_def deletion_of_def DataPtr_default_eq dp_bool_def
      dp_data_def call_deleter_def)

lemma dp_reset_obligations:
  assumes "finite (dom (ptrs s))" "ptrs s a = Some p"
  shows "obligations (put_ptr a DataPtr_default (s\<lparr>deletions := deletions s @ deletion_of p\<rparr>)) = obligations s"
proof -
  let ?s = "s\<lparr>deletions := deletions s @ deletion_of p\<rparr>"
  have "pending (put_ptr a DataPtr_default ?s) + pending_of p = pending s"
    using pending_put [of ?s a DataPtr_default] assms by (simp add: pending_at_def pending_def)
  then show ?thesis by (simp add: obligations_def ac_simps flip: add.assoc)
qed

lemma obligations_put_fresh:
  assumes "finite (dom (ptrs s))" "ptrs s a = None"
  shows "obligations (put_ptr a p s) = obligations s + pending_of p"
  using pending_put [OF assms(1), of a p] assms(2) by (simp add: obligations_def pending_at_def)

lemma obligations_take:
  assumes "finite (dom (ptrs s))" "ptrs s a = Some q" "ptrs s other = Some p" "a \<noteq> other"
  shows "obligations (put_ptr a p (put_ptr other DataPtr_default s)) + pending_of q = obligations s"
proof -
  have "pending (put_ptr other DataPtr_default s) + pending_of p = pending s"
    using pending_put [OF assms(1), of other DataPtr_default] assms(3) by (simp add: pending_at_def)
  moreover have "pending (put_ptr a p (put_ptr other DataPtr_default s)) + pending_of q =
      pending (put_ptr other DataPtr_default s) + pending_of p"
    using pending_put [of "put_ptr other DataPtr_default s" a p] assms by (simp add: pending_at_def)
  ultimately show ?thesis by (simp add: obligations_def ac_simps)
qed

section \<open>Programs\<close>

datatype dp_call =
    Dp_ctor nat
  | Dp_ctor_from nat Allocation addr "Deleter option"
  | Dp_move_ctor nat nat
  | Dp_reset nat
  | Dp_dtor nat
  | Dp_move_assign nat nat
  | Dp_swap nat nat

fun run_dp :: "dp_call \<Rightarrow> owners \<Rightarrow> owners outcome" where
  "run_dp (Dp_ctor a) s = dp_ctor a s"
| "run_dp (Dp_ctor_from a alloc ctx del) s = dp_ctor_from a alloc ctx del s"
| "run_dp (Dp_move_ctor a other) s = dp_move_ctor a other s"
| "run_dp (Dp_reset a) s = dp_reset a s"
| "run_dp (Dp_dtor a) s = dp_dtor a s"
| "run_dp (Dp_move_assign this other) s = dp_move_assign this other s"
| "run_dp (Dp_swap a other) s = dp_swap a other s"

text \<open>Constructors run where no owner is alive, all else on owners that are.\<close>

fun dp_allowed :: "dp_call \<Rightarrow> owners \<Rightarrow> bool" where
  "dp_allowed (Dp_ctor a) s \<longleftrightarrow> ptrs s a = None"
| "dp_allowed (Dp_ctor_from a alloc ctx del) s \<longleftrightarrow> ptrs s a = None"
| "dp_allowed (Dp_move_ctor a other) s \<longleftrightarrow> ptrs s a = None \<and> ptrs s other \<noteq> None"
| "dp_allowed (Dp_reset a) s \<longleftrightarrow> ptrs s a \<noteq> None"
| "dp_allowed (Dp_dtor a) s \<longleftrightarrow> ptrs s a \<noteq> None"
| "dp_allowed (Dp_move_assign this other) s \<longleftrightarrow> ptrs s this \<noteq> None \<and> ptrs s other \<noteq> None"
| "dp_allowed (Dp_swap a other) s \<longleftrightarrow> ptrs s a \<noteq> None \<and> ptrs s other \<noteq> None"

text \<open>The deletion a constructor takes over.\<close>

fun acquired :: "dp_call \<Rightarrow> deletion multiset" where
  "acquired (Dp_ctor_from a alloc ctx del) = pending_of (DataPtr_ctor alloc ctx del)"
| "acquired _ = {#}"

inductive dp_run :: "dp_call list \<Rightarrow> owners \<Rightarrow> bool" where
  dp_start: "dp_run [] no_owners"
| dp_step: "dp_run cs s \<Longrightarrow> dp_allowed c s \<Longrightarrow> run_dp c s = Returns s' \<Longrightarrow> dp_run (cs @ [c]) s'"

lemma swap_obligations:
  assumes fin: "finite (dom (ptrs s))" and p: "ptrs s a = Some p" and q: "ptrs s other = Some q"
  shows "obligations (put_ptr other p (put_ptr a q s)) = obligations s"
proof (cases "a = other")
  case True
  then have "put_ptr other p (put_ptr a q s) = s" using p q by (simp add: put_ptr_def fun_upd_idem)
  then show ?thesis by simp
next
  case False
  have "pending (put_ptr a q s) + pending_of p = pending s + pending_of q"
    using pending_put [OF fin, of a q] p by (simp add: pending_at_def)
  moreover have "pending (put_ptr other p (put_ptr a q s)) + pending_of q =
      pending (put_ptr a q s) + pending_of p"
    using pending_put [of "put_ptr a q s" other p] fin q False by (simp add: pending_at_def)
  ultimately have "pending (put_ptr other p (put_ptr a q s)) = pending s"
    by (metis add_right_cancel)
  then show ?thesis by (simp add: obligations_def)
qed

lemma run_dp_ok:
  assumes fin: "finite (dom (ptrs s))" and "dp_allowed c s"
  shows "\<exists>s'. run_dp c s = Returns s' \<and> finite (dom (ptrs s')) \<and> obligations s' = obligations s + acquired c"
proof (cases c)
  case (Dp_ctor a)
  then show ?thesis using assms by (simp add: dp_ctor_def obligations_put_fresh)
next
  case (Dp_ctor_from a alloc ctx del)
  then show ?thesis using assms by (simp add: dp_ctor_from_def obligations_put_fresh)
next
  case (Dp_move_ctor a other)
  then obtain p where p: "ptrs s other = Some p" "ptrs s a = None" using assms by auto
  then have "pending (put_ptr other DataPtr_default s) + pending_of p = pending s"
    using pending_put [OF fin, of other DataPtr_default] by (simp add: pending_at_def)
  moreover have "pending (put_ptr a p (put_ptr other DataPtr_default s)) =
      pending (put_ptr other DataPtr_default s) + pending_of p"
    using pending_put [of "put_ptr other DataPtr_default s" a p] p fin
    by (cases "a = other") (simp_all add: pending_at_def)
  ultimately show ?thesis using Dp_move_ctor p fin
    by (simp add: dp_move_ctor_def ptr_at_def obligations_def)
next
  case (Dp_reset a)
  then obtain p where "ptrs s a = Some p" using assms by auto
  then show ?thesis using Dp_reset fin dp_reset_obligations [OF fin] by (simp add: dp_reset_is)
next
  case (Dp_dtor a)
  then obtain p where p: "ptrs s a = Some p" using assms by auto
  let ?s = "put_ptr a DataPtr_default (s\<lparr>deletions := deletions s @ deletion_of p\<rparr>)"
  have "pending (?s\<lparr>ptrs := (ptrs ?s)(a := None)\<rparr>) = pending ?s"
    using pending_remove [of ?s a] fin by (simp add: pending_at_def)
  then have "obligations (?s\<lparr>ptrs := (ptrs ?s)(a := None)\<rparr>) = obligations s"
    using dp_reset_obligations [OF fin p] by (simp add: obligations_def)
  then show ?thesis using Dp_dtor p fin by (simp add: dp_dtor_def dp_reset_is)
next
  case (Dp_move_assign this other)
  then obtain p q where p: "ptrs s this = Some q" "ptrs s other = Some p" using assms by auto
  show ?thesis
  proof (cases "this = other")
    case True
    then show ?thesis using Dp_move_assign fin by (simp add: dp_move_assign_def)
  next
    case False
    let ?s = "put_ptr this DataPtr_default (s\<lparr>deletions := deletions s @ deletion_of q\<rparr>)"
    have "obligations (put_ptr this p (put_ptr other DataPtr_default ?s)) + pending_of DataPtr_default =
        obligations ?s"
      using fin p False by (intro obligations_take) simp_all
    then show ?thesis
      using Dp_move_assign False p fin dp_reset_obligations [OF fin p(1)]
      by (simp add: dp_move_assign_def dp_reset_is ptr_at_def)
  qed
next
  case (Dp_swap a other)
  then obtain p q where p: "ptrs s a = Some p" "ptrs s other = Some q" using assms by auto
  then show ?thesis using Dp_swap fin swap_obligations [OF fin p]
    by (simp add: dp_swap_def ptr_at_def)
qed

lemma dp_run_obligations:
  "dp_run cs s \<Longrightarrow> finite (dom (ptrs s)) \<and> obligations s = sum_list (map acquired cs)"
proof (induction rule: dp_run.induct)
  case dp_start
  show ?case by (simp add: no_owners_def obligations_def pending_def)
next
  case (dp_step cs s c s')
  then show ?case using run_dp_ok [of s c] by auto
qed

text \<open>C18: Whatever is done with the owners (moves, self-moves, swaps, resets, destruction), the calls of
  deleters that were made together with those the live owners still have to make are exactly the
  allocations that were handed to owners with a deleter: none is deleted twice, none is lost. Once
  no owner is alive each was deleted exactly once, with its own data and context. No call on live
  owners is undefined.\<close>

theorem data_ptr_exactly_once:
  assumes "dp_run cs s"
  shows "mset (deletions s) + pending s = (\<Sum>c \<leftarrow> cs. acquired c) \<and>
    (ptrs s = Map.empty \<longrightarrow> mset (deletions s) = (\<Sum>c \<leftarrow> cs. acquired c)) \<and>
    (dp_allowed c s \<longrightarrow> (\<exists>s'. run_dp c s = Returns s'))"
proof -
  have "mset (deletions s) + pending s = (\<Sum>c \<leftarrow> cs. acquired c)"
    using dp_run_obligations [OF assms] by (simp add: obligations_def)
  moreover have "ptrs s = Map.empty \<Longrightarrow> pending s = {#}" by (simp add: pending_def)
  ultimately show ?thesis using run_dp_ok dp_run_obligations [OF assms] by auto
qed

abbreviation "example_alloc \<equiv> \<lparr>al_data = 4096, al_bytes = 64, al_device = default_device\<rparr>"

definition example_calls :: "dp_call list" where
  "example_calls = [Dp_ctor_from 0 example_alloc 7 (Some (Client_deleter 9)), Dp_ctor 1,
     Dp_move_assign 1 0, Dp_dtor 0, Dp_dtor 1]"

definition example_end :: owners where
  "example_end = \<lparr>ptrs = Map.empty, deletions = [(Client_deleter 9, 4096, 7)]\<rparr>"

lemma dp_stepI: "dp_run cs s \<Longrightarrow> dp_allowed c s \<Longrightarrow> run_dp c s = Returns s' \<Longrightarrow> ds = cs @ [c] \<Longrightarrow> dp_run ds s'"
  using dp_step by simp

lemma example_run: "dp_run example_calls example_end"
proof -
  let ?p = "DataPtr_ctor example_alloc 7 (Some (Client_deleter 9))"
  let ?s1 = "put_ptr 0 ?p no_owners"
  let ?s2 = "put_ptr 1 DataPtr_default ?s1"
  let ?s3 = "put_ptr 1 ?p (put_ptr 0 DataPtr_default (put_ptr 1 DataPtr_default ?s2))"
  note defs = no_owners_def dp_ctor_from_def dp_ctor_def dp_move_assign_def dp_dtor_def dp_reset_is
    ptr_at_def deletion_of_def DataPtr_default_def
  have 1: "dp_run [Dp_ctor_from 0 example_alloc 7 (Some (Client_deleter 9))] ?s1"
    by (rule dp_stepI [OF dp_start]) (simp_all add: defs)
  have 2: "dp_run (take 2 example_calls) ?s2"
    by (rule dp_stepI [OF 1, of "Dp_ctor 1"]) (simp_all add: defs example_calls_def)
  have 3: "dp_run (take 3 example_calls) ?s3"
    by (rule dp_stepI [OF 2, of "Dp_move_assign 1 0"]) (simp_all add: defs example_calls_def)
  have 4: "dp_run (take 4 example_calls) (?s3\<lparr>ptrs := (ptrs ?s3)(0 := None)\<rparr>)"
    by (rule dp_stepI [OF 3, of "Dp_dtor 0"])
      (simp_all add: defs example_calls_def put_ptr_def fun_upd_twist)
  show ?thesis
    by (rule dp_stepI [OF 4, of "Dp_dtor 1"])
      (simp_all add: defs example_calls_def put_ptr_def example_end_def DataPtr_ctor_def dp_bool_def
        dp_data_def fun_upd_twist)
qed

theorem data_ptr_exactly_once_witness:
  "mset (deletions example_end) = (\<Sum>c \<leftarrow> example_calls. acquired c)"
  using data_ptr_exactly_once [OF example_run] by (simp add: example_end_def)

text \<open>The move operations transfer ownership: the target of the move has what the source had, the
  source is empty, and what the target had before is given to its deleter, once and first. A
  self-assignment does nothing.\<close>

theorem data_ptr_move:
  assumes "ptrs s this = Some q" "ptrs s other = Some p" "this \<noteq> other"
  shows "dp_move_assign this other s = Returns \<lparr>ptrs = (ptrs s)(this \<mapsto> p, other \<mapsto> DataPtr_default),
      deletions = deletions s @ deletion_of q\<rparr> \<and>
    dp_move_assign this this s = Returns s \<and> \<not> dp_bool DataPtr_default"
  using assms
  by (simp add: dp_move_assign_def dp_reset_is ptr_at_def put_ptr_def fun_upd_twist)
    (simp add: dp_bool_def DataPtr_default_def Allocation_default_def)

theorem data_ptr_move_witness:
  "dp_move_assign 1 0 \<lparr>ptrs = [0 \<mapsto> DataPtr_default, 1 \<mapsto> DataPtr_default], deletions = []\<rparr> =
    Returns \<lparr>ptrs = [0 \<mapsto> DataPtr_default, 1 \<mapsto> DataPtr_default], deletions = []\<rparr>"
  using data_ptr_move [of "\<lparr>ptrs = [0 \<mapsto> DataPtr_default, 1 \<mapsto> DataPtr_default], deletions = []\<rparr>" 1 DataPtr_default 0 DataPtr_default]
  by (simp add: deletion_of_def DataPtr_default_def fun_upd_twist)

end
