(* ===== verification/DataDeleters.thy ===== *)
theory DataDeleters
  imports DataPtrs
begin

text \<open>
  \<open>core/data_ptr.h\<close> with deleters that own memory themselves: a client's deleter may free an object that
  has owners among its members, whose destructors then run inside the \<open>reset\<close> that called the deleter.
\<close>

section \<open>Resets inside resets\<close>

text \<open>The owners that are members of the object a deleter frees; the deleter of the CPU backend frees none.\<close>

type_synonym members = "deletion \<Rightarrow> nat list"

primrec destroy_all :: "(nat \<Rightarrow> owners \<Rightarrow> owners outcome) \<Rightarrow> nat list \<Rightarrow> owners \<Rightarrow> owners outcome" where
  "destroy_all dtor [] s = Returns s"
| "destroy_all dtor (a # as) s = bnd (dtor a s) (destroy_all dtor as)"

definition end_life :: "nat \<Rightarrow> owners \<Rightarrow> owners" where
  "end_life a s = s\<lparr>ptrs := (ptrs s)(a := None)\<rparr>"

text \<open>
  \<open>n\<close> bounds the depth of the stack. The deleter runs while the owner still has the allocation; the fields
  are cleared after it has returned, if the owner is still alive then.
\<close>

primrec nested_reset :: "members \<Rightarrow> nat \<Rightarrow> nat \<Rightarrow> owners \<Rightarrow> owners outcome" where
  "nested_reset mem 0 a s = Undefined"
| "nested_reset mem (Suc n) a s =
     bnd (ptr_at a s) (\<lambda>p.
       bnd (case deleter p of
              Some d \<Rightarrow>
                if al_data (allocation p) \<noteq> 0
                then destroy_all (\<lambda>b t. bnd (nested_reset mem n b t) (\<lambda>t'. Returns (end_life b t')))
                  (mem (d, al_data (allocation p), context_ptr p))
                  (call_deleter d (al_data (allocation p)) (context_ptr p) s)
                else Returns s
            | None \<Rightarrow> Returns s)
         (\<lambda>s'. bnd (ptr_at a s') (\<lambda>_.
            Returns (put_ptr a \<lparr>allocation = Allocation_default, context_ptr = 0, deleter = None\<rparr> s'))))"

definition nested_dtor :: "members \<Rightarrow> nat \<Rightarrow> nat \<Rightarrow> owners \<Rightarrow> owners outcome" where
  "nested_dtor mem n a s = bnd (nested_reset mem n a s) (\<lambda>s'. Returns (end_life a s'))"

definition nested_move_assign :: "members \<Rightarrow> nat \<Rightarrow> nat \<Rightarrow> nat \<Rightarrow> owners \<Rightarrow> owners outcome" where
  "nested_move_assign mem n this other s =
     (if this \<noteq> other
      then bnd (nested_reset mem n this s) (\<lambda>s1. bnd (ptr_at other s1) (\<lambda>p.
             Returns (put_ptr this p (put_ptr other DataPtr_default s1))))
      else Returns s)"

section \<open>Members of an owner\<close>

definition members_of :: "members \<Rightarrow> DataPtr \<Rightarrow> nat list" where
  "members_of mem p = concat (map mem (deletion_of p))"

lemma nested_reset_Suc:
  "nested_reset mem (Suc n) a s = bnd (ptr_at a s) (\<lambda>p.
     bnd (destroy_all (nested_dtor mem n) (members_of mem p) (s\<lparr>deletions := deletions s @ deletion_of p\<rparr>))
       (\<lambda>s'. bnd (ptr_at a s') (\<lambda>_. Returns (put_ptr a DataPtr_default s'))))"
proof -
  have dtor: "nested_dtor mem n = (\<lambda>b t. bnd (nested_reset mem n b t) (\<lambda>t'. Returns (end_life b t')))"
    by (intro ext) (simp add: nested_dtor_def)
  show ?thesis
    by (simp add: ptr_at_def members_of_def deletion_of_def dp_bool_def dp_data_def call_deleter_def dtor
        DataPtr_default_eq split: option.splits)
qed

declare nested_reset.simps(2) [simp del]

text \<open>
  The owners that die with an owner: it, and those that die with the members of the object its deleter frees.
  Every one is alive, and none is reached twice.
\<close>

inductive owner_tree :: "members \<Rightarrow> (nat \<rightharpoonup> DataPtr) \<Rightarrow> nat \<Rightarrow> nat set \<Rightarrow> bool"
  and owner_forest :: "members \<Rightarrow> (nat \<rightharpoonup> DataPtr) \<Rightarrow> nat list \<Rightarrow> nat set \<Rightarrow> bool" for mem where
  tree: "m a = Some p \<Longrightarrow> owner_forest mem m (members_of mem p) X \<Longrightarrow> a \<notin> X \<Longrightarrow> owner_tree mem m a (insert a X)"
| forest_nil: "owner_forest mem m [] {}"
| forest_cons: "owner_tree mem m a X \<Longrightarrow> owner_forest mem m as Y \<Longrightarrow> X \<inter> Y = {} \<Longrightarrow> owner_forest mem m (a # as) (X \<union> Y)"

lemma owner_tree_finite:
  "owner_tree mem m a X \<Longrightarrow> finite X \<and> a \<in> X \<and> X \<subseteq> dom m" "owner_forest mem m as Y \<Longrightarrow> finite Y \<and> Y \<subseteq> dom m"
  by (induction rule: owner_tree_owner_forest.inducts) auto

text \<open>What the destruction of the owners \<open>X\<close> does to a state.\<close>

definition destroyed_with :: "nat set \<Rightarrow> owners \<Rightarrow> owners \<Rightarrow> bool" where
  "destroyed_with X s s' \<longleftrightarrow> ptrs s' = ptrs s |` (- X) \<and>
     (\<exists>ds. deletions s' = deletions s @ ds \<and> mset ds = (\<Sum>x \<in> X. pending_of (the (ptrs s x))))"

lemma destroyed_union:
  assumes "destroyed_with X s s1" "destroyed_with Y s1 s2" "X \<inter> Y = {}" "finite X" "finite Y"
  shows "destroyed_with (X \<union> Y) s s2"
proof -
  have "(\<Sum>x \<in> Y. pending_of (the (ptrs s1 x))) = (\<Sum>x \<in> Y. pending_of (the (ptrs s x)))"
    using assms(1,3) by (intro sum.cong) (auto simp: destroyed_with_def restrict_map_def)
  then show ?thesis using assms
    by (auto simp: destroyed_with_def sum.union_disjoint restrict_map_def intro!: ext)
qed

lemma destruction:
  "owner_tree mem m a X \<Longrightarrow> \<forall>s n. (\<forall>x \<in> X. ptrs s x = m x) \<longrightarrow> card X \<le> n \<longrightarrow>
     (\<exists>s'. nested_reset mem n a s = Returns s' \<and> ptrs s' a = Some DataPtr_default \<and> destroyed_with X s (end_life a s'))"
  "owner_forest mem m as Y \<Longrightarrow> \<forall>s n. (\<forall>x \<in> Y. ptrs s x = m x) \<longrightarrow> card Y \<le> n \<longrightarrow>
     (\<exists>s'. destroy_all (nested_dtor mem n) as s = Returns s' \<and> destroyed_with Y s s')"
proof (induction rule: owner_tree_owner_forest.inducts)
  case (tree m a p X)
  show ?case
  proof (intro allI impI)
    fix s :: owners and n
    assume s: "\<forall>x \<in> insert a X. ptrs s x = m x" and n: "card (insert a X) \<le> n"
    have fin: "finite X" using owner_tree_finite(2) tree.IH by blast
    obtain k where k: "n = Suc k" "card X \<le> k" using n fin tree.hyps(2) by (cases n) auto
    let ?s = "s\<lparr>deletions := deletions s @ deletion_of p\<rparr>"
    have "\<forall>x \<in> X. ptrs ?s x = m x" using s by simp
    then obtain s1 where s1: "destroy_all (nested_dtor mem k) (members_of mem p) ?s = Returns s1" "destroyed_with X ?s s1"
      using tree.IH k(2) by blast
    have p: "ptrs s a = Some p" "ptrs s1 a = Some p"
      using s1(2) s tree.hyps by (simp_all add: destroyed_with_def restrict_map_def)
    then have "nested_reset mem n a s = Returns (put_ptr a DataPtr_default s1)"
      using s1(1) unfolding k(1) nested_reset_Suc by (simp add: ptr_at_def)
    moreover have "destroyed_with (insert a X) s (end_life a (put_ptr a DataPtr_default s1))"
      using s1(2) p tree.hyps(2) fin
      by (auto simp: destroyed_with_def end_life_def restrict_map_def intro!: ext)
    ultimately show "\<exists>s'. nested_reset mem n a s = Returns s' \<and> ptrs s' a = Some DataPtr_default \<and>
        destroyed_with (insert a X) s (end_life a s')" by simp
  qed
next
  case (forest_nil m)
  then show ?case by (simp add: destroyed_with_def restrict_map_def)
next
  case (forest_cons m a X as Y)
  show ?case
  proof (intro allI impI)
    fix s :: owners and n
    assume s: "\<forall>x \<in> X \<union> Y. ptrs s x = m x" and n: "card (X \<union> Y) \<le> n"
    have fin: "finite X" "finite Y"
      using owner_tree_finite forest_cons.IH by blast+
    have "card X \<le> n" "card Y \<le> n" using n fin forest_cons.hyps by (simp_all add: card_Un_disjoint)
    then obtain s1 where s1: "nested_reset mem n a s = Returns s1" "destroyed_with X s (end_life a s1)"
      using forest_cons.IH s by blast
    have "\<forall>x \<in> Y. ptrs (end_life a s1) x = m x"
      using s1(2) s forest_cons.hyps by (auto simp: destroyed_with_def restrict_map_def)
    then obtain s2 where s2: "destroy_all (nested_dtor mem n) as (end_life a s1) = Returns s2"
      "destroyed_with Y (end_life a s1) s2"
      using forest_cons.IH \<open>card Y \<le> n\<close> by blast
    have "destroyed_with (X \<union> Y) s s2" by (rule destroyed_union [OF s1(2) s2(2) forest_cons.hyps fin])
    then show "\<exists>s'. destroy_all (nested_dtor mem n) (a # as) s = Returns s' \<and> destroyed_with (X \<union> Y) s s'"
      using s1(1) s2(1) by (simp add: nested_dtor_def)
  qed
qed

section \<open>Reentrance\<close>

definition settled :: "'a outcome \<Rightarrow> bool" where
  "settled m \<longleftrightarrow> m = Undefined \<or> (\<exists>x. m = Returns x)"

lemma settled_bnd: "settled m \<Longrightarrow> (\<And>x. settled (k x)) \<Longrightarrow> settled (bnd m k)"
  by (cases m) (simp_all add: settled_def)

lemma settled_simps: "settled (Returns x)" "settled Undefined" "settled (ptr_at a s)"
  by (simp_all add: settled_def ptr_at_def split: option.split)

lemma nested_settled: "settled (nested_reset mem n a s)"
proof (induction n arbitrary: a s)
  case (Suc n)
  have dtor: "settled (nested_dtor mem n b t)" for b t
    unfolding nested_dtor_def by (intro settled_bnd Suc settled_simps)
  have "settled (destroy_all (nested_dtor mem n) as t)" for as t
    by (induction as arbitrary: t) (simp_all add: settled_simps settled_bnd dtor)
  then show ?case unfolding nested_reset_Suc by (intro settled_bnd settled_simps)
qed (simp add: settled_simps)

text \<open>A destructor inside a reset ends owners and changes none that lives on.\<close>

definition only_ends :: "owners \<Rightarrow> owners \<Rightarrow> bool" where
  "only_ends s s' \<longleftrightarrow> (\<forall>x. ptrs s' x = ptrs s x \<or> ptrs s' x = None)"

lemma only_ends_trans: "only_ends s s1 \<Longrightarrow> only_ends s1 s2 \<Longrightarrow> only_ends s s2"
  unfolding only_ends_def by metis

lemma dtor_only_ends: "nested_dtor mem n a s = Returns s' \<Longrightarrow> only_ends s s'"
proof (induction n arbitrary: a s s')
  case 0
  then show ?case by (simp add: nested_dtor_def)
next
  case (Suc n)
  have all: "destroy_all (nested_dtor mem n) as t = Returns t' \<Longrightarrow> only_ends t t'" for as t t'
  proof (induction as arbitrary: t)
    case Nil
    then show ?case by (simp add: only_ends_def)
  next
    case (Cons b as)
    then show ?case using Suc.IH [of b t] only_ends_trans by (auto simp: outcome_simps)
  qed
  obtain p s1 where s1: "destroy_all (nested_dtor mem n) (members_of mem p)
      (s\<lparr>deletions := deletions s @ deletion_of p\<rparr>) = Returns s1" "s' = end_life a (put_ptr a DataPtr_default s1)"
    using Suc.prems by (auto simp: nested_dtor_def nested_reset_Suc outcome_simps)
  then show ?case using all [OF s1(1)] by (auto simp: only_ends_def end_life_def)
qed

lemma destroy_all_stuck:
  assumes "a \<in> set as" "ptrs s a = Some p \<or> ptrs s a = None"
    and "\<And>t. ptrs t a = Some p \<or> ptrs t a = None \<Longrightarrow> nested_dtor mem n a t = Undefined"
  shows "destroy_all (nested_dtor mem n) as s = Undefined"
  using assms(1,2)
proof (induction as arbitrary: s)
  case (Cons b as)
  show ?case
  proof (cases "b = a")
    case True
    then show ?thesis using assms(3) [OF Cons.prems(2)] by simp
  next
    case False
    then have "a \<in> set as" using Cons.prems(1) by simp
    show ?thesis
    proof (cases "nested_dtor mem n b s")
      case (Returns t)
      then have "ptrs t a = Some p \<or> ptrs t a = None"
        using dtor_only_ends [OF Returns] Cons.prems(2) by (metis only_ends_def)
      then show ?thesis using Cons.IH [OF \<open>a \<in> set as\<close>] Returns by simp
    qed (use nested_settled [of mem n b s] in \<open>auto simp: nested_dtor_def settled_def\<close>)
  qed
qed simp

lemma self_member_stuck:
  "a \<in> set (members_of mem p) \<Longrightarrow> ptrs s a = Some p \<or> ptrs s a = None \<Longrightarrow> nested_reset mem n a s = Undefined"
proof (induction n arbitrary: s)
  case (Suc n)
  have dtor: "nested_dtor mem n a t = Undefined" if "ptrs t a = Some p \<or> ptrs t a = None" for t
    using Suc.IH [OF Suc.prems(1) that] by (simp add: nested_dtor_def)
  have "destroy_all (nested_dtor mem n) (members_of mem p) (s\<lparr>deletions := deletions s @ deletion_of p\<rparr>) = Undefined"
    using Suc.prems by (intro destroy_all_stuck [OF _ _ dtor]) auto
  then show ?case unfolding nested_reset_Suc using Suc.prems(2) by (auto simp: ptr_at_def)
qed simp

text \<open>C19: An owner whose deleter frees an object with other owners among its members (a list of buffers, a node with
  its children): destroying it returns, for a stack as deep as there are owners below it, ends exactly
  those, calls the deleter of each of them exactly once, and changes no other owner.\<close>

theorem data_ptr_nested_destruction:
  assumes "owner_tree mem (ptrs s) a X" "card X \<le> n"
  shows "\<exists>s' ds. nested_dtor mem n a s = Returns s' \<and> ptrs s' = ptrs s |` (- X) \<and>
    deletions s' = deletions s @ ds \<and> mset ds = (\<Sum>x \<in> X. pending_of (the (ptrs s x)))"
proof -
  obtain s' where "nested_reset mem n a s = Returns s'" "destroyed_with X s (end_life a s')"
    using destruction(1) [OF assms(1)] assms(2) by blast
  then show ?thesis by (auto simp: nested_dtor_def destroyed_with_def)
qed

text \<open>C20: Where \<open>reset\<close> and the move assignment go wrong, because the deleter runs while the owner still holds
  the allocation: an owner that is a member of the object its own deleter frees is reset again and
  again and never returns, for any depth of the stack; and \<open>head = std::move(head->next)\<close>, the move
  from an owner that dies with what the target held, reads an owner that is no longer alive. With
  deleters that free no owners the model is that of \<open>DataPtrs\<close>.\<close>

theorem data_ptr_reentrance:
  "(ptrs s a = Some p \<and> a \<in> set (members_of mem p) \<longrightarrow> nested_reset mem n a s = Undefined) \<and>
   (owner_tree mem (ptrs s) a X \<and> other \<in> X \<and> other \<noteq> a \<and> card X \<le> n \<longrightarrow>
      nested_move_assign mem n a other s = Undefined) \<and>
   nested_reset (\<lambda>_. []) (Suc n) a s = dp_reset a s"
proof (intro conjI impI)
  assume "ptrs s a = Some p \<and> a \<in> set (members_of mem p)"
  then show "nested_reset mem n a s = Undefined" using self_member_stuck by blast
next
  assume a: "owner_tree mem (ptrs s) a X \<and> other \<in> X \<and> other \<noteq> a \<and> card X \<le> n"
  then obtain s' where s': "nested_reset mem n a s = Returns s'" "destroyed_with X s (end_life a s')"
    using destruction(1) [of mem "ptrs s" a X] by blast
  then have "ptrs (end_life a s') other = None" using a by (simp add: destroyed_with_def restrict_map_def)
  then have "ptrs s' other = None" using a by (simp add: end_life_def)
  then show "nested_move_assign mem n a other s = Undefined"
    using s'(1) a by (simp add: nested_move_assign_def ptr_at_def)
next
  show "nested_reset (\<lambda>_. []) (Suc n) a s = dp_reset a s"
  proof (cases "ptrs s a")
    case (Some p)
    have "members_of (\<lambda>_. []) p = []" by (simp add: members_of_def)
    then show ?thesis using Some unfolding nested_reset_Suc by (simp add: ptr_at_def dp_reset_is)
  qed (simp add: nested_reset_Suc ptr_at_def dp_reset_def)
qed

text \<open>A list of two nodes: the owner 0 holds a node with the owner 1 in it.\<close>

definition node_owner :: "addr \<Rightarrow> DataPtr" where
  "node_owner x = DataPtr_ctor \<lparr>al_data = x, al_bytes = 32, al_device = default_device\<rparr> 0 (Some (Client_deleter 9))"

definition node_members :: members where
  "node_members d = (if d = (Client_deleter 9, 4096, 0) then [1] else [])"

definition node_list :: owners where
  "node_list = \<lparr>ptrs = [0 \<mapsto> node_owner 4096, 1 \<mapsto> node_owner 8192], deletions = []\<rparr>"

lemma node_tree: "owner_tree node_members (ptrs node_list) 0 {0, 1}"
proof -
  have members: "members_of node_members (node_owner 4096) = [1]" "members_of node_members (node_owner 8192) = []"
    by (simp_all add: members_of_def node_members_def deletion_of_def node_owner_def DataPtr_ctor_def dp_bool_def
        dp_data_def)
  have "owner_tree node_members (ptrs node_list) 1 (insert 1 {})"
    by (rule tree [of _ _ "node_owner 8192"]) (simp_all add: node_list_def members forest_nil)
  then have "owner_forest node_members (ptrs node_list) [1] (insert 1 {} \<union> {})"
    by (rule forest_cons) (simp_all add: forest_nil)
  then show ?thesis
    using tree [of "ptrs node_list" 0 "node_owner 4096" node_members "{1}"] by (simp add: members node_list_def)
qed

theorem data_ptr_nested_destruction_witness:
  "\<exists>s'. nested_dtor node_members 2 0 node_list = Returns s' \<and> ptrs s' 0 = None \<and> ptrs s' 1 = None"
  using data_ptr_nested_destruction [OF node_tree, of 2] by (auto simp: restrict_map_def)

theorem data_ptr_reentrance_witness:
  "nested_move_assign node_members 2 0 1 node_list = Undefined"
  using data_ptr_reentrance [of node_list 0 "node_owner 4096" node_members 2 "{0, 1}" 1] node_tree by simp

end
