(* ===== verification/Runtimes.thy ===== *)
theory Runtimes
  imports DataPtrs
begin

text \<open>
  \<open>runtime/stream.h\<close>, \<open>runtime/event.h\<close>, \<open>runtime/allocator.h\<close> and \<open>runtime/runtime.h\<close>: the data a runtime
  hands out and its abstract classes. An abstract class is a locale: its virtual functions are the
  fixed operations, the assumptions are what the CPU classes keep (the headers state no contract for other
  implementations), and the lemmas what follows from that for their users.
\<close>

section \<open>Streams\<close>

record StreamOptions =
  non_blocking :: bool

definition StreamOptions_default :: StreamOptions where
  "StreamOptions_default = \<lparr>non_blocking = False\<rparr>"

record Stream =
  stream_device :: Device
  stream_id :: u64
  stream_is_default :: bool
  stream_valid :: bool

definition Stream_default :: Stream where
  "Stream_default = \<lparr>stream_device = default_device, stream_id = 0, stream_is_default = False,
     stream_valid = False\<rparr>"

definition Stream_ctor :: "Device \<Rightarrow> u64 \<Rightarrow> bool \<Rightarrow> Stream" where
  "Stream_ctor dev i is_default = \<lparr>stream_device = dev, stream_id = i, stream_is_default = is_default,
     stream_valid = True\<rparr>"

section \<open>Events\<close>

record EventOptions =
  enable_timing :: bool

definition EventOptions_default :: EventOptions where
  "EventOptions_default = \<lparr>enable_timing = False\<rparr>"

text \<open>A stream an event of a device accepts.\<close>

definition stream_on :: "Device \<Rightarrow> Stream \<Rightarrow> bool" where
  "stream_on dev s \<longleftrightarrow> stream_valid s \<and> stream_device s = dev"

datatype event_call = Record Stream | Query | Synchronize | Wait Stream

text \<open>
  A sequence of calls on one event. The calls are atomic (an implementation holds a lock), so it is
  also any interleaving of the calls of several threads.
\<close>

primrec event_after :: "(Stream \<Rightarrow> 'e \<Rightarrow> Status \<times> 'e) \<Rightarrow> event_call list \<Rightarrow> 'e \<Rightarrow> 'e" where
  "event_after rec [] e = e"
| "event_after rec (c # cs) e =
     event_after rec cs (case c of Record s \<Rightarrow> snd (rec s e) | _ \<Rightarrow> e)"

locale event_interface =
  fixes event_device :: "'e \<Rightarrow> Device"
    and recorded :: "'e \<Rightarrow> bool"
    and record_event :: "Stream \<Rightarrow> 'e \<Rightarrow> Status \<times> 'e"
    and query :: "'e \<Rightarrow> bool Result"
    and synchronize :: "'e \<Rightarrow> Status"
    and wait :: "Stream \<Rightarrow> 'e \<Rightarrow> Status"
  assumes record_accepts: "stream_on (event_device e) s \<Longrightarrow> record_event s e = (st, e') \<Longrightarrow>
      status_ok st \<and> recorded e' \<and> event_device e' = event_device e"
    and record_refuses: "\<not> stream_on (event_device e) s \<Longrightarrow> record_event s e = (st, e') \<Longrightarrow>
      st_code st = kInvalidArgument \<and> e' = e"
    and query_recorded: "recorded e \<Longrightarrow> result_ok (query e)"
    and query_unrecorded: "\<not> recorded e \<Longrightarrow> \<not> result_ok (query e) \<and>
      st_code (result_status (query e)) = kFailedPrecondition"
    and synchronize_code: "st_code (synchronize e) = (if recorded e then kOk else kFailedPrecondition)"
    and wait_code: "st_code (wait s e) =
      (if \<not> stream_on (event_device e) s then kInvalidArgument
       else if recorded e then kOk else kFailedPrecondition)"
begin

lemma record_cases:
  obtains (accepted) "stream_on (event_device e) s" "status_ok (fst (record_event s e))"
      "recorded (snd (record_event s e))" "event_device (snd (record_event s e)) = event_device e"
  | (refused) "\<not> stream_on (event_device e) s" "snd (record_event s e) = e"
      "st_code (fst (record_event s e)) = kInvalidArgument"
proof -
  obtain st e' where r: "record_event s e = (st, e')" by (cases "record_event s e")
  show thesis
  proof (cases "stream_on (event_device e) s")
    case True
    then show thesis using record_accepts [OF True r] r by (intro accepted) simp_all
  next
    case False
    then show thesis using record_refuses [OF False r] r by (intro refused) simp_all
  qed
qed

lemma after_device: "event_device (event_after record_event cs e) = event_device e"
proof (induction cs arbitrary: e)
  case (Cons c cs)
  show ?case
  proof (cases c)
    case (Record s)
    then show ?thesis using Cons.IH by (cases rule: record_cases [of e s]) auto
  qed (use Cons.IH in auto)
qed simp

text \<open>An event is recorded for good, by the first accepted record.\<close>

lemma recorded_after:
  "recorded (event_after record_event cs e) \<longleftrightarrow> recorded e \<or> (\<exists>s. Record s \<in> set cs \<and> stream_on (event_device e) s)"
proof (induction cs arbitrary: e)
  case (Cons c cs)
  show ?case
  proof (cases c)
    case (Record s)
    then show ?thesis
    proof (cases rule: record_cases [of e s])
      case accepted
      then show ?thesis using Record Cons.IH by auto
    next
      case refused
      then show ?thesis using Record Cons.IH by auto
    qed
  qed (use Cons.IH in auto)
qed simp

lemma query_after:
  "result_ok (query (event_after record_event cs e)) \<longleftrightarrow> recorded e \<or> (\<exists>s. Record s \<in> set cs \<and> stream_on (event_device e) s)"
  using recorded_after query_recorded query_unrecorded by blast

end

section \<open>Runtimes\<close>

record RuntimeCapabilities =
  asynchronous_execution :: bool
  pinned_memory :: bool
  minimum_alignment :: size_t

text \<open>\<open>alignof(std::max_align_t)\<close> and \<open>sizeof(void*)\<close> of the platform.\<close>

definition max_align :: size_t where
  "max_align = 16"

definition sizeof_pointer :: size_t where
  "sizeof_pointer = 8"

definition RuntimeCapabilities_default :: RuntimeCapabilities where
  "RuntimeCapabilities_default =
     \<lparr>asynchronous_execution = False, pinned_memory = False, minimum_alignment = max_align\<rparr>"

text \<open>
  A runtime, on the events of its own kind. \<open>serves\<close> are the devices that \<open>validate_device\<close> accepts; every
  other operation that can fail refuses exactly the others.
\<close>

locale runtime_interface = event_interface event_device recorded record_event query synchronize wait
  for event_device :: "'e \<Rightarrow> Device"
    and recorded :: "'e \<Rightarrow> bool"
    and record_event :: "Stream \<Rightarrow> 'e \<Rightarrow> Status \<times> 'e"
    and query :: "'e \<Rightarrow> bool Result"
    and synchronize :: "'e \<Rightarrow> Status"
    and wait :: "Stream \<Rightarrow> 'e \<Rightarrow> Status" +
  fixes serves :: "Device \<Rightarrow> bool"
    and validate :: "'r \<Rightarrow> Device \<Rightarrow> Status"
    and default_stream :: "'r \<Rightarrow> Device \<Rightarrow> Stream Result"
    and create_stream :: "Device \<Rightarrow> StreamOptions \<Rightarrow> 'r \<Rightarrow> Stream Result \<times> 'r"
    and create_event :: "'r \<Rightarrow> Device \<Rightarrow> EventOptions \<Rightarrow> 'e Result"
  assumes validate_ok: "status_ok (validate r d) \<longleftrightarrow> serves d"
    and default_stream_holds: "serves d \<Longrightarrow>
      \<exists>s. default_stream r d = Holds s \<and> stream_on d s \<and> stream_is_default s"
    and default_stream_fails: "\<not> serves d \<Longrightarrow> default_stream r d = Fails (validate r d)"
    and create_stream_holds: "serves d \<Longrightarrow>
      \<exists>s r'. create_stream d opts r = (Holds s, r') \<and> stream_on d s \<and> \<not> stream_is_default s"
    and create_stream_fails: "\<not> serves d \<Longrightarrow> create_stream d opts r = (Fails (validate r d), r)"
    and create_event_holds: "serves d \<Longrightarrow>
      \<exists>e. create_event r d eopts = Holds e \<and> event_device e = d \<and> \<not> recorded e"
    and create_event_fails: "\<not> serves d \<Longrightarrow> create_event r d eopts = Fails (validate r d)"
begin

text \<open>A user's session: an event of a device, recorded on a stream the runtime made, is complete for all
  streams of that device afterwards.\<close>

lemma submit:
  assumes "serves d"
  shows "\<exists>s r' e st e'. create_stream d opts r = (Holds s, r') \<and> create_event r' d eopts = Holds e \<and>
    st_code (synchronize e) = kFailedPrecondition \<and>
    record_event s e = (st, e') \<and> status_ok st \<and> result_ok (query e') \<and>
    st_code (synchronize e') = kOk \<and> (\<forall>s'. st_code (wait s' e') = kOk \<longleftrightarrow> stream_on d s')"
proof -
  obtain s r' where s: "create_stream d opts r = (Holds s, r')" "stream_on d s"
    using create_stream_holds [OF assms] by blast
  obtain e where e: "create_event r' d eopts = Holds e" "event_device e = d" "\<not> recorded e"
    using create_event_holds [OF assms] by blast
  obtain st e' where r: "record_event s e = (st, e')" by (cases "record_event s e")
  have "status_ok st \<and> recorded e' \<and> event_device e' = d"
    using record_accepts [OF _ r] e(2) s(2) by simp
  then show ?thesis
    using s e r query_recorded synchronize_code wait_code by auto
qed

end

end
