(* ===== verification/CpuRuntimes.thy ===== *)
theory CpuRuntimes
  imports Runtimes
begin

text \<open>
  \<open>backend/cpu/runtime.cc\<close>: the allocator, the events, the streams and the runtime of the CPU backend.
  \<open>posix_memalign\<close> is not part of the sources: it is a parameter, and what POSIX documents of it is the
  predicate \<open>posix_memalign_documented\<close>.
\<close>

unbundle bit_operations_syntax

abbreviation cpu_loc :: "u32 \<Rightarrow> source_location" where
  "cpu_loc l \<equiv> loc ''src/backend/cpu/runtime.cc'' l"

text \<open>\<open>Device{DeviceType::kCPU}\<close>.\<close>

abbreviation "cpu0 \<equiv> default_device"

section \<open>Powers of two\<close>

definition is_power_of_two :: "size_t \<Rightarrow> bool" where
  "is_power_of_two v \<longleftrightarrow> v \<noteq> 0 \<and> v AND (v - 1) = 0"

lemma nat_and_pred:
  "0 < (n :: nat) \<Longrightarrow> n AND (n - 1) = 0 \<longleftrightarrow> (\<exists>k. n = 2 ^ k)"
proof (induction n rule: less_induct)
  case (less n)
  show ?case
  proof (cases "even n")
    case True
    then obtain m where m: "n = 2 * m" "m > 0" "m < n" using less.prems by (auto elim: evenE)
    have "(2 * m - Suc 0) div 2 = m - Suc 0" using m(2) by arith
    then have "n AND (n - 1) = 2 * (m AND (m - 1))"
      using m by (subst and_rec) simp
    then have "n AND (n - 1) = 0 \<longleftrightarrow> (\<exists>k. m = 2 ^ k)" using less.IH [OF m(3,2)] by simp
    also have "\<dots> \<longleftrightarrow> (\<exists>k. n = 2 ^ k)"
    proof
      assume "\<exists>k. m = 2 ^ k"
      then obtain k where "m = 2 ^ k" by blast
      then have "n = 2 ^ Suc k" using m(1) by simp
      then show "\<exists>k. n = 2 ^ k" by blast
    next
      assume "\<exists>k. n = 2 ^ k"
      then obtain k where k: "n = 2 ^ k" by blast
      with True have "k \<noteq> 0" by (intro notI) simp
      then obtain j where "k = Suc j" by (cases k) auto
      with k m(1) show "\<exists>k. m = 2 ^ k" by auto
    qed
    finally show ?thesis .
  next
    case False
    then obtain m where m: "n = 2 * m + 1" by (auto elim: oddE)
    then have "n AND (n - 1) = 2 * m" by (subst and_rec) simp
    then have "n AND (n - 1) = 0 \<longleftrightarrow> n = 1" using m by simp
    also have "\<dots> \<longleftrightarrow> (\<exists>k. n = 2 ^ k)"
    proof
      assume "n = 1"
      then have "n = 2 ^ 0" by simp
      then show "\<exists>k. n = 2 ^ k" by blast
    next
      assume "\<exists>k. n = 2 ^ k"
      then obtain k where "n = 2 ^ k" by blast
      with False have "k = 0" by (cases k) auto
      then show "n = 1" using \<open>n = 2 ^ k\<close> by simp
    qed
    finally show ?thesis .
  qed
qed

lemma is_power_of_two_iff: "is_power_of_two v \<longleftrightarrow> (\<exists>k. unat v = 2 ^ k)"
proof (cases "v = 0")
  case False
  then have "unat v > 0" by (simp add: unat_gt_0)
  moreover have "v AND (v - 1) = 0 \<longleftrightarrow> unat v AND (unat v - 1) = 0"
    using False by (simp add: word_unat_eq_iff unsigned_and_eq unat_minus_one)
  ultimately show ?thesis using False nat_and_pred by (simp add: is_power_of_two_def)
qed (simp add: is_power_of_two_def)

section \<open>Allocation\<close>

text \<open>The blocks the C library has handed out and not got back, with their sizes.\<close>

record heap =
  live_blocks :: "addr \<rightharpoonup> size_t"

text \<open>\<open>posix_memalign(&data, alignment, size)\<close>: the code it returns, the value it leaves in \<open>data\<close>, the heap.\<close>

type_synonym memalign = "size_t \<Rightarrow> size_t \<Rightarrow> heap \<Rightarrow> i32 \<times> addr \<times> heap"

definition posix_memalign_documented :: "memalign \<Rightarrow> bool" where
  "posix_memalign_documented pm \<longleftrightarrow> (\<forall>a n h rc p h'.
     is_power_of_two a \<longrightarrow> sizeof_pointer \<le> a \<longrightarrow> n \<noteq> 0 \<longrightarrow> pm a n h = (rc, p, h') \<longrightarrow>
     (if rc = 0 then p \<noteq> 0 \<and> unat p mod unat a = 0 \<and> live_blocks h p = None \<and>
        live_blocks h' = (live_blocks h)(p \<mapsto> n)
      else live_blocks h' = live_blocks h))"

definition c_free :: "addr \<Rightarrow> heap \<Rightarrow> heap outcome" where
  "c_free p h =
     (if p = 0 then Returns h
      else case live_blocks h p of None \<Rightarrow> Undefined
           | Some _ \<Rightarrow> Returns (h\<lparr>live_blocks := (live_blocks h)(p := None)\<rparr>))"

definition free_cpu_memory :: "addr \<Rightarrow> addr \<Rightarrow> heap \<Rightarrow> heap outcome" where
  "free_cpu_memory mem ctx h = c_free mem h"

definition exhausted_message :: "size_t \<Rightarrow> Device \<Rightarrow> string" where
  "exhausted_message bytes device =
     ''CPU allocator cannot allocate '' @ to_string_int (int (unat bytes)) @ '' bytes on '' @ device_str device"

definition size_max :: "size_t \<Rightarrow> size_t \<Rightarrow> size_t" where
  "size_max a b = (if a < b then b else a)"

definition cpu_allocate ::
  "memalign \<Rightarrow> size_t \<Rightarrow> size_t \<Rightarrow> Device \<Rightarrow> heap \<Rightarrow> DataPtr Result \<times> heap" where
  "cpu_allocate posix_memalign bytes alignment device h =
     (if device \<noteq> cpu0
      then (result_of_status (status_invalid_argument ''CPU allocator only accepts cpu:0'' (cpu_loc 84)), h)
      else if \<not> is_power_of_two alignment
      then (result_of_status
        (status_invalid_argument ''allocation alignment must be a power of two'' (cpu_loc 87)), h)
      else if bytes = 0 then (result_of_value DataPtr_default, h)
      else let actual_alignment = size_max alignment max_align
           in if actual_alignment < sizeof_pointer
              then (result_of_status
                (status_invalid_argument ''allocation alignment is too small'' (cpu_loc 95)), h)
              else if bytes > s_max
              then (result_of_status (status_error kResourceExhausted
                (exhausted_message bytes device) (cpu_loc 99)), h)
              else let (rc, mem, h') = posix_memalign actual_alignment bytes h
                   in if rc \<noteq> 0
                      then (result_of_status (status_error kResourceExhausted
                        (exhausted_message bytes device) (cpu_loc 105)), h')
                      else (result_of_value (DataPtr_ctor
                        \<lparr>al_data = mem, al_bytes = bytes, al_device = device\<rparr> 0 (Some Free_cpu_memory)), h'))"

text \<open>What the calls of deleters do to the heap; a deleter of the client's is not the backend's.\<close>

fun call_deletion :: "deletion \<Rightarrow> heap \<Rightarrow> heap outcome" where
  "call_deletion (Free_cpu_memory, mem, ctx) h = free_cpu_memory mem ctx h"
| "call_deletion (Client_deleter f, mem, ctx) h = Returns h"

primrec call_deletions :: "deletion list \<Rightarrow> heap \<Rightarrow> heap outcome" where
  "call_deletions [] h = Returns h"
| "call_deletions (d # ds) h = bnd (call_deletion d h) (call_deletions ds)"

lemma power_of_two_dvd:
  assumes "is_power_of_two a" "is_power_of_two b" "a \<le> b"
  shows "unat a dvd unat b"
proof -
  obtain j k where jk: "unat a = 2 ^ j" "unat b = 2 ^ k" using assms(1,2) is_power_of_two_iff by auto
  then have "(2 :: nat) ^ j \<le> 2 ^ k" using assms(3) by (simp add: word_le_nat_alt)
  then have "j \<le> k" by simp
  then show ?thesis unfolding jk by (rule le_imp_power_dvd)
qed

lemma max_align_facts: "is_power_of_two max_align" "sizeof_pointer \<le> max_align"
  by (auto simp: is_power_of_two_iff max_align_def sizeof_pointer_def intro: exI [of _ 4])

lemma actual_alignment:
  assumes "is_power_of_two a"
  shows "is_power_of_two (size_max a max_align)" "sizeof_pointer \<le> size_max a max_align"
    "unat a dvd unat (size_max a max_align)" "unat max_align dvd unat (size_max a max_align)"
  using assms max_align_facts power_of_two_dvd [OF assms max_align_facts(1)]
    power_of_two_dvd [OF max_align_facts(1) assms]
  by (auto simp: size_max_def not_less)

text \<open>The allocation the guards lead to, when no guard refuses.\<close>

lemma cpu_allocate_guards:
  "cpu_allocate pm bytes alignment device h =
    (if device \<noteq> cpu0
     then (Fails (status_invalid_argument ''CPU allocator only accepts cpu:0'' (cpu_loc 84)), h)
     else if \<not> is_power_of_two alignment
     then (Fails (status_invalid_argument ''allocation alignment must be a power of two'' (cpu_loc 87)), h)
     else if bytes = 0 then (Holds DataPtr_default, h)
     else if bytes > s_max
     then (Fails (status_error kResourceExhausted (exhausted_message bytes device) (cpu_loc 99)), h)
     else case pm (size_max alignment max_align) bytes h of (rc, mem, h') \<Rightarrow>
       if rc \<noteq> 0
       then (Fails (status_error kResourceExhausted (exhausted_message bytes device) (cpu_loc 105)), h')
       else (Holds (DataPtr_ctor \<lparr>al_data = mem, al_bytes = bytes, al_device = device\<rparr> 0
         (Some Free_cpu_memory)), h'))"
proof (cases "is_power_of_two alignment")
  case True
  have "\<not> size_max alignment max_align < sizeof_pointer"
    using actual_alignment(2) [OF True] by (simp add: not_less)
  then show ?thesis by (simp add: cpu_allocate_def Let_def result_of_value_def split: prod.splits)
qed (simp add: cpu_allocate_def)

lemma ptrdiff_max: "bytes > (s_max :: size_t) \<longleftrightarrow> 2 ^ 63 \<le> unat bytes"
proof -
  have "unat (s_max :: size_t) = 2 ^ 63 - 1" by (simp add: s_max_def smax_int_def)
  then show ?thesis by (auto simp: word_less_nat_alt)
qed

lemma cpu_allocate_cases:
  assumes "posix_memalign_documented pm" "cpu_allocate pm bytes alignment device h = (r, h')"
  shows "(case r of
      Fails st \<Rightarrow> live_blocks h' = live_blocks h \<and>
        st_code st = (if device \<noteq> cpu0 \<or> (\<nexists>k. unat alignment = 2 ^ k) then kInvalidArgument
          else kResourceExhausted) \<and> (device = cpu0 \<and> (\<exists>k. unat alignment = 2 ^ k) \<longrightarrow> bytes \<noteq> 0)
    | Holds p \<Rightarrow> device = cpu0 \<and> (\<exists>k. unat alignment = 2 ^ k) \<and> unat bytes < 2 ^ 63 \<and>
        (if bytes = 0 then p = DataPtr_default \<and> h' = h
         else dp_data p \<noteq> 0 \<and> unat (dp_data p) mod unat alignment = 0 \<and> unat (dp_data p) mod 16 = 0 \<and>
           dp_bytes p = bytes \<and> dp_device p = device \<and> deleter p = Some Free_cpu_memory \<and>
           live_blocks h (dp_data p) = None \<and>
           live_blocks h' = (live_blocks h)(dp_data p \<mapsto> bytes)))"
proof -
  consider (refused) "device \<noteq> cpu0 \<or> \<not> is_power_of_two alignment"
    | (zero) "device = cpu0" "is_power_of_two alignment" "bytes = 0"
    | (huge) "device = cpu0" "is_power_of_two alignment" "bytes \<noteq> 0" "bytes > s_max"
    | (asked) "device = cpu0" "is_power_of_two alignment" "bytes \<noteq> 0" "\<not> bytes > s_max"
    by blast
  then show ?thesis
  proof cases
    case refused
    then show ?thesis using assms(2)
      by (auto simp: cpu_allocate_guards is_power_of_two_iff split: if_splits)
  next
    case zero
    then show ?thesis using assms(2) by (auto simp: cpu_allocate_guards is_power_of_two_iff)
  next
    case huge
    then show ?thesis using assms(2)
      by (auto simp: cpu_allocate_guards is_power_of_two_iff)
  next
    case asked
    obtain rc mem h1 where p: "pm (size_max alignment max_align) bytes h = (rc, mem, h1)"
      by (cases "pm (size_max alignment max_align) bytes h") auto
    note al = actual_alignment [OF asked(2)]
    have d: "if rc = 0 then mem \<noteq> 0 \<and> unat mem mod unat (size_max alignment max_align) = 0 \<and>
        live_blocks h mem = None \<and> live_blocks h1 = (live_blocks h)(mem \<mapsto> bytes)
      else live_blocks h1 = live_blocks h"
      using assms(1) al(1,2) asked(3) p unfolding posix_memalign_documented_def by blast
    have "unat (max_align) = 16" by (simp add: max_align_def)
    then have "rc = 0 \<Longrightarrow> unat mem mod unat alignment = 0 \<and> unat mem mod 16 = 0"
      using d al(3,4) by (metis dvd_trans mod_0_imp_dvd dvd_imp_mod_0)
    moreover have "\<exists>k. unat alignment = 2 ^ k" using asked(2) by (simp add: is_power_of_two_iff)
    ultimately show ?thesis using assms(2) asked p d
      by (cases "rc = 0")
        (auto simp: cpu_allocate_guards DataPtr_ctor_def dp_data_def dp_bytes_def dp_device_def ptrdiff_max
          not_le)
  qed
qed

text \<open>The same as its effect on the live blocks and on what is pending.\<close>

lemma cpu_allocate_effect:
  assumes "posix_memalign_documented pm" "cpu_allocate pm bytes alignment device h = (r, h')"
  shows "case r of Fails st \<Rightarrow> live_blocks h' = live_blocks h
    | Holds p \<Rightarrow> p = DataPtr_default \<and> h' = h \<or>
        dp_data p \<noteq> 0 \<and> pending_of p = {#(Free_cpu_memory, dp_data p, 0)#} \<and>
        live_blocks h (dp_data p) = None \<and> live_blocks h' = (live_blocks h)(dp_data p \<mapsto> bytes)"
proof (cases r)
  case (Holds p)
  have "context_ptr p = 0"
    using assms(2) Holds
    by (auto simp: cpu_allocate_guards DataPtr_default_def DataPtr_ctor_def split: if_splits prod.splits)
  then show ?thesis
    using cpu_allocate_cases [OF assms] Holds
    by (auto simp: pending_of_def dp_bool_def dp_data_def split: if_splits)
qed (use cpu_allocate_cases [OF assms] in simp)

text \<open>C22: \<open>CpuAllocator::allocate\<close> succeeds with memory as asked for, or fails without a trace: it refuses
  another device than cpu:0 or an alignment that is not a power of two as InvalidArgument, and more
  than \<open>PTRDIFF_MAX\<close> bytes, or what the C library cannot provide, as ResourceExhausted; zero bytes give
  the empty owner; otherwise the owner holds a live, non-null block of that size on that device, at an
  address that is a multiple of the alignment and of \<open>alignof(std::max_align_t)\<close>, to be given to
  \<open>free_cpu_memory\<close>.\<close>

theorem cpu_allocate_correct:
  assumes "posix_memalign_documented pm" "cpu_allocate pm bytes alignment device h = (r, h')"
  shows "(case r of
      Fails st \<Rightarrow> live_blocks h' = live_blocks h \<and>
        st_code st = (if device \<noteq> cpu0 \<or> (\<nexists>k. unat alignment = 2 ^ k) then kInvalidArgument
          else kResourceExhausted) \<and> (device = cpu0 \<and> (\<exists>k. unat alignment = 2 ^ k) \<longrightarrow> bytes \<noteq> 0)
    | Holds p \<Rightarrow> device = cpu0 \<and> (\<exists>k. unat alignment = 2 ^ k) \<and> unat bytes < 2 ^ 63 \<and>
        (if bytes = 0 then p = DataPtr_default \<and> h' = h
         else dp_data p \<noteq> 0 \<and> unat (dp_data p) mod unat alignment = 0 \<and> unat (dp_data p) mod 16 = 0 \<and>
           dp_bytes p = bytes \<and> dp_device p = device \<and> deleter p = Some Free_cpu_memory \<and>
           live_blocks h (dp_data p) = None \<and>
           live_blocks h' = (live_blocks h)(dp_data p \<mapsto> bytes)))"
  by (rule cpu_allocate_cases [OF assms])

text \<open>A C library that has one block for each alignment, at the address of that number.\<close>

definition one_block_memalign :: memalign where
  "one_block_memalign a n h =
     (if live_blocks h a = None then (0, a, h\<lparr>live_blocks := (live_blocks h)(a \<mapsto> n)\<rparr>) else (12, 0, h))"

definition empty_heap :: heap where
  "empty_heap = \<lparr>live_blocks = Map.empty\<rparr>"

lemma one_block_documented: "posix_memalign_documented one_block_memalign"
  by (auto simp: posix_memalign_documented_def one_block_memalign_def is_power_of_two_def split: if_splits)

theorem cpu_allocate_correct_witness:
  "posix_memalign_documented one_block_memalign \<and>
   (case fst (cpu_allocate one_block_memalign 256 64 cpu0 empty_heap) of
      Fails st \<Rightarrow> False
    | Holds p \<Rightarrow> dp_data p \<noteq> 0 \<and> unat (dp_data p) mod 64 = 0 \<and> dp_bytes p = 256)"
proof -
  have 64: "is_power_of_two 64" by (auto simp: is_power_of_two_iff intro: exI [of _ 6])
  obtain p h' where c: "cpu_allocate one_block_memalign 256 64 cpu0 empty_heap = (Holds p, h')"
    using 64 by (auto simp: cpu_allocate_guards one_block_memalign_def empty_heap_def s_max_def smax_int_def)
  then show ?thesis
    using cpu_allocate_correct [OF one_block_documented c] one_block_documented by simp
qed

section \<open>Events\<close>

record CpuEvent =
  cpu_event_device :: Device
  cpu_event_recorded :: bool
  cpu_event_completed :: bool

definition CpuEvent_ctor :: "Device \<Rightarrow> CpuEvent" where
  "CpuEvent_ctor device =
     \<lparr>cpu_event_device = device, cpu_event_recorded = False, cpu_event_completed = False\<rparr>"

text \<open>Each call holds the event's mutex while it reads and writes the flags, so a call is one step here;
  \<open>EventThreads\<close> takes it apart.\<close>

definition cpu_event_record :: "Stream \<Rightarrow> CpuEvent \<Rightarrow> Status \<times> CpuEvent" where
  "cpu_event_record stream e =
     (if \<not> stream_valid stream \<or> stream_device stream \<noteq> cpu_event_device e
      then (status_invalid_argument ''cannot record a CPU event on a stream from another device''
        (cpu_loc 29), e)
      else (Status_default, e\<lparr>cpu_event_recorded := True, cpu_event_completed := True\<rparr>))"

definition cpu_event_query :: "CpuEvent \<Rightarrow> bool Result" where
  "cpu_event_query e =
     (if \<not> cpu_event_recorded e
      then result_of_status (status_error kFailedPrecondition
        ''cannot query an event before it is recorded'' (cpu_loc 42))
      else result_of_value (cpu_event_completed e))"

definition cpu_event_synchronize :: "CpuEvent \<Rightarrow> Status" where
  "cpu_event_synchronize e =
     (if \<not> cpu_event_recorded e
      then status_error kFailedPrecondition
        ''cannot synchronize an event before it is recorded'' (cpu_loc 51)
      else Status_default)"

definition cpu_event_wait :: "Stream \<Rightarrow> CpuEvent \<Rightarrow> Status" where
  "cpu_event_wait stream e =
     (if \<not> stream_valid stream \<or> stream_device stream \<noteq> cpu_event_device e
      then status_invalid_argument ''cannot wait for a CPU event on a stream from another device''
        (cpu_loc 59)
      else if \<not> cpu_event_recorded e
      then status_error kFailedPrecondition
        ''cannot wait for an event before it is recorded'' (cpu_loc 65)
      else Status_default)"

lemma code_Status_default [simp]: "st_code Status_default = kOk"
  by (simp add: Status_default_def)

interpretation cpu_event: event_interface cpu_event_device cpu_event_recorded cpu_event_record
  cpu_event_query cpu_event_synchronize cpu_event_wait
  by unfold_locales
    (auto simp: stream_on_def cpu_event_record_def cpu_event_query_def cpu_event_synchronize_def
      cpu_event_wait_def result_of_value_def split: if_splits)

lemma cpu_event_completed_after:
  "(cpu_event_recorded e \<longleftrightarrow> cpu_event_completed e) \<Longrightarrow>
    cpu_event_recorded (event_after cpu_event_record cs e) \<longleftrightarrow>
    cpu_event_completed (event_after cpu_event_record cs e)"
  by (induction cs arbitrary: e) (auto simp: cpu_event_record_def split: event_call.splits)

text \<open>C26: The life of a CPU event. After any sequence of calls on a new event, \<open>query\<close> answers true if some
  call recorded it on a valid stream of its device, and fails as FailedPrecondition if none did (it
  never answers false); \<open>synchronize\<close> agrees with it; \<open>wait\<close> agrees with it on the streams of the device
  and refuses the others.\<close>

theorem cpu_event_life:
  "let e = event_after cpu_event_record cs (CpuEvent_ctor d);
       done = (\<exists>s. Record s \<in> set cs \<and> stream_on d s)
   in (cpu_event_query e = Holds b \<longleftrightarrow> done \<and> b) \<and>
      (st_code (result_status (cpu_event_query e)) = kFailedPrecondition \<longleftrightarrow> \<not> done) \<and>
      st_code (cpu_event_synchronize e) = (if done then kOk else kFailedPrecondition) \<and>
      st_code (cpu_event_wait s' e) = (if \<not> stream_on d s' then kInvalidArgument
        else if done then kOk else kFailedPrecondition)"
proof -
  let ?e = "event_after cpu_event_record cs (CpuEvent_ctor d)"
  have r: "cpu_event_recorded ?e \<longleftrightarrow> (\<exists>s. Record s \<in> set cs \<and> stream_on d s)"
    using cpu_event.recorded_after [of cs "CpuEvent_ctor d"] by (simp add: CpuEvent_ctor_def)
  have c: "cpu_event_completed ?e \<longleftrightarrow> cpu_event_recorded ?e"
    using cpu_event_completed_after [of "CpuEvent_ctor d" cs] by (simp add: CpuEvent_ctor_def)
  have d: "cpu_event_device ?e = d"
    using cpu_event.after_device [of cs "CpuEvent_ctor d"] by (simp add: CpuEvent_ctor_def)
  have q: "cpu_event_query ?e = (if cpu_event_recorded ?e then Holds True else
      Fails (status_error kFailedPrecondition ''cannot query an event before it is recorded'' (cpu_loc 42)))"
    using c by (simp add: cpu_event_query_def result_of_value_def)
  have "(cpu_event_query ?e = Holds b \<longleftrightarrow> cpu_event_recorded ?e \<and> b) \<and>
      (st_code (result_status (cpu_event_query ?e)) = kFailedPrecondition \<longleftrightarrow> \<not> cpu_event_recorded ?e)"
    unfolding q by (simp add: ok_status_def)
  then show ?thesis
    unfolding Let_def cpu_event.synchronize_code cpu_event.wait_code d r by simp
qed

section \<open>The runtime\<close>

record CpuRuntime =
  next_stream_id :: u64

definition CpuRuntime_default :: CpuRuntime where
  "CpuRuntime_default = \<lparr>next_stream_id = 1\<rparr>"

definition cpu_device_type :: DeviceType where
  "cpu_device_type = kCPU"

definition cpu_device_count :: "i32 Result" where
  "cpu_device_count = result_of_value 1"

definition cpu_validate_device :: "Device \<Rightarrow> Status" where
  "cpu_validate_device device =
     (if device \<noteq> cpu0
      then status_invalid_argument ''CPU runtime only accepts cpu:0'' (cpu_loc 118)
      else Status_default)"

definition cpu_default_stream :: "Device \<Rightarrow> Stream Result" where
  "cpu_default_stream device =
     (let status = cpu_validate_device device
      in if \<not> status_ok status then result_of_status status
         else result_of_value (Stream_ctor device 0 True))"

text \<open>\<open>fetch_add\<close> on the atomic counter is one step and wraps.\<close>

definition cpu_create_stream :: "Device \<Rightarrow> StreamOptions \<Rightarrow> CpuRuntime \<Rightarrow> Stream Result \<times> CpuRuntime" where
  "cpu_create_stream device options r =
     (let status = cpu_validate_device device
      in if \<not> status_ok status then (result_of_status status, r)
         else (result_of_value (Stream_ctor device (next_stream_id r) False),
               r\<lparr>next_stream_id := next_stream_id r + 1\<rparr>))"

definition cpu_create_event :: "Device \<Rightarrow> EventOptions \<Rightarrow> CpuEvent Result" where
  "cpu_create_event device options =
     (let status = cpu_validate_device device
      in if \<not> status_ok status then result_of_status status
         else result_of_value (CpuEvent_ctor device))"

definition cpu_synchronize :: "Device \<Rightarrow> Status" where
  "cpu_synchronize device = cpu_validate_device device"

definition cpu_capabilities :: "Device \<Rightarrow> RuntimeCapabilities" where
  "cpu_capabilities device =
     \<lparr>asynchronous_execution = False, pinned_memory = False, minimum_alignment = max_align\<rparr>"

interpretation cpu_runtime: runtime_interface cpu_event_device cpu_event_recorded cpu_event_record
  cpu_event_query cpu_event_synchronize cpu_event_wait "\<lambda>d. d = cpu0" "\<lambda>_. cpu_validate_device"
  "\<lambda>_. cpu_default_stream" cpu_create_stream "\<lambda>_. cpu_create_event"
  by unfold_locales
    (auto simp: cpu_validate_device_def cpu_default_stream_def cpu_create_stream_def
      cpu_create_event_def Let_def result_of_value_def Stream_ctor_def stream_on_def CpuEvent_ctor_def)

text \<open>The streams that \<open>n\<close> calls of \<open>create_stream\<close> make, from whatever threads.\<close>

primrec created_streams :: "nat \<Rightarrow> StreamOptions \<Rightarrow> CpuRuntime \<Rightarrow> Stream Result list" where
  "created_streams 0 opts r = []"
| "created_streams (Suc n) opts r =
     (case cpu_create_stream cpu0 opts r of (s, r') \<Rightarrow> s # created_streams n opts r')"

lemma created_streams_ids:
  "created_streams n opts r =
    map (\<lambda>i. Holds (Stream_ctor cpu0 (next_stream_id r + of_nat i) False)) [0..<n]"
proof (induction n arbitrary: r)
  case (Suc n)
  have "[0..<Suc n] = 0 # map Suc [0..<n]" by (simp add: map_Suc_upt upt_conv_Cons del: upt_Suc)
  then show ?case
    by (simp add: cpu_create_stream_def cpu_validate_device_def Suc.IH result_of_value_def add.assoc
        del: upt_Suc)
qed simp

lemma distinct_of_nat: "distinct (map (of_nat :: nat \<Rightarrow> u64) [0..<n]) \<longleftrightarrow> n \<le> 2 ^ 64"
proof
  assume d: "distinct (map (of_nat :: nat \<Rightarrow> u64) [0..<n])"
  show "n \<le> 2 ^ 64"
  proof (rule ccontr)
    assume "\<not> n \<le> 2 ^ 64"
    then have "0 \<in> set [0..<n]" "2 ^ 64 \<in> set [0..<n]" by auto
    moreover have "(of_nat (2 ^ 64) :: u64) = of_nat 0" by simp
    ultimately have "(2 :: nat) ^ 64 = 0"
      using d unfolding distinct_map inj_on_def by blast
    then show False by simp
  qed
next
  assume n: "n \<le> 2 ^ 64"
  have "inj_on (of_nat :: nat \<Rightarrow> u64) {0..<n}"
  proof (rule inj_onI)
    fix i j assume ij: "i \<in> {0..<n}" "j \<in> {0..<n}" "(of_nat i :: u64) = of_nat j"
    have "unat (of_nat i :: u64) = i" "unat (of_nat j :: u64) = j"
      using ij(1,2) n by (simp_all add: unsigned_of_nat take_bit_eq_mod)
    then show "i = j" using ij(3) by metis
  qed
  then show "distinct (map (of_nat :: nat \<Rightarrow> u64) [0..<n])" by (simp add: distinct_map)
qed

text \<open>The streams of a CPU runtime are told apart by their ids: \<open>n\<close> created streams and the default
  stream have pairwise different ids if and only if fewer than \<open>2 ^ 64\<close> were created; every call succeeds.\<close>

theorem cpu_streams_distinct:
  "distinct (cpu_default_stream cpu0 # created_streams n opts CpuRuntime_default) \<and>
     distinct (map (\<lambda>s. case s of Holds st \<Rightarrow> stream_id st | Fails _ \<Rightarrow> 0)
       (cpu_default_stream cpu0 # created_streams n opts CpuRuntime_default)) \<longleftrightarrow> n < 2 ^ 64"
proof -
  let ?l = "cpu_default_stream cpu0 # created_streams n opts CpuRuntime_default"
  let ?id = "\<lambda>s. case s of Holds st \<Rightarrow> stream_id st | Fails _ \<Rightarrow> 0"
  have "[0..<Suc n] = 0 # map Suc [0..<n]" by (simp add: map_Suc_upt upt_conv_Cons del: upt_Suc)
  then have "map ?id ?l = map of_nat [0..<Suc n]"
    by (simp add: created_streams_ids cpu_default_stream_def cpu_validate_device_def result_of_value_def
        Stream_ctor_def CpuRuntime_default_def o_def del: upt_Suc)
  then have "distinct (map ?id ?l) \<longleftrightarrow> n < 2 ^ 64"
    using distinct_of_nat [of "Suc n"] by (simp only: Suc_le_eq)
  moreover have "distinct (map ?id ?l) \<Longrightarrow> distinct ?l" by (simp only: distinct_map)
  ultimately show ?thesis by blast
qed

text \<open>A user's session on the CPU runtime: on the device it serves, the runtime makes a stream and an
  event, the event is refused before it is recorded, recording succeeds, and afterwards the event is
  complete and can be waited for on exactly the valid streams of the device. On every other device
  each operation fails with the status \<open>validate_device\<close> gives, InvalidArgument.\<close>

theorem cpu_runtime_session:
  "(\<exists>s r' e st e'. cpu_create_stream cpu0 opts r = (Holds s, r') \<and> cpu_create_event cpu0 eopts = Holds e \<and>
     st_code (cpu_event_synchronize e) = kFailedPrecondition \<and>
     cpu_event_record s e = (st, e') \<and> status_ok st \<and> result_ok (cpu_event_query e') \<and>
     st_code (cpu_event_synchronize e') = kOk \<and>
     (\<forall>s'. st_code (cpu_event_wait s' e') = kOk \<longleftrightarrow> stream_on cpu0 s')) \<and>
   (d \<noteq> cpu0 \<longleftrightarrow> (\<exists>st. st_code st = kInvalidArgument \<and> cpu_validate_device d = st \<and>
      cpu_default_stream d = Fails st \<and> cpu_create_stream d opts r = (Fails st, r) \<and>
      cpu_create_event d eopts = Fails st \<and> cpu_synchronize d = st))"
proof
  show "\<exists>s r' e st e'. cpu_create_stream cpu0 opts r = (Holds s, r') \<and> cpu_create_event cpu0 eopts = Holds e \<and>
     st_code (cpu_event_synchronize e) = kFailedPrecondition \<and>
     cpu_event_record s e = (st, e') \<and> status_ok st \<and> result_ok (cpu_event_query e') \<and>
     st_code (cpu_event_synchronize e') = kOk \<and>
     (\<forall>s'. st_code (cpu_event_wait s' e') = kOk \<longleftrightarrow> stream_on cpu0 s')"
    by (rule cpu_runtime.submit) simp
  show "d \<noteq> cpu0 \<longleftrightarrow> (\<exists>st. st_code st = kInvalidArgument \<and> cpu_validate_device d = st \<and>
      cpu_default_stream d = Fails st \<and> cpu_create_stream d opts r = (Fails st, r) \<and>
      cpu_create_event d eopts = Fails st \<and> cpu_synchronize d = st)"
    using cpu_runtime.default_stream_fails [of d] cpu_runtime.create_stream_fails [of d opts r]
      cpu_runtime.create_event_fails [of d eopts]
    by (auto simp: cpu_synchronize_def) (simp_all add: cpu_validate_device_def)
qed

end
