(* ===== verification/CpuMemory.thy ===== *)
theory CpuMemory
  imports CpuRuntimes
begin

text \<open>
  The allocator and the owners together: programs that allocate on the CPU and move, swap, reset and
  destroy the owners, with the calls of \<open>free_cpu_memory\<close> that the owners make run on the heap.
\<close>

section \<open>Programs\<close>

record memory =
  mem_owners :: owners
  mem_heap :: heap

datatype mem_call =
    Allocate nat size_t size_t Device
  | Own dp_call

text \<open>
  \<open>Allocate a bytes alignment device\<close> constructs, at \<open>a\<close>, the owner \<open>allocate\<close> returns; nothing is
  constructed when it fails. An operation on owners logs the calls of deleters it makes, and they
  run on the heap in that order.
\<close>

fun run_mem :: "memalign \<Rightarrow> mem_call \<Rightarrow> memory \<Rightarrow> memory outcome" where
  "run_mem pm (Allocate a bytes alignment device) m =
     (case cpu_allocate pm bytes alignment device (mem_heap m) of (r, h') \<Rightarrow>
        (case r of Fails st \<Rightarrow> Returns (m\<lparr>mem_heap := h'\<rparr>)
         | Holds p \<Rightarrow> Returns \<lparr>mem_owners = put_ptr a p (mem_owners m), mem_heap = h'\<rparr>))"
| "run_mem pm (Own c) m =
     bnd (run_dp c (mem_owners m)) (\<lambda>s'.
       bnd (call_deletions (drop (length (deletions (mem_owners m))) (deletions s')) (mem_heap m)) (\<lambda>h'.
         Returns \<lparr>mem_owners = s', mem_heap = h'\<rparr>))"

text \<open>Owners come from the allocator only: a client does not forge one.\<close>

fun mem_allowed :: "mem_call \<Rightarrow> memory \<Rightarrow> bool" where
  "mem_allowed (Allocate a bytes alignment device) m \<longleftrightarrow> ptrs (mem_owners m) a = None"
| "mem_allowed (Own c) m \<longleftrightarrow> dp_allowed c (mem_owners m) \<and> acquired c = {#}"

inductive mem_reachable :: "memalign \<Rightarrow> memory \<Rightarrow> bool" for pm where
  mem_start: "mem_reachable pm \<lparr>mem_owners = no_owners, mem_heap = empty_heap\<rparr>"
| mem_step: "mem_reachable pm m \<Longrightarrow> mem_allowed c m \<Longrightarrow> run_mem pm c m = Returns m' \<Longrightarrow>
    mem_reachable pm m'"

section \<open>The invariant\<close>

text \<open>Every live block has exactly one owner that will free it, and the owners free nothing else.\<close>

definition frees :: "heap \<Rightarrow> deletion multiset" where
  "frees h = image_mset (\<lambda>p. (Free_cpu_memory, p, 0)) (mset_set (dom (live_blocks h)))"

definition memory_ok :: "memory \<Rightarrow> bool" where
  "memory_ok m \<longleftrightarrow> finite (dom (ptrs (mem_owners m))) \<and> finite (dom (live_blocks (mem_heap m))) \<and>
     pending (mem_owners m) = frees (mem_heap m) \<and> live_blocks (mem_heap m) 0 = None"

lemma frees_remove:
  assumes "finite (dom (live_blocks h))" "live_blocks h p = Some n"
  shows "frees h = add_mset (Free_cpu_memory, p, 0) (frees (h\<lparr>live_blocks := (live_blocks h)(p := None)\<rparr>))"
proof -
  have "dom (live_blocks h) = insert p (dom (live_blocks h) - {p})" using assms(2) by auto
  then have "mset_set (dom (live_blocks h)) = add_mset p (mset_set (dom (live_blocks h) - {p}))"
    using assms(1) by (metis Diff_iff finite_Diff insertI1 mset_set.insert)
  then show ?thesis by (simp add: frees_def)
qed

lemma frees_insert:
  assumes "finite (dom (live_blocks h))" "live_blocks h p = None" "live_blocks h' = (live_blocks h)(p \<mapsto> n)"
  shows "frees h' = add_mset (Free_cpu_memory, p, 0) (frees h)"
  using assms by (simp add: frees_def domIff)

lemma call_deletions_ok:
  assumes "finite (dom (live_blocks h))" "live_blocks h 0 = None" "mset ds + R = frees h"
  shows "\<exists>h'. call_deletions ds h = Returns h' \<and> finite (dom (live_blocks h')) \<and>
    live_blocks h' 0 = None \<and> frees h' = R"
  using assms
proof (induction ds arbitrary: h)
  case (Cons d ds)
  have "d \<in># frees h" using Cons.prems(3) by (metis union_iff insertI1 list.set(2) set_mset_mset)
  then obtain p n where p: "d = (Free_cpu_memory, p, 0)" "live_blocks h p = Some n"
    using Cons.prems(1) by (auto simp: frees_def)
  let ?h = "h\<lparr>live_blocks := (live_blocks h)(p := None)\<rparr>"
  have "p \<noteq> 0" using p(2) Cons.prems(2) by auto
  moreover have "mset ds + R = frees ?h"
    using Cons.prems(3) frees_remove [OF Cons.prems(1) p(2)] p(1) by simp
  ultimately show ?case
    using Cons.IH [of ?h] Cons.prems(1,2) p by (simp add: free_cpu_memory_def c_free_def)
qed simp

lemma run_dp_appends:
  assumes "run_dp c s = Returns s'"
  shows "\<exists>ds. deletions s' = deletions s @ ds"
  using assms
proof (cases c)
  case (Dp_reset a)
  with assms show ?thesis
    by (cases "ptrs s a") (auto simp: dp_reset_def ptr_at_def split: option.splits if_splits)
next
  case (Dp_dtor a)
  with assms show ?thesis
    by (cases "ptrs s a")
      (auto simp: dp_dtor_def dp_reset_def ptr_at_def bnd_eq_Returns split: option.splits if_splits)
next
  case (Dp_move_assign this other)
  with assms show ?thesis
    by (cases "ptrs s this")
      (auto simp: dp_move_assign_def dp_reset_def ptr_at_def bnd_eq_Returns Let_def split: option.splits if_splits)
qed (auto simp: dp_ctor_def dp_ctor_from_def dp_move_ctor_def dp_swap_def ptr_at_def bnd_eq_Returns
    split: option.splits)

lemma run_mem_ok:
  assumes pm: "posix_memalign_documented pm" and ok: "memory_ok m" and a: "mem_allowed c m"
  shows "\<exists>m'. run_mem pm c m = Returns m' \<and> memory_ok m'"
proof (cases c)
  case (Allocate a bytes alignment device)
  obtain r h' where r: "cpu_allocate pm bytes alignment device (mem_heap m) = (r, h')"
    by (cases "cpu_allocate pm bytes alignment device (mem_heap m)")
  show ?thesis
  proof (cases r)
    case (Fails st)
    then have "live_blocks h' = live_blocks (mem_heap m)"
      using cpu_allocate_effect [OF pm r] by simp
    then show ?thesis using Allocate r Fails ok by (simp add: memory_ok_def frees_def)
  next
    case (Holds p)
    have fresh: "ptrs (mem_owners m) a = None" using a Allocate by simp
    then have pend: "pending (put_ptr a p (mem_owners m)) = pending (mem_owners m) + pending_of p"
      using pending_put [of "mem_owners m" a p] ok by (simp add: pending_at_def memory_ok_def)
    have "p = DataPtr_default \<and> h' = mem_heap m \<or>
        dp_data p \<noteq> 0 \<and> pending_of p = {#(Free_cpu_memory, dp_data p, 0)#} \<and>
        live_blocks (mem_heap m) (dp_data p) = None \<and>
        live_blocks h' = (live_blocks (mem_heap m))(dp_data p \<mapsto> bytes)"
      using cpu_allocate_effect [OF pm r] Holds by simp
    then show ?thesis
    proof
      assume "p = DataPtr_default \<and> h' = mem_heap m"
      then show ?thesis using Allocate r Holds ok pend by (simp add: memory_ok_def)
    next
      assume p: "dp_data p \<noteq> 0 \<and> pending_of p = {#(Free_cpu_memory, dp_data p, 0)#} \<and>
        live_blocks (mem_heap m) (dp_data p) = None \<and>
        live_blocks h' = (live_blocks (mem_heap m))(dp_data p \<mapsto> bytes)"
      then have "frees h' = add_mset (Free_cpu_memory, dp_data p, 0) (frees (mem_heap m))"
        using ok by (intro frees_insert) (auto simp: memory_ok_def)
      then show ?thesis using Allocate r Holds ok pend p by (simp add: memory_ok_def)
    qed
  qed
next
  case (Own c')
  let ?s = "mem_owners m"
  obtain s' where s': "run_dp c' ?s = Returns s'" "finite (dom (ptrs s'))" "obligations s' = obligations ?s"
    using run_dp_ok [of ?s c'] ok a Own by (auto simp: memory_ok_def)
  obtain ds where ds: "deletions s' = deletions ?s @ ds" using run_dp_appends [OF s'(1)] by blast
  then have "mset ds + pending s' = frees (mem_heap m)"
    using s'(3) ok by (simp add: obligations_def memory_ok_def)
  then show ?thesis
    using call_deletions_ok [of "mem_heap m" ds "pending s'"] ok Own s'(1,2) ds
    by (auto simp: memory_ok_def)
qed

lemma mem_reachable_ok:
  assumes "posix_memalign_documented pm"
  shows "mem_reachable pm m \<Longrightarrow> memory_ok m"
proof (induction rule: mem_reachable.induct)
  case mem_start
  show ?case by (simp add: memory_ok_def no_owners_def empty_heap_def pending_def frees_def)
next
  case (mem_step m c m')
  then show ?case using run_mem_ok [OF assms] by fastforce
qed

lemma pending_iff:
  assumes "finite (dom (ptrs s))"
  shows "d \<in># pending s \<longleftrightarrow> (\<exists>a p. ptrs s a = Some p \<and> d \<in># pending_of p)"
proof -
  have "d \<in># pending s \<longleftrightarrow> (\<exists>a \<in> dom (ptrs s). d \<in># pending_of (the (ptrs s a)))"
    using assms by (simp add: pending_def set_mset_sum)
  also have "\<dots> \<longleftrightarrow> (\<exists>a p. ptrs s a = Some p \<and> d \<in># pending_of p)"
    by (auto simp: Bex_def dom_def) (metis option.sel)
  finally show ?thesis .
qed

text \<open>The living blocks are those an owner is going to free.\<close>

lemma live_iff_owned:
  assumes ok: "memory_ok m"
  shows "live_blocks (mem_heap m) q \<noteq> None \<longleftrightarrow>
    (\<exists>a p. ptrs (mem_owners m) a = Some p \<and> dp_bool p \<and> dp_data p = q \<and> deleter p = Some Free_cpu_memory)"
    (is "_ \<longleftrightarrow> ?owned")
proof -
  have fin: "finite (dom (ptrs (mem_owners m)))" "finite (dom (live_blocks (mem_heap m)))"
    and pend: "pending (mem_owners m) = frees (mem_heap m)"
    using ok by (simp_all add: memory_ok_def)
  have live: "live_blocks (mem_heap m) q \<noteq> None \<longleftrightarrow> (\<exists>c. (Free_cpu_memory, q, c) \<in># pending (mem_owners m))"
    using fin(2) by (auto simp: pend frees_def)
  also have "\<dots> \<longleftrightarrow> ?owned"
    unfolding pending_iff [OF fin(1)] by (fastforce simp: pending_of_def split: option.splits if_splits)
  finally show ?thesis .
qed

text \<open>C17: Memory from the CPU allocator is freed exactly once and never leaks: from an empty heap, whatever
  a program allocates and however it moves, swaps, resets and destroys the owners, the next call
  returns (nothing is freed twice, nothing that is not allocated is freed), every live block has an
  owner, and no block is live once no owner is alive.\<close>

theorem cpu_memory_safe:
  assumes "posix_memalign_documented pm" "mem_reachable pm m"
  shows "(mem_allowed c m \<longrightarrow> (\<exists>m'. run_mem pm c m = Returns m' \<and> mem_reachable pm m')) \<and>
    (live_blocks (mem_heap m) q \<noteq> None \<longleftrightarrow>
      (\<exists>a p. ptrs (mem_owners m) a = Some p \<and> dp_bool p \<and> dp_data p = q \<and> deleter p = Some Free_cpu_memory)) \<and>
    (ptrs (mem_owners m) = Map.empty \<longrightarrow> live_blocks (mem_heap m) = Map.empty)"
proof -
  note ok = mem_reachable_ok [OF assms]
  have "live_blocks (mem_heap m) = Map.empty" if "ptrs (mem_owners m) = Map.empty"
    using live_iff_owned [OF ok] that by fastforce
  then show ?thesis
    using live_iff_owned [OF ok] run_mem_ok [OF assms(1) ok] mem_step [OF assms(2)] by blast
qed

text \<open>A program that allocates 256 bytes and resets the owner.\<close>

definition one_allocation :: memory where
  "one_allocation = \<lparr>mem_owners = put_ptr 0 (DataPtr_ctor \<lparr>al_data = 64, al_bytes = 256, al_device = cpu0\<rparr> 0
     (Some Free_cpu_memory)) no_owners, mem_heap = \<lparr>live_blocks = [64 \<mapsto> 256]\<rparr>\<rparr>"

lemma one_allocation_reachable: "mem_reachable one_block_memalign one_allocation"
proof (rule mem_step [OF mem_start, where c = "Allocate 0 256 64 cpu0"])
  have "is_power_of_two 64" by (auto simp: is_power_of_two_iff intro: exI [of _ 6])
  then show "run_mem one_block_memalign (Allocate 0 256 64 cpu0)
      \<lparr>mem_owners = no_owners, mem_heap = empty_heap\<rparr> = Returns one_allocation"
    by (simp add: cpu_allocate_guards one_block_memalign_def empty_heap_def s_max_def smax_int_def
        size_max_def max_align_def one_allocation_def)
qed (simp add: no_owners_def)

theorem cpu_memory_safe_witness:
  "mem_allowed (Own (Dp_reset 0)) one_allocation \<and>
   (\<exists>m'. run_mem one_block_memalign (Own (Dp_reset 0)) one_allocation = Returns m')"
proof -
  have "mem_allowed (Own (Dp_reset 0)) one_allocation" by (simp add: one_allocation_def)
  then show ?thesis
    using cpu_memory_safe [OF one_block_documented one_allocation_reachable, of "Own (Dp_reset 0)" 0]
    by blast
qed

end
