(* ===== verification/MutexObjects.thy ===== *)
theory MutexObjects
  imports Main
begin

text \<open>
  Objects whose methods hold a mutex, with threads: a method may refuse its arguments before it takes the
  lock; under the lock it makes its writes one after the other, forms its answer and unlocks. The locale
  states what makes such an object linearizable, and the theory that it then is.
\<close>

section \<open>Threads at a locked object\<close>

datatype ('c, 'r) lock_pc =
    Arrives 'c
  | Wants_lock 'c
  | Locked_at 'c nat
  | Unlocks 'r
  | Returned 'r

record ('o, 'c, 'r) locked =
  object_of :: 'o
  lock_owner :: "nat option"
  stands_at :: "nat \<Rightarrow> ('c, 'r) lock_pc"
  effects :: "(nat \<times> 'c \<times> 'r) list"

text \<open>
  \<open>refuse\<close> is the answer given without the lock, if any, \<open>body\<close> the writes made under it, \<open>answer\<close> what is
  returned after them. \<open>effects\<close> lists the calls in the order in which they took effect.
\<close>

inductive locked_step ::
  "('c \<Rightarrow> 'o \<Rightarrow> 'r option) \<Rightarrow> ('c \<Rightarrow> ('o \<Rightarrow> 'o) list) \<Rightarrow> ('c \<Rightarrow> 'o \<Rightarrow> 'r) \<Rightarrow> ('o, 'c, 'r) locked \<Rightarrow>
    ('o, 'c, 'r) locked \<Rightarrow> bool" for refuse body answer where
  step_refuse: "stands_at s i = Arrives c \<Longrightarrow> refuse c (object_of s) = Some r \<Longrightarrow>
    locked_step refuse body answer s
      (s\<lparr>stands_at := (stands_at s)(i := Returned r), effects := effects s @ [(i, c, r)]\<rparr>)"
| step_pass: "stands_at s i = Arrives c \<Longrightarrow> refuse c (object_of s) = None \<Longrightarrow>
    locked_step refuse body answer s (s\<lparr>stands_at := (stands_at s)(i := Wants_lock c)\<rparr>)"
| step_lock: "stands_at s i = Wants_lock c \<Longrightarrow> lock_owner s = None \<Longrightarrow>
    locked_step refuse body answer s
      (s\<lparr>stands_at := (stands_at s)(i := Locked_at c 0), lock_owner := Some i\<rparr>)"
| step_write: "stands_at s i = Locked_at c k \<Longrightarrow> k < length (body c) \<Longrightarrow>
    locked_step refuse body answer s
      (s\<lparr>stands_at := (stands_at s)(i := Locked_at c (Suc k)), object_of := (body c ! k) (object_of s)\<rparr>)"
| step_answer: "stands_at s i = Locked_at c k \<Longrightarrow> k = length (body c) \<Longrightarrow> r = answer c (object_of s) \<Longrightarrow>
    locked_step refuse body answer s
      (s\<lparr>stands_at := (stands_at s)(i := Unlocks r), effects := effects s @ [(i, c, r)]\<rparr>)"
| step_unlock: "stands_at s i = Unlocks r \<Longrightarrow>
    locked_step refuse body answer s
      (s\<lparr>stands_at := (stands_at s)(i := Returned r), lock_owner := None\<rparr>)"

text \<open>Thread \<open>i\<close> makes the call \<open>calls i\<close> on an object that starts as \<open>x\<close>.\<close>

inductive locked_run ::
  "('c \<Rightarrow> 'o \<Rightarrow> 'r option) \<Rightarrow> ('c \<Rightarrow> ('o \<Rightarrow> 'o) list) \<Rightarrow> ('c \<Rightarrow> 'o \<Rightarrow> 'r) \<Rightarrow> 'o \<Rightarrow> (nat \<Rightarrow> 'c) \<Rightarrow>
    ('o, 'c, 'r) locked \<Rightarrow> bool" for refuse body answer x calls where
  locked_start: "locked_run refuse body answer x calls
    \<lparr>object_of = x, lock_owner = None, stands_at = (\<lambda>i. Arrives (calls i)), effects = []\<rparr>"
| locked_next: "locked_run refuse body answer x calls s \<Longrightarrow> locked_step refuse body answer s s' \<Longrightarrow>
    locked_run refuse body answer x calls s'"

text \<open>The object after the calls of a history made one after the other, if each gives its answer.\<close>

fun replay_calls :: "('c \<Rightarrow> 'o \<Rightarrow> 'r \<times> 'o) \<Rightarrow> (nat \<times> 'c \<times> 'r) list \<Rightarrow> 'o \<Rightarrow> 'o option" where
  "replay_calls meth [] x = Some x"
| "replay_calls meth ((i, c, r) # h) x = (case meth c x of (q, y) \<Rightarrow> if q = r then replay_calls meth h y else None)"

lemma replay_calls_append:
  "replay_calls meth (h @ [(i, c, r)]) x = (case replay_calls meth h x of None \<Rightarrow> None
     | Some y \<Rightarrow> case meth c y of (q, z) \<Rightarrow> if q = r then Some z else None)"
  by (induction meth h x rule: replay_calls.induct) (auto split: prod.splits)

definition effects_of :: "nat \<Rightarrow> ('o, 'c, 'r) locked \<Rightarrow> (nat \<times> 'c \<times> 'r) list" where
  "effects_of i s = filter (\<lambda>(j, _). j = i) (effects s)"

fun in_lock :: "('c, 'r) lock_pc \<Rightarrow> bool" where
  "in_lock (Locked_at c k) \<longleftrightarrow> True"
| "in_lock (Unlocks r) \<longleftrightarrow> True"
| "in_lock _ \<longleftrightarrow> False"

text \<open>A thread that has passed the checks before the lock and has not returned.\<close>

fun in_call :: "('c, 'r) lock_pc \<Rightarrow> bool" where
  "in_call (Arrives c) \<longleftrightarrow> False"
| "in_call (Returned r) \<longleftrightarrow> False"
| "in_call _ \<longleftrightarrow> True"

lemma in_lock_in_call: "in_lock p \<Longrightarrow> in_call p"
  by (cases p) simp_all

section \<open>Linearizability\<close>

text \<open>
  \<open>meth\<close> is a method as one step. It agrees with the locked body, and what is looked at without the lock is
  never written.
\<close>

locale mutex_object =
  fixes refuse :: "'c \<Rightarrow> 'o \<Rightarrow> 'r option"
    and body :: "'c \<Rightarrow> ('o \<Rightarrow> 'o) list"
    and answer :: "'c \<Rightarrow> 'o \<Rightarrow> 'r"
    and meth :: "'c \<Rightarrow> 'o \<Rightarrow> 'r \<times> 'o"
  assumes meth_refuses: "refuse c x = Some r \<Longrightarrow> meth c x = (r, x)"
    and meth_body: "refuse c x = None \<Longrightarrow> meth c x = (let y = fold (\<lambda>w. w) (body c) x in (answer c y, y))"
    and refuse_stable: "w \<in> set (body c') \<Longrightarrow> refuse c (w x) = refuse c x"
begin

lemma refuse_fold: "set ws \<subseteq> set (body c') \<Longrightarrow> refuse c (fold (\<lambda>w. w) ws x) = refuse c x"
  by (induction ws arbitrary: x) (auto simp: refuse_stable)

text \<open>The thread that has the lock has made some of its writes on the object \<open>y\<close> of the history.\<close>

definition part_done :: "'o \<Rightarrow> ('o, 'c, 'r) locked \<Rightarrow> bool" where
  "part_done y s \<longleftrightarrow> (case lock_owner s of
       None \<Rightarrow> object_of s = y
     | Some i \<Rightarrow> (case stands_at s i of
           Locked_at c k \<Rightarrow> k \<le> length (body c) \<and> refuse c y = None \<and> object_of s = fold (\<lambda>w. w) (take k (body c)) y
         | _ \<Rightarrow> object_of s = y))"

definition thread_told :: "nat \<Rightarrow> 'c \<Rightarrow> 'o \<Rightarrow> ('o, 'c, 'r) locked \<Rightarrow> bool" where
  "thread_told i c y s \<longleftrightarrow> (case stands_at s i of
       Arrives c' \<Rightarrow> c' = c \<and> effects_of i s = []
     | Wants_lock c' \<Rightarrow> c' = c \<and> effects_of i s = [] \<and> refuse c y = None
     | Locked_at c' k \<Rightarrow> c' = c \<and> effects_of i s = []
     | Unlocks r \<Rightarrow> effects_of i s = [(i, c, r)]
     | Returned r \<Rightarrow> effects_of i s = [(i, c, r)])"

definition locked_inv :: "'o \<Rightarrow> (nat \<Rightarrow> 'c) \<Rightarrow> ('o, 'c, 'r) locked \<Rightarrow> bool" where
  "locked_inv x calls s \<longleftrightarrow> (\<forall>i. in_lock (stands_at s i) \<longleftrightarrow> lock_owner s = Some i) \<and>
     (\<exists>y. replay_calls meth (effects s) x = Some y \<and> part_done y s \<and> (\<forall>i. thread_told i (calls i) y s))"

lemma object_refuses:
  assumes "part_done y s"
  shows "refuse c (object_of s) = refuse c y"
proof (cases "lock_owner s")
  case (Some i)
  show ?thesis
  proof (cases "stands_at s i")
    case (Locked_at c' k)
    then show ?thesis using assms Some refuse_fold [OF set_take_subset] by (simp add: part_done_def)
  qed (use assms Some in \<open>simp_all add: part_done_def\<close>)
qed (use assms in \<open>simp add: part_done_def\<close>)

text \<open>
  The history \<open>replays\<close> to the object of the invariant, which every thread agrees with. A step of thread \<open>i\<close>
  keeps it if it adds nothing to the history, or the call of the thread with the answer it has there.
\<close>

definition replays :: "'o \<Rightarrow> (nat \<Rightarrow> 'c) \<Rightarrow> 'o \<Rightarrow> ('o, 'c, 'r) locked \<Rightarrow> bool" where
  "replays x calls y s \<longleftrightarrow> (\<forall>i. in_lock (stands_at s i) \<longleftrightarrow> lock_owner s = Some i) \<and>
     replay_calls meth (effects s) x = Some y \<and> part_done y s \<and> (\<forall>i. thread_told i (calls i) y s)"

lemma locked_inv_replays: "locked_inv x calls s \<longleftrightarrow> (\<exists>y. replays x calls y s)"
  by (auto simp: locked_inv_def replays_def)

lemma replays_next:
  assumes inv: "replays x calls y s" and s': "stands_at s' = (stands_at s)(i := p)"
    and lock: "in_lock p \<longleftrightarrow> lock_owner s' = Some i" "\<And>j. j \<noteq> i \<Longrightarrow> lock_owner s' = Some j \<longleftrightarrow> lock_owner s = Some j"
    and hist: "effects s' = effects s \<and> z = y \<or> (\<exists>r. effects s' = effects s @ [(i, calls i, r)] \<and> meth (calls i) y = (r, z))"
    and z: "\<And>c. refuse c z = refuse c y" "part_done z s'" "thread_told i (calls i) z s'"
  shows "locked_inv x calls s'"
proof -
  have "replay_calls meth (effects s') x = Some z"
    using hist inv by (auto simp: replays_def replay_calls_append)
  moreover have "thread_told j (calls j) z s'" for j
  proof (cases "j = i")
    case False
    moreover have "effects_of j s' = effects_of j s" using hist False by (auto simp: effects_of_def)
    moreover have "thread_told j (calls j) y s" using inv by (simp add: replays_def)
    ultimately show ?thesis using z(1) s' by (simp add: thread_told_def split: lock_pc.splits)
  qed (use z(3) in simp)
  moreover have "in_lock (stands_at s' j) \<longleftrightarrow> lock_owner s' = Some j" for j
    using inv lock s' by (cases "j = i") (simp_all add: replays_def)
  ultimately show ?thesis using z(2) unfolding locked_inv_replays replays_def by blast
qed

lemma locked_inv_step:
  assumes step: "locked_step refuse body answer s s'" and inv: "locked_inv x calls s"
  shows "locked_inv x calls s'"
proof -
  obtain y where y: "replays x calls y s" using inv by (auto simp: locked_inv_replays)
  then have own: "in_lock (stands_at s i) \<longleftrightarrow> lock_owner s = Some i" and told: "thread_told i (calls i) y s"
    and part: "part_done y s" for i by (simp_all add: replays_def)
  note stable = object_refuses [OF part]
  note told_defs = effects_of_def thread_told_def
  from step show ?thesis
  proof cases
    case (step_refuse i c r)
    then have "calls i = c" "meth c y = (r, y)" "part_done y s'"
      using told [of i] own [of i] part meth_refuses stable
      by (auto simp: thread_told_def part_done_def split: option.splits lock_pc.splits)
    then show ?thesis using step_refuse own [of i] told [of i]
      by (intro replays_next [OF y, of s' i "Returned r" y]) (auto simp: told_defs)
  next
    case (step_pass i c)
    then have "part_done y s'" using part own [of i] by (auto simp: part_done_def split: option.splits lock_pc.splits)
    then show ?thesis using step_pass own [of i] told [of i] stable
      by (intro replays_next [OF y, of s' i "Wants_lock c" y]) (auto simp: told_defs)
  next
    case (step_lock i c)
    then have "part_done y s'" using part told [of i] by (simp add: part_done_def thread_told_def)
    then show ?thesis using step_lock told [of i]
      by (intro replays_next [OF y, of s' i "Locked_at c 0" y]) (auto simp: told_defs)
  next
    case (step_write i c k)
    then have "lock_owner s = Some i" "part_done y s'"
      using own [of i] part by (auto simp: part_done_def take_Suc_conv_app_nth)
    then show ?thesis using step_write told [of i]
      by (intro replays_next [OF y, of s' i "Locked_at c (Suc k)" y]) (auto simp: told_defs)
  next
    case (step_answer i c k r)
    then have owner: "lock_owner s = Some i" "calls i = c" using own [of i] told [of i] by (simp_all add: thread_told_def)
    then have "refuse c y = None" "object_of s = fold (\<lambda>w. w) (body c) y"
      using part step_answer by (simp_all add: part_done_def)
    then have "meth c y = (r, object_of s)" using meth_body [of c y] step_answer(4) by (simp add: Let_def)
    then show ?thesis using step_answer owner told [of i] stable
      by (intro replays_next [OF y, of s' i "Unlocks r" "object_of s"]) (auto simp: told_defs part_done_def)
  next
    case (step_unlock i r)
    then have "lock_owner s = Some i" "part_done y s'" using own [of i] part by (simp_all add: part_done_def)
    then show ?thesis using step_unlock told [of i]
      by (intro replays_next [OF y, of s' i "Returned r" y]) (auto simp: told_defs)
  qed
qed

lemma locked_run_inv: "locked_run refuse body answer x calls s \<Longrightarrow> locked_inv x calls s"
proof (induction rule: locked_run.induct)
  case locked_start
  show ?case by (simp add: locked_inv_def part_done_def thread_told_def effects_of_def)
qed (rule locked_inv_step)

text \<open>Each call takes effect once, between its start and its return, with the answer of the method as one step.\<close>

lemma linearizable:
  assumes "locked_run refuse body answer x calls s"
  shows "\<exists>y. replay_calls meth (effects s) x = Some y \<and> (lock_owner s = None \<longrightarrow> object_of s = y)"
    and "stands_at s i = Returned r \<Longrightarrow> effects_of i s = [(i, calls i, r)]"
    and "in_lock (stands_at s i) \<Longrightarrow> in_lock (stands_at s j) \<Longrightarrow> i = j"
proof -
  note inv = locked_run_inv [OF assms, unfolded locked_inv_def]
  then show "\<exists>y. replay_calls meth (effects s) x = Some y \<and> (lock_owner s = None \<longrightarrow> object_of s = y)"
    by (auto simp: part_done_def)
  have "thread_told i (calls i) y s" if "\<forall>i. thread_told i (calls i) y s" for y using that by blast
  then show "stands_at s i = Returned r \<Longrightarrow> effects_of i s = [(i, calls i, r)]"
    using inv by (auto simp: thread_told_def)
  show "in_lock (stands_at s i) \<Longrightarrow> in_lock (stands_at s j) \<Longrightarrow> i = j" using inv by auto
qed

text \<open>
  As long as a thread is between its call and its return, one that is can make a step: this thread, or the
  one it waits for.
\<close>

lemma inside_moves:
  assumes inv: "locked_inv x calls s" and j: "in_lock (stands_at s j)"
  shows "\<exists>s'. locked_step refuse body answer s s' \<and> stands_at s' j \<noteq> stands_at s j"
proof (cases "stands_at s j")
  case (Locked_at c k)
  then have "lock_owner s = Some j" using inv j by (auto simp: locked_inv_def)
  then have le: "k \<le> length (body c)" using inv Locked_at by (auto simp: locked_inv_def part_done_def)
  show ?thesis
  proof (cases "k < length (body c)")
    case True
    then show ?thesis using step_write [OF Locked_at] Locked_at by fastforce
  next
    case False
    then show ?thesis using step_answer [OF Locked_at _ refl] Locked_at le by fastforce
  qed
next
  case (Unlocks r)
  then show ?thesis using step_unlock [OF Unlocks] by fastforce
qed (use j in simp_all)

lemma locked_moves:
  assumes "locked_run refuse body answer x calls s" "in_call (stands_at s i)"
  shows "\<exists>j s'. in_call (stands_at s j) \<and> locked_step refuse body answer s s' \<and> stands_at s' j \<noteq> stands_at s j"
proof -
  have inv: "locked_inv x calls s" by (rule locked_run_inv [OF assms(1)])
  have inside: ?thesis if "in_lock (stands_at s j)" for j
    using inside_moves [OF inv that] in_lock_in_call [OF that] by blast
  show ?thesis
  proof (cases "stands_at s i")
    case (Wants_lock c)
    show ?thesis
    proof (cases "lock_owner s")
      case None
      then show ?thesis using step_lock [OF Wants_lock] Wants_lock by (intro exI [of _ i]) fastforce
    next
      case (Some j)
      then have "in_lock (stands_at s j)" using inv by (simp add: locked_inv_def)
      then show ?thesis by (rule inside)
    qed
  qed (use inside [of i] assms(2) in auto)
qed

text \<open>An invariant of the methods holds of the object of every history, so of every answer.\<close>

lemma replay_invariant:
  assumes "P x" "\<And>c x. P x \<Longrightarrow> P (snd (meth c x))"
  shows "replay_calls meth h x = Some y \<Longrightarrow> P y \<and> (\<forall>(i, c, r) \<in> set h. \<exists>z. P z \<and> fst (meth c z) = r)"
  using assms(1)
proof (induction h arbitrary: x)
  case (Cons e h)
  obtain i c r where e: "e = (i, c, r)" by (cases e)
  obtain q z where z: "meth c x = (q, z)" by (cases "meth c x")
  have "q = r" "replay_calls meth h z = Some y" using Cons.prems(1) by (auto simp: e z split: if_splits)
  moreover have "P z" using assms(2) [OF Cons.prems(2), of c] by (simp add: z)
  ultimately show ?case using Cons.IH [of z] Cons.prems(2) z e by auto
qed simp

end

end
