(* ===== verification/EventThreads.thy ===== *)
theory EventThreads
  imports CpuRuntimes MutexObjects
begin

text \<open>
  The CPU event of \<open>backend/cpu/runtime.cc\<close> with threads: the steps of its methods around \<open>mutex_\<close>, the two
  writes of \<open>record\<close> one after the other, in any interleaving; and that the event behaves like the methods
  of \<open>CpuRuntimes\<close> called one after the other.
\<close>

section \<open>The methods around the lock\<close>

datatype event_reply = Event_status Status | Event_result "bool Result"

text \<open>What \<open>record\<close> and \<open>wait\<close> check before they take the lock; \<open>device_\<close> is never written.\<close>

fun cpu_event_refuse :: "event_call \<Rightarrow> CpuEvent \<Rightarrow> event_reply option" where
  "cpu_event_refuse (Record stream) e =
     (if \<not> stream_valid stream \<or> stream_device stream \<noteq> cpu_event_device e
      then Some (Event_status (status_invalid_argument
        ''cannot record a CPU event on a stream from another device'' (cpu_loc 29)))
      else None)"
| "cpu_event_refuse (Wait stream) e =
     (if \<not> stream_valid stream \<or> stream_device stream \<noteq> cpu_event_device e
      then Some (Event_status (status_invalid_argument
        ''cannot wait for a CPU event on a stream from another device'' (cpu_loc 59)))
      else None)"
| "cpu_event_refuse Query e = None"
| "cpu_event_refuse Synchronize e = None"

fun cpu_event_writes :: "event_call \<Rightarrow> (CpuEvent \<Rightarrow> CpuEvent) list" where
  "cpu_event_writes (Record stream) =
     [\<lambda>e. e\<lparr>cpu_event_recorded := True\<rparr>, \<lambda>e. e\<lparr>cpu_event_completed := True\<rparr>]"
| "cpu_event_writes _ = []"

fun cpu_event_answer :: "event_call \<Rightarrow> CpuEvent \<Rightarrow> event_reply" where
  "cpu_event_answer (Record stream) e = Event_status Status_default"
| "cpu_event_answer Query e = Event_result
     (if \<not> cpu_event_recorded e
      then result_of_status (status_error kFailedPrecondition
        ''cannot query an event before it is recorded'' (cpu_loc 42))
      else result_of_value (cpu_event_completed e))"
| "cpu_event_answer Synchronize e = Event_status
     (if \<not> cpu_event_recorded e
      then status_error kFailedPrecondition
        ''cannot synchronize an event before it is recorded'' (cpu_loc 51)
      else Status_default)"
| "cpu_event_answer (Wait stream) e = Event_status
     (if \<not> cpu_event_recorded e
      then status_error kFailedPrecondition
        ''cannot wait for an event before it is recorded'' (cpu_loc 65)
      else Status_default)"

text \<open>The methods as one step each.\<close>

fun event_method :: "event_call \<Rightarrow> CpuEvent \<Rightarrow> event_reply \<times> CpuEvent" where
  "event_method (Record s) e = (case cpu_event_record s e of (st, e') \<Rightarrow> (Event_status st, e'))"
| "event_method Query e = (Event_result (cpu_event_query e), e)"
| "event_method Synchronize e = (Event_status (cpu_event_synchronize e), e)"
| "event_method (Wait s) e = (Event_status (cpu_event_wait s e), e)"

definition event_threads :: "Device \<Rightarrow> (nat \<Rightarrow> event_call) \<Rightarrow> (CpuEvent, event_call, event_reply) locked \<Rightarrow> bool" where
  "event_threads d = locked_run cpu_event_refuse cpu_event_writes cpu_event_answer (CpuEvent_ctor d)"

interpretation locked_event: mutex_object cpu_event_refuse cpu_event_writes cpu_event_answer event_method
proof
  fix c x r
  show "cpu_event_refuse c x = Some r \<Longrightarrow> event_method c x = (r, x)"
    by (cases c) (auto simp: cpu_event_record_def cpu_event_wait_def split: if_splits)
next
  fix c x
  show "cpu_event_refuse c x = None \<Longrightarrow>
      event_method c x = (let y = fold (\<lambda>w. w) (cpu_event_writes c) x in (cpu_event_answer c y, y))"
    by (cases c) (auto simp: cpu_event_record_def cpu_event_wait_def cpu_event_query_def
      cpu_event_synchronize_def Let_def split: if_splits)
next
  fix w c' c and x :: CpuEvent
  show "w \<in> set (cpu_event_writes c') \<Longrightarrow> cpu_event_refuse c (w x) = cpu_event_refuse c x"
    by (cases c'; cases c) auto
qed

lemma method_keeps:
  "cpu_event_recorded e = cpu_event_completed e \<Longrightarrow>
    cpu_event_recorded (snd (event_method c e)) = cpu_event_completed (snd (event_method c e))"
  by (cases c) (auto simp: cpu_event_record_def)

lemma method_never_false:
  assumes "cpu_event_recorded e = cpu_event_completed e"
  shows "fst (event_method c e) \<noteq> Event_result (Holds False)"
proof (cases c)
  case Query
  then show ?thesis using assms by (cases "cpu_event_recorded e") (simp_all add: cpu_event_query_def result_of_value_def)
qed (simp_all split: prod.split)

text \<open>C25: A CPU event used by any number of threads, each of which makes one call, in any interleaving of the
  steps around its mutex: the calls take effect one after the other, each with the status or result that
  the sequential method gives at that point; a call that has returned is in that history exactly once,
  with the answer it got; whenever the mutex is free the event is what the history makes of it; only one
  thread is inside; \<open>query\<close> never answers false, so nobody sees the event between the two writes of
  \<open>record\<close>; and as long as a thread is in its call (it has passed the checks before the lock and not returned),
  a thread that is in its call can make a step, so the threads in a call never all wait (no deadlock).\<close>

theorem event_linearizable:
  assumes "event_threads d calls s"
  shows "(\<exists>e. replay_calls event_method (effects s) (CpuEvent_ctor d) = Some e \<and> (lock_owner s = None \<longrightarrow> object_of s = e)) \<and>
    (\<forall>i r. stands_at s i = Returned r \<longrightarrow> effects_of i s = [(i, calls i, r)] \<and> r \<noteq> Event_result (Holds False)) \<and>
    (\<forall>i j. in_lock (stands_at s i) \<and> in_lock (stands_at s j) \<longrightarrow> i = j) \<and>
    (\<forall>i. in_call (stands_at s i) \<longrightarrow> (\<exists>j s'. in_call (stands_at s j) \<and>
      locked_step cpu_event_refuse cpu_event_writes cpu_event_answer s s' \<and> stands_at s' j \<noteq> stands_at s j))"
proof -
  note run = assms [unfolded event_threads_def]
  note lin = locked_event.linearizable [OF run]
  obtain e where e: "replay_calls event_method (effects s) (CpuEvent_ctor d) = Some e" using lin(1) by blast
  let ?P = "\<lambda>e. cpu_event_recorded e = cpu_event_completed e"
  have "?P (CpuEvent_ctor d)" by (simp add: CpuEvent_ctor_def)
  note told = locked_event.replay_invariant [of ?P, OF this method_keeps e]
  have "r \<noteq> Event_result (Holds False)" if "stands_at s i = Returned r" for i r
  proof -
    have "(i, calls i, r) \<in> set (effects_of i s)" using lin(2) [OF that] by simp
    then have "(i, calls i, r) \<in> set (effects s)" by (simp add: effects_of_def)
    from bspec [OF conjunct2 [OF told] this]
    have "\<exists>z. ?P z \<and> fst (event_method (calls i) z) = r" by (simp only: prod.case)
    then obtain z where "?P z" "fst (event_method (calls i) z) = r" by (elim exE conjE)
    then show ?thesis using method_never_false by blast
  qed
  then have "\<forall>i r. stands_at s i = Returned r \<longrightarrow> effects_of i s = [(i, calls i, r)] \<and> r \<noteq> Event_result (Holds False)"
    using lin(2) by blast
  moreover have "\<forall>i j. in_lock (stands_at s i) \<and> in_lock (stands_at s j) \<longrightarrow> i = j" using lin(3) by blast
  moreover have "\<forall>i. in_call (stands_at s i) \<longrightarrow> (\<exists>j s'. in_call (stands_at s j) \<and>
      locked_step cpu_event_refuse cpu_event_writes cpu_event_answer s s' \<and> stands_at s' j \<noteq> stands_at s j)"
    using locked_event.locked_moves [OF run] by blast
  ultimately show ?thesis using lin(1) by blast
qed

text \<open>One thread records, another queries.\<close>

definition record_and_query :: "nat \<Rightarrow> event_call" where
  "record_and_query i = (if i = 0 then Record (Stream_ctor cpu0 0 True) else Query)"

theorem event_linearizable_witness:
  "\<exists>s. event_threads cpu0 record_and_query s \<and> stands_at s 0 = Locked_at (Record (Stream_ctor cpu0 0 True)) 1 \<and>
    stands_at s 1 = Wants_lock Query \<and> (\<forall>j. in_lock (stands_at s j) \<longrightarrow> j = 0) \<and>
    (\<exists>j s'. in_call (stands_at s j) \<and>
      locked_step cpu_event_refuse cpu_event_writes cpu_event_answer s s' \<and> stands_at s' j \<noteq> stands_at s j)"
proof -
  let ?c = "Record (Stream_ctor cpu0 0 True)"
  let ?s0 = "\<lparr>object_of = CpuEvent_ctor cpu0, lock_owner = None, stands_at = (\<lambda>i. Arrives (record_and_query i)),
    effects = []\<rparr> :: (CpuEvent, event_call, event_reply) locked"
  let ?s1 = "?s0\<lparr>stands_at := (stands_at ?s0)(0 := Wants_lock ?c)\<rparr>"
  let ?s2 = "?s1\<lparr>stands_at := (stands_at ?s1)(1 := Wants_lock Query)\<rparr>"
  let ?s3 = "?s2\<lparr>stands_at := (stands_at ?s2)(0 := Locked_at ?c 0), lock_owner := Some 0\<rparr>"
  let ?s4 = "?s3\<lparr>stands_at := (stands_at ?s3)(0 := Locked_at ?c (Suc 0)), object_of := (cpu_event_writes ?c ! 0) (object_of ?s3)\<rparr>"
  have "event_threads cpu0 record_and_query ?s0" unfolding event_threads_def by (rule locked_start)
  then have "event_threads cpu0 record_and_query ?s1" unfolding event_threads_def
    by (rule locked_next, intro step_pass) (simp_all add: record_and_query_def CpuEvent_ctor_def Stream_ctor_def)
  then have "event_threads cpu0 record_and_query ?s2" unfolding event_threads_def
    by (rule locked_next, intro step_pass) (simp_all add: record_and_query_def)
  then have "event_threads cpu0 record_and_query ?s3" unfolding event_threads_def
    by (rule locked_next, intro step_lock) simp_all
  then have run: "event_threads cpu0 record_and_query ?s4" unfolding event_threads_def
    by (rule locked_next, intro step_write) simp_all
  moreover have "stands_at ?s4 0 = Locked_at ?c 1" "stands_at ?s4 1 = Wants_lock Query" by simp_all
  ultimately obtain s where s: "event_threads cpu0 record_and_query s" "stands_at s 0 = Locked_at ?c 1"
    "stands_at s 1 = Wants_lock Query" by blast
  note facts = event_linearizable [OF s(1)]
  have "\<forall>j. in_lock (stands_at s j) \<longrightarrow> j = 0"
    using facts s(2) in_lock.simps(1) by metis
  moreover have "in_call (stands_at s 1)" using s(3) by simp
  ultimately show ?thesis using facts s by blast
qed

end
