(* ===== verification/Registries.thy ===== *)
theory Registries
  imports CpuRuntimes
begin

text \<open>
  \<open>runtime/registry.h\<close>, \<open>src/runtime/registry.cc\<close>, the registrations of \<open>backend/cpu/runtime.cc\<close>, and the
  error boundary of \<open>backend/cuda\<close>.
\<close>

section \<open>The registry\<close>

text \<open>
  A runtime behind a \<open>shared_ptr<Runtime>\<close>: the CPU runtime of the sources or another class of the
  client's, with its identity; \<open>device_type()\<close> is virtual. A null pointer is \<open>None\<close>.
\<close>

datatype Runtime = Cpu_runtime nat | Client_runtime nat DeviceType

fun device_type :: "Runtime \<Rightarrow> DeviceType" where
  "device_type (Cpu_runtime i) = cpu_device_type"
| "device_type (Client_runtime i type) = type"

record RuntimeRegistry =
  runtimes :: "DeviceType \<rightharpoonup> Runtime"

definition RuntimeRegistry_default :: RuntimeRegistry where
  "RuntimeRegistry_default = \<lparr>runtimes = Map.empty\<rparr>"

abbreviation registry_loc :: "u32 \<Rightarrow> source_location" where
  "registry_loc l \<equiv> loc ''src/runtime/registry.cc'' l"

text \<open>
  The map is read and written under the mutex, exclusive in \<open>register_runtime\<close> and shared in \<open>get\<close>, so a
  call is one step here; \<open>RegistryThreads\<close> takes it apart and shows that this is enough.
\<close>

definition register_runtime :: "Runtime option \<Rightarrow> RuntimeRegistry \<Rightarrow> Status \<times> RuntimeRegistry" where
  "register_runtime runtime registry =
     (case runtime of
        None \<Rightarrow> (status_invalid_argument ''cannot register a null runtime'' (registry_loc 10), registry)
      | Some r \<Rightarrow>
          let type = device_type r
          in if \<not> is_valid_device_type type
             then (status_invalid_argument ''runtime reports an invalid device type'' (registry_loc 15),
                   registry)
             else if runtimes registry type \<noteq> None
             then (status_error kAlreadyExists ''a runtime is already registered for this device type''
                     (registry_loc 20), registry)
             else (Status_default, registry\<lparr>runtimes := (runtimes registry)(type \<mapsto> r)\<rparr>))"

definition get_runtime :: "DeviceType \<Rightarrow> RuntimeRegistry \<Rightarrow> Runtime Result" where
  "get_runtime type registry =
     (if \<not> is_valid_device_type type
      then result_of_status (status_invalid_argument ''cannot query an invalid device type'' (registry_loc 29))
      else case runtimes registry type of
        None \<Rightarrow> result_of_status
          (status_unavailable ''no runtime is registered for this device type'' (registry_loc 35))
      | Some r \<Rightarrow> result_of_value r)"

text \<open>\<open>i\<close> is the identity of the object \<open>std::make_shared<CpuRuntime>()\<close> makes.\<close>

definition register_cpu_runtime :: "nat \<Rightarrow> RuntimeRegistry \<Rightarrow> Status \<times> RuntimeRegistry" where
  "register_cpu_runtime i registry = register_runtime (Some (Cpu_runtime i)) registry"

definition register_builtin_runtimes :: "nat \<Rightarrow> RuntimeRegistry \<Rightarrow> Status \<times> RuntimeRegistry" where
  "register_builtin_runtimes i registry = register_cpu_runtime i registry"

text \<open>The function-local statics are initialised by the first call; \<open>None\<close> before it.\<close>

definition default_runtime_registry ::
  "nat \<Rightarrow> RuntimeRegistry option \<Rightarrow> RuntimeRegistry \<times> RuntimeRegistry option" where
  "default_runtime_registry i static =
     (case static of
        Some registry \<Rightarrow> (registry, Some registry)
      | None \<Rightarrow> let registry = snd (register_builtin_runtimes i RuntimeRegistry_default)
                in (registry, Some registry))"

section \<open>The contract of a registry\<close>

text \<open>A sequence of registrations, with the status each returns: any interleaving of several threads'.\<close>

primrec registrations ::
  "('r option \<Rightarrow> 'g \<Rightarrow> Status \<times> 'g) \<Rightarrow> 'r option list \<Rightarrow> 'g \<Rightarrow> Status list \<times> 'g" where
  "registrations reg [] g = ([], g)"
| "registrations reg (r # rs) g =
     (case reg r g of (st, g') \<Rightarrow> case registrations reg rs g' of (sts, g'') \<Rightarrow> (st # sts, g''))"

text \<open>A registration of a runtime of a type.\<close>

definition offers :: "('r \<Rightarrow> DeviceType) \<Rightarrow> DeviceType \<Rightarrow> 'r option \<Rightarrow> bool" where
  "offers type_of ty x \<longleftrightarrow> (case x of None \<Rightarrow> False | Some r \<Rightarrow> type_of r = ty)"

locale registry_interface =
  fixes type_of :: "'r \<Rightarrow> DeviceType"
    and reg :: "'r option \<Rightarrow> 'g \<Rightarrow> Status \<times> 'g"
    and lookup :: "DeviceType \<Rightarrow> 'g \<Rightarrow> 'r Result"
  assumes reg_null: "reg None g = (st, g') \<Longrightarrow> \<not> status_ok st \<and> g' = g"
    and reg_ok: "reg (Some r) g = (st, g') \<Longrightarrow>
      status_ok st \<longleftrightarrow> is_valid_device_type (type_of r) \<and> \<not> result_ok (lookup (type_of r) g)"
    and reg_refused: "reg x g = (st, g') \<Longrightarrow> \<not> status_ok st \<Longrightarrow> g' = g"
    and lookup_reg: "reg (Some r) g = (st, g') \<Longrightarrow> status_ok st \<Longrightarrow>
      lookup ty g' = (if ty = type_of r then Holds r else lookup ty g)"
    and lookup_invalid: "\<not> is_valid_device_type ty \<Longrightarrow> \<not> result_ok (lookup ty g)"
begin

lemma reg_other:
  assumes "reg x g = (st, g')" "\<not> offers type_of ty x"
  shows "lookup ty g' = lookup ty g"
proof (cases "status_ok st")
  case True
  then obtain r where "x = Some r" using assms(1) reg_null [of g st g'] by (cases x) auto
  then show ?thesis using lookup_reg [of r g st g' ty] assms True by (simp add: offers_def)
next
  case False
  then show ?thesis using reg_refused [OF assms(1)] by simp
qed

lemma reg_first:
  assumes "reg x g = (st, g')" "offers type_of ty x" "is_valid_device_type ty"
  shows "if result_ok (lookup ty g) then \<not> status_ok st \<and> lookup ty g' = lookup ty g
    else status_ok st \<and> (\<exists>r. x = Some r \<and> lookup ty g' = Holds r)"
proof -
  obtain r where r: "x = Some r" "type_of r = ty" using assms(2) by (auto simp: offers_def split: option.splits)
  then show ?thesis
    using assms(1,3) reg_ok [of r g st g'] reg_refused [of x g st g'] lookup_reg [of r g st g' ty] by auto
qed

text \<open>Of the registrations that offer a type the first one wins, and only it is told so.\<close>

lemma registrations_first:
  assumes "is_valid_device_type ty"
  shows "\<not> result_ok (lookup ty g) \<Longrightarrow> registrations reg xs g = (sts, g') \<Longrightarrow>
    (case find (offers type_of ty) xs of None \<Rightarrow> lookup ty g' = lookup ty g | Some x \<Rightarrow> \<exists>r. x = Some r \<and> lookup ty g' = Holds r) \<and>
    length (filter (\<lambda>(x, st). offers type_of ty x \<and> status_ok st) (zip xs sts)) =
      (if \<exists>x \<in> set xs. offers type_of ty x then 1 else 0)"
    and "result_ok (lookup ty g) \<Longrightarrow> registrations reg xs g = (sts, g') \<Longrightarrow>
      lookup ty g' = lookup ty g \<and> filter (\<lambda>(x, st). offers type_of ty x \<and> status_ok st) (zip xs sts) = []"
proof (induction xs arbitrary: g sts)
  case Nil
  { case 1 then show ?case by simp }
  { case 2 then show ?case by simp }
next
  case (Cons x xs)
  { case 1
    obtain st g1 sts1 g2 where s: "reg x g = (st, g1)" "registrations reg xs g1 = (sts1, g2)"
      by (metis surj_pair)
    from 1 have e: "sts = st # sts1" "g2 = g'" by (simp_all add: s)
    show ?case
    proof (cases "offers type_of ty x")
      case True
      with reg_first [OF s(1) True assms] 1 obtain r where
        "status_ok st" "x = Some r" "lookup ty g1 = Holds r" by auto
      then show ?thesis using Cons.IH(2) [of g1 sts1] s(2) e True by auto
    next
      case False
      note same = reg_other [OF s(1) False]
      have "\<not> result_ok (lookup ty g1)" using 1(1) unfolding same .
      note IH = Cons.IH(1) [OF this s(2) [unfolded e(2)], unfolded same]
      show ?thesis using IH False e by simp
    qed }
  { case 2
    obtain st g1 sts1 g2 where s: "reg x g = (st, g1)" "registrations reg xs g1 = (sts1, g2)"
      by (metis surj_pair)
    from 2 have e: "sts = st # sts1" "g2 = g'" by (simp_all add: s)
    have "lookup ty g1 = lookup ty g \<and> \<not> (offers type_of ty x \<and> status_ok st)"
      using reg_first [OF s(1) _ assms] reg_other [OF s(1)] 2 by (cases "offers type_of ty x") auto
    then show ?case using Cons.IH(2) [of g1 sts1] s(2) e 2 by auto }
qed

end

section \<open>The registry of the sources keeps it\<close>

interpretation runtime_registry: registry_interface device_type register_runtime get_runtime
  by unfold_locales
    (auto simp: register_runtime_def get_runtime_def Let_def result_of_value_def
      split: if_splits option.splits)

text \<open>C28: The registry over any sequence of registrations (any interleaving of the threads that make them):
  for a valid device type, \<open>get\<close> finds the first runtime that was registered for it, and reports
  Unavailable when there was none; exactly one registration for the type succeeded in the first
  case and none in the second. An invalid type is refused as InvalidArgument.\<close>

theorem registry_first_wins:
  "case registrations register_runtime xs RuntimeRegistry_default of (sts, g) \<Rightarrow>
    (if \<not> is_valid_device_type ty
     then (\<exists>st. get_runtime ty g = Fails st \<and> st_code st = kInvalidArgument)
     else case find (offers device_type ty) xs of
       None \<Rightarrow> (\<exists>st. get_runtime ty g = Fails st \<and> st_code st = kUnavailable) \<and>
         length (filter (\<lambda>(x, st). offers device_type ty x \<and> status_ok st) (zip xs sts)) = 0
     | Some x \<Rightarrow> (\<exists>r. x = Some r \<and> get_runtime ty g = Holds r) \<and>
         length (filter (\<lambda>(x, st). offers device_type ty x \<and> status_ok st) (zip xs sts)) = 1)"
proof (cases "registrations register_runtime xs RuntimeRegistry_default")
  case (Pair sts g)
  show ?thesis
  proof (cases "is_valid_device_type ty")
    case False
    then show ?thesis using Pair by (simp add: get_runtime_def)
  next
    case True
    have none: "get_runtime ty RuntimeRegistry_default =
        Fails (status_unavailable ''no runtime is registered for this device type'' (registry_loc 35))"
      using True by (simp add: get_runtime_def RuntimeRegistry_default_def)
    then have "\<not> result_ok (get_runtime ty RuntimeRegistry_default)" by simp
    note f = runtime_registry.registrations_first(1) [OF True this Pair]
    show ?thesis
    proof (cases "find (offers device_type ty) xs")
      case None
      then have "\<not> (\<exists>x \<in> set xs. offers device_type ty x)" by (simp add: find_None_iff)
      then show ?thesis using f Pair None none True by simp
    next
      case (Some x)
      then have "\<exists>x \<in> set xs. offers device_type ty x" by (auto simp: find_Some_iff)
      then show ?thesis using f Pair Some True by simp
    qed
  qed
qed

text \<open>The default registry has the CPU runtime and no other: every call returns the same registry, in
  which kCPU is found, CUDA (and every other valid type) is Unavailable, and registering the CPU
  runtime again is refused as AlreadyExists.\<close>

theorem default_registry_contents:
  "case default_runtime_registry i None of (g, static) \<Rightarrow>
     default_runtime_registry j static = (g, static) \<and>
     get_runtime kCPU g = Holds (Cpu_runtime i) \<and> device_type (Cpu_runtime i) = kCPU \<and>
     (is_valid_device_type ty \<and> ty \<noteq> kCPU \<longleftrightarrow>
        (\<exists>st. get_runtime ty g = Fails st \<and> st_code st = kUnavailable)) \<and>
     (\<exists>st. register_cpu_runtime j g = (st, g) \<and> st_code st = kAlreadyExists)"
  by (auto simp: default_runtime_registry_def register_builtin_runtimes_def register_cpu_runtime_def
      register_runtime_def get_runtime_def RuntimeRegistry_default_def cpu_device_type_def Let_def
      is_valid_device_type_def result_of_value_def)

section \<open>The CUDA error boundary\<close>

text \<open>
  The CUDA toolkit is not part of the sources: its success code, the names and texts of its errors and
  its version are parameters.
\<close>

definition cuda_status ::
  "'err \<Rightarrow> ('err \<Rightarrow> string) \<Rightarrow> ('err \<Rightarrow> string) \<Rightarrow> 'err \<Rightarrow> string \<Rightarrow> Device \<Rightarrow> source_location \<Rightarrow> Status" where
  "cuda_status cudaSuccess cudaGetErrorName cudaGetErrorString error api device location =
     (if error = cudaSuccess then Status_default
      else status_error kInternal
        (''CUDA API '' @ api @ '' failed on '' @ device_str device @ '' ('' @ cudaGetErrorName error @ ''): ''
          @ cudaGetErrorString error) location)"

definition toolkit_runtime_version :: "i32 \<Rightarrow> i32" where
  "toolkit_runtime_version CUDART_VERSION = CUDART_VERSION"

definition verify_toolkit_boundary ::
  "'err \<Rightarrow> ('err \<Rightarrow> string) \<Rightarrow> ('err \<Rightarrow> string) \<Rightarrow> Status outcome" where
  "verify_toolkit_boundary cudaSuccess cudaGetErrorName cudaGetErrorString =
     bnd (device_ctor kCUDA kDefaultDeviceIndex) (\<lambda>device.
       Returns (cuda_status cudaSuccess cudaGetErrorName cudaGetErrorString cudaSuccess ''cudaSuccess'' device
         (loc ''backend/cuda/toolkit.cc'' 13)))"

text \<open>A CUDA error is never lost and success is never an error: \<open>cuda_status\<close> is OK exactly for the success
  code, and otherwise an Internal error whose message names the call, the device in a form that
  \<open>Device::parse\<close> reads back, and the error; the toolkit self-check succeeds.\<close>

theorem cuda_status_correct:
  "(status_ok (cuda_status ok name text error api device l) \<longleftrightarrow> error = ok) \<and>
   (error = ok \<or> st_code (cuda_status ok name text error api device l) = kInternal \<and>
      (\<exists>dev. st_message (cuda_status ok name text error api device l) =
        ''CUDA API '' @ api @ '' failed on '' @ dev @ '' ('' @ name error @ ''): '' @ text error \<and>
        (device_parse dev = Returns (Holds device) \<longleftrightarrow> device_valid device))) \<and>
   (\<exists>st. verify_toolkit_boundary ok name text = Returns st \<and> status_ok st)"
  using device_text_roundtrip_iff [of device]
  by (auto simp: cuda_status_def status_error_def verify_toolkit_boundary_def device_ctor_def
      is_valid_device_type_def kDefaultDeviceIndex_def word_sless_alt status_ok_def Status_default_def)

end
