(* ===== verification/RegistryThreads.thy ===== *)
theory RegistryThreads
  imports Registries
begin

text \<open>
  The registry of \<open>runtime/registry.h\<close> with threads: the steps of \<open>register_runtime\<close> and \<open>get\<close> around the
  shared mutex, in any interleaving, and that every call takes effect at one point between its start and
  its return, so that the sequential theory \<open>Registries\<close> speaks about concurrent clients.
\<close>

section \<open>Calls and where a thread stands\<close>

datatype registry_call = Register "Runtime option" | Get DeviceType

datatype registry_reply = Registered Status | Got "Runtime Result"

datatype registry_pc =
    Called registry_call
  | Want_exclusive Runtime
  | Contains Runtime
  | Emplace Runtime
  | Want_shared DeviceType
  | Find DeviceType
  | Unlock_exclusive registry_reply
  | Unlock_shared registry_reply
  | Replied registry_reply

text \<open>
  \<open>exclusive\<close> is the thread that holds the mutex in a \<open>unique_lock\<close>, \<open>sharers\<close> those that hold it in a
  \<open>shared_lock\<close>. The history is not part of the program: it lists the calls in the order in which they
  took effect.
\<close>

record registry_state =
  registry_of :: RuntimeRegistry
  exclusive :: "nat option"
  sharers :: "nat set"
  stands :: "nat \<Rightarrow> registry_pc"
  history :: "(nat \<times> registry_call \<times> registry_reply) list"

definition goto :: "nat \<Rightarrow> registry_pc \<Rightarrow> registry_state \<Rightarrow> registry_state" where
  "goto i p s = s\<lparr>stands := (stands s)(i := p)\<rparr>"

definition effect_of :: "nat \<Rightarrow> registry_call \<Rightarrow> registry_reply \<Rightarrow> registry_state \<Rightarrow> registry_state" where
  "effect_of i c p s = s\<lparr>history := history s @ [(i, c, p)]\<rparr>"

definition contains_type :: "Runtime \<Rightarrow> registry_state \<Rightarrow> bool" where
  "contains_type r s \<longleftrightarrow> runtimes (registry_of s) (device_type r) \<noteq> None"

text \<open>\<open>emplace\<close> inserts unless the key is there.\<close>

definition emplace_runtime :: "Runtime \<Rightarrow> registry_state \<Rightarrow> registry_state" where
  "emplace_runtime r s =
     (if contains_type r s then s
      else s\<lparr>registry_of := (registry_of s)\<lparr>runtimes := (runtimes (registry_of s))(device_type r \<mapsto> r)\<rparr>\<rparr>)"

inductive registry_step :: "registry_state \<Rightarrow> registry_state \<Rightarrow> bool" where
  register_null: "stands s i = Called (Register None) \<Longrightarrow>
    p = Registered (status_invalid_argument ''cannot register a null runtime'' (registry_loc 10)) \<Longrightarrow>
    registry_step s (goto i (Replied p) (effect_of i (Register None) p s))"
| register_invalid: "stands s i = Called (Register (Some r)) \<Longrightarrow> \<not> is_valid_device_type (device_type r) \<Longrightarrow>
    p = Registered (status_invalid_argument ''runtime reports an invalid device type'' (registry_loc 15)) \<Longrightarrow>
    registry_step s (goto i (Replied p) (effect_of i (Register (Some r)) p s))"
| register_valid: "stands s i = Called (Register (Some r)) \<Longrightarrow> is_valid_device_type (device_type r) \<Longrightarrow>
    registry_step s (goto i (Want_exclusive r) s)"
| lock_exclusive: "stands s i = Want_exclusive r \<Longrightarrow> exclusive s = None \<Longrightarrow> sharers s = {} \<Longrightarrow>
    registry_step s (goto i (Contains r) (s\<lparr>exclusive := Some i\<rparr>))"
| contains_found: "stands s i = Contains r \<Longrightarrow> contains_type r s \<Longrightarrow>
    p = Registered (status_error kAlreadyExists ''a runtime is already registered for this device type''
      (registry_loc 20)) \<Longrightarrow>
    registry_step s (goto i (Unlock_exclusive p) (effect_of i (Register (Some r)) p s))"
| contains_missing: "stands s i = Contains r \<Longrightarrow> \<not> contains_type r s \<Longrightarrow>
    registry_step s (goto i (Emplace r) s)"
| emplace: "stands s i = Emplace r \<Longrightarrow> p = Registered Status_default \<Longrightarrow>
    registry_step s (goto i (Unlock_exclusive p) (effect_of i (Register (Some r)) p (emplace_runtime r s)))"
| unlock_exclusive: "stands s i = Unlock_exclusive p \<Longrightarrow>
    registry_step s (goto i (Replied p) (s\<lparr>exclusive := None\<rparr>))"
| get_invalid: "stands s i = Called (Get ty) \<Longrightarrow> \<not> is_valid_device_type ty \<Longrightarrow>
    p = Got (result_of_status (status_invalid_argument ''cannot query an invalid device type'' (registry_loc 29))) \<Longrightarrow>
    registry_step s (goto i (Replied p) (effect_of i (Get ty) p s))"
| get_valid: "stands s i = Called (Get ty) \<Longrightarrow> is_valid_device_type ty \<Longrightarrow>
    registry_step s (goto i (Want_shared ty) s)"
| lock_shared: "stands s i = Want_shared ty \<Longrightarrow> exclusive s = None \<Longrightarrow>
    registry_step s (goto i (Find ty) (s\<lparr>sharers := insert i (sharers s)\<rparr>))"
| find_missing: "stands s i = Find ty \<Longrightarrow> runtimes (registry_of s) ty = None \<Longrightarrow>
    p = Got (result_of_status (status_unavailable ''no runtime is registered for this device type'' (registry_loc 35))) \<Longrightarrow>
    registry_step s (goto i (Unlock_shared p) (effect_of i (Get ty) p s))"
| find_found: "stands s i = Find ty \<Longrightarrow> runtimes (registry_of s) ty = Some r \<Longrightarrow> p = Got (result_of_value r) \<Longrightarrow>
    registry_step s (goto i (Unlock_shared p) (effect_of i (Get ty) p s))"
| unlock_shared: "stands s i = Unlock_shared p \<Longrightarrow>
    registry_step s (goto i (Replied p) (s\<lparr>sharers := sharers s - {i}\<rparr>))"

text \<open>Thread \<open>i\<close> makes the call \<open>calls i\<close>.\<close>

inductive registry_run :: "(nat \<Rightarrow> registry_call) \<Rightarrow> registry_state \<Rightarrow> bool" for calls where
  registry_start: "registry_run calls \<lparr>registry_of = RuntimeRegistry_default, exclusive = None, sharers = {},
    stands = (\<lambda>i. Called (calls i)), history = []\<rparr>"
| registry_next: "registry_run calls s \<Longrightarrow> registry_step s s' \<Longrightarrow> registry_run calls s'"

section \<open>The sequential specification\<close>

fun sequential :: "registry_call \<Rightarrow> RuntimeRegistry \<Rightarrow> registry_reply \<times> RuntimeRegistry" where
  "sequential (Register x) g = (case register_runtime x g of (st, g') \<Rightarrow> (Registered st, g'))"
| "sequential (Get ty) g = (Got (get_runtime ty g), g)"

text \<open>The registry after the calls of a history made one after the other, if each gives its reply.\<close>

fun replay :: "(nat \<times> registry_call \<times> registry_reply) list \<Rightarrow> RuntimeRegistry \<Rightarrow> RuntimeRegistry option" where
  "replay [] g = Some g"
| "replay ((i, c, p) # h) g = (case sequential c g of (q, g') \<Rightarrow> if q = p then replay h g' else None)"

lemma replay_append:
  "replay (h @ [(i, c, p)]) g = (case replay h g of None \<Rightarrow> None
     | Some g' \<Rightarrow> case sequential c g' of (q, g'') \<Rightarrow> if q = p then Some g'' else None)"
  by (induction h g rule: replay.induct) (auto split: prod.splits)

section \<open>The invariant\<close>

fun call_left :: "registry_pc \<Rightarrow> registry_call option" where
  "call_left (Called c) = Some c"
| "call_left (Want_exclusive r) = Some (Register (Some r))"
| "call_left (Contains r) = Some (Register (Some r))"
| "call_left (Emplace r) = Some (Register (Some r))"
| "call_left (Want_shared ty) = Some (Get ty)"
| "call_left (Find ty) = Some (Get ty)"
| "call_left _ = None"

fun reply_made :: "registry_pc \<Rightarrow> registry_reply option" where
  "reply_made (Unlock_exclusive p) = Some p"
| "reply_made (Unlock_shared p) = Some p"
| "reply_made (Replied p) = Some p"
| "reply_made _ = None"

fun holds_exclusive :: "registry_pc \<Rightarrow> bool" where
  "holds_exclusive (Contains _) \<longleftrightarrow> True"
| "holds_exclusive (Emplace _) \<longleftrightarrow> True"
| "holds_exclusive (Unlock_exclusive _) \<longleftrightarrow> True"
| "holds_exclusive _ \<longleftrightarrow> False"

fun holds_shared :: "registry_pc \<Rightarrow> bool" where
  "holds_shared (Find _) \<longleftrightarrow> True"
| "holds_shared (Unlock_shared _) \<longleftrightarrow> True"
| "holds_shared _ \<longleftrightarrow> False"

text \<open>What a thread has checked before it took the lock, and under it.\<close>

fun checked :: "registry_pc \<Rightarrow> registry_state \<Rightarrow> bool" where
  "checked (Want_exclusive r) s \<longleftrightarrow> is_valid_device_type (device_type r)"
| "checked (Contains r) s \<longleftrightarrow> is_valid_device_type (device_type r)"
| "checked (Emplace r) s \<longleftrightarrow> is_valid_device_type (device_type r) \<and> \<not> contains_type r s"
| "checked (Want_shared ty) s \<longleftrightarrow> is_valid_device_type ty"
| "checked (Find ty) s \<longleftrightarrow> is_valid_device_type ty"
| "checked _ s \<longleftrightarrow> True"

definition made_by :: "nat \<Rightarrow> registry_state \<Rightarrow> (nat \<times> registry_call \<times> registry_reply) list" where
  "made_by i s = filter (\<lambda>(j, _). j = i) (history s)"

definition locks_ok :: "registry_state \<Rightarrow> bool" where
  "locks_ok s \<longleftrightarrow> (\<forall>i. holds_exclusive (stands s i) \<longleftrightarrow> exclusive s = Some i) \<and>
     (\<forall>i. holds_shared (stands s i) \<longleftrightarrow> i \<in> sharers s) \<and> (exclusive s \<noteq> None \<longrightarrow> sharers s = {})"

text \<open>The part of the history that a thread has made: nothing before its effect, its call and reply after it.\<close>

definition told :: "nat \<Rightarrow> registry_call \<Rightarrow> registry_pc \<Rightarrow> (nat \<times> registry_call \<times> registry_reply) list \<Rightarrow> bool" where
  "told i c pc l \<longleftrightarrow> (case reply_made pc of None \<Rightarrow> call_left pc = Some c \<and> l = [] | Some p \<Rightarrow> l = [(i, c, p)])"

definition history_ok :: "(nat \<Rightarrow> registry_call) \<Rightarrow> registry_state \<Rightarrow> bool" where
  "history_ok calls s \<longleftrightarrow> replay (history s) RuntimeRegistry_default = Some (registry_of s) \<and>
     (\<forall>i. told i (calls i) (stands s i) (made_by i s))"

definition registry_inv :: "(nat \<Rightarrow> registry_call) \<Rightarrow> registry_state \<Rightarrow> bool" where
  "registry_inv calls s \<longleftrightarrow> locks_ok s \<and> history_ok calls s \<and> (\<forall>i. checked (stands s i) s)"

lemmas registry_defs = goto_def effect_of_def emplace_runtime_def contains_type_def

lemma registry_fields [simp]:
  "stands (goto i p s) = (stands s)(i := p)" "exclusive (goto i p s) = exclusive s" "sharers (goto i p s) = sharers s"
  "history (goto i p s) = history s" "registry_of (goto i p s) = registry_of s"
  "stands (effect_of i c q s) = stands s" "exclusive (effect_of i c q s) = exclusive s"
  "sharers (effect_of i c q s) = sharers s" "history (effect_of i c q s) = history s @ [(i, c, q)]"
  "registry_of (effect_of i c q s) = registry_of s"
  "stands (emplace_runtime r s) = stands s" "exclusive (emplace_runtime r s) = exclusive s"
  "sharers (emplace_runtime r s) = sharers s" "history (emplace_runtime r s) = history s"
  by (simp_all add: registry_defs)

lemma locks_goto:
  "locks_ok s \<Longrightarrow> holds_exclusive p = holds_exclusive (stands s i) \<Longrightarrow>
    holds_shared p = holds_shared (stands s i) \<Longrightarrow> locks_ok (goto i p s)"
  by (auto simp: locks_ok_def)

lemma locks_unaffected [simp]:
  "locks_ok (effect_of i c q s) = locks_ok s" "locks_ok (emplace_runtime r s) = locks_ok s"
  by (simp_all add: locks_ok_def)

lemma locksD:
  assumes "locks_ok s"
  shows "holds_exclusive (stands s i) \<longleftrightarrow> exclusive s = Some i" "holds_shared (stands s i) \<longleftrightarrow> i \<in> sharers s"
    "exclusive s \<noteq> None \<Longrightarrow> sharers s = {}"
  using assms by (auto simp: locks_ok_def)

lemma locks_ok_step:
  assumes "registry_step s s'" "locks_ok s"
  shows "locks_ok s'"
  using assms(1)
proof cases
  case (lock_exclusive i r)
  then have "\<not> holds_exclusive (stands s j)" "\<not> holds_shared (stands s j)" for j
    using locksD(1,2) [OF assms(2), of j] locksD(3) [OF assms(2)] by auto
  then show ?thesis using lock_exclusive by (simp add: locks_ok_def)
next
  case (unlock_exclusive i p)
  then have "exclusive s = Some i" "sharers s = {}" using locksD(1,2) [OF assms(2), of i] locksD(3) [OF assms(2)] by auto
  then show ?thesis using unlock_exclusive locksD [OF assms(2)] by (simp add: locks_ok_def)
next
  case (lock_shared i ty)
  then show ?thesis using locksD [OF assms(2)] by (simp add: locks_ok_def)
next
  case (unlock_shared i p)
  then have "exclusive s = None"
    using locksD(1,2) [OF assms(2), of i] locksD(3) [OF assms(2)] by (cases "exclusive s") auto
  then show ?thesis using unlock_shared locksD [OF assms(2)] by (simp add: locks_ok_def)
qed (use assms(2) in \<open>simp_all add: locks_goto\<close>)


lemma history_unaffected [simp]:
  "history_ok calls (s\<lparr>exclusive := x\<rparr>) = history_ok calls s" "history_ok calls (s\<lparr>sharers := X\<rparr>) = history_ok calls s"
  by (simp_all add: history_ok_def made_by_def)

lemma history_goto:
  assumes "history_ok calls s" "reply_made p = reply_made (stands s i)" "call_left p = call_left (stands s i)"
  shows "history_ok calls (goto i p s)"
proof -
  have "told i c p l = told i c (stands s i) l" for c l
    using assms(2,3) by (simp add: told_def split: option.split)
  then show ?thesis using assms(1) by (simp add: history_ok_def made_by_def)
qed

lemma history_effect:
  assumes ok: "history_ok calls s" and s1: "history s1 = history s" "stands s1 = stands s"
    and c: "call_left (stands s i) = Some c" "reply_made (stands s i) = None" "reply_made p = Some q"
    and q: "sequential c (registry_of s) = (q, registry_of s1)"
  shows "history_ok calls (goto i p (effect_of i c q s1))"
proof -
  let ?s = "goto i p (effect_of i c q s1)"
  have made: "made_by j ?s = made_by j s @ (if j = i then [(i, c, q)] else [])" for j
    using s1 by (simp add: made_by_def)
  have i: "calls i = c" "made_by i s = []"
    using ok c(1,2) by (auto simp: history_ok_def told_def dest!: spec [of _ i])
  have "replay (history ?s) RuntimeRegistry_default = Some (registry_of ?s)"
    using ok s1 q by (simp add: history_ok_def replay_append)
  moreover have "told j (calls j) (stands ?s j) (made_by j ?s)" for j
    using ok s1(2) c(3) i by (cases "j = i") (simp_all add: history_ok_def made told_def)
  ultimately show ?thesis by (simp add: history_ok_def)
qed

lemma checked_other: "\<not> holds_exclusive pc \<Longrightarrow> checked pc s = checked pc s'"
  by (cases pc) auto

lemma sequential_simps:
  "is_valid_device_type (device_type r) \<Longrightarrow> runtimes g (device_type r) = None \<Longrightarrow>
    sequential (Register (Some r)) g = (Registered Status_default, g\<lparr>runtimes := (runtimes g)(device_type r \<mapsto> r)\<rparr>)"
  "is_valid_device_type (device_type r) \<Longrightarrow> runtimes g (device_type r) = Some r' \<Longrightarrow>
    sequential (Register (Some r)) g = (Registered (status_error kAlreadyExists
      ''a runtime is already registered for this device type'' (registry_loc 20)), g)"
  "\<not> is_valid_device_type (device_type r) \<Longrightarrow> sequential (Register (Some r)) g =
    (Registered (status_invalid_argument ''runtime reports an invalid device type'' (registry_loc 15)), g)"
  "sequential (Register None) g = (Registered
    (status_invalid_argument ''cannot register a null runtime'' (registry_loc 10)), g)"
  "sequential (Get ty) g = (Got (get_runtime ty g), g)"
  by (simp_all add: register_runtime_def Let_def)

declare sequential.simps [simp del]

lemma checked_goto:
  assumes "\<And>i. checked (stands s i) s" "stands s1 = stands s" "registry_of s1 = registry_of s" "checked p s"
  shows "checked (stands (goto i p s1) j) (goto i p s1)"
proof -
  have "contains_type r (goto i p s1) = contains_type r s" for r using assms(3) by (simp add: contains_type_def)
  then have "checked pc (goto i p s1) = checked pc s" for pc by (cases pc) simp_all
  then show ?thesis using assms by simp
qed

lemma inv_goto:
  assumes "\<And>i. checked (stands s i) s" "stands s1 = stands s" "registry_of s1 = registry_of s" "checked p s"
  shows "history_ok calls (goto i p s1) \<Longrightarrow>
    history_ok calls (goto i p s1) \<and> (\<forall>j. checked (stands (goto i p s1) j) (goto i p s1))"
  using checked_goto [OF assms] by blast

lemma registry_inv_step:
  assumes step: "registry_step s s'" and inv: "registry_inv calls s"
  shows "registry_inv calls s'"
proof -
  have ok: "locks_ok s" "history_ok calls s" and ck: "\<And>i. checked (stands s i) s"
    using inv by (simp_all add: registry_inv_def)
  from step have "history_ok calls s' \<and> (\<forall>j. checked (stands s' j) s')"
  proof cases
    case (emplace i r p)
    then have free: "runtimes (registry_of s) (device_type r) = None" "is_valid_device_type (device_type r)"
      using ck [of i] by (simp_all add: contains_type_def)
    then have "history_ok calls s'" unfolding emplace(1)
      using emplace by (intro history_effect [OF ok(2)])
        (simp_all add: sequential_simps emplace_runtime_def contains_type_def)
    moreover have "checked (stands s' j) s'" for j
    proof (cases "j = i")
      case False
      have "exclusive s = Some i" using locksD(1) [OF ok(1), of i] emplace by simp
      then have "\<not> holds_exclusive (stands s j)" using locksD(1) [OF ok(1), of j] False by simp
      then show ?thesis using checked_other [of "stands s j" s s'] ck [of j] emplace False by simp
    qed (use emplace in simp)
    ultimately show ?thesis by blast
  next
    case (contains_found i r p)
    then obtain r' where "runtimes (registry_of s) (device_type r) = Some r'" by (auto simp: contains_type_def)
    then show ?thesis unfolding contains_found(1) using contains_found ck [of i]
      by (intro inv_goto [OF ck] history_effect [OF ok(2)]) (simp_all add: sequential_simps)
  next
    case (register_null i p)
    show ?thesis unfolding register_null(1) using register_null
      by (intro inv_goto [OF ck] history_effect [OF ok(2)]) (simp_all add: sequential_simps)
  next
    case (register_invalid i r p)
    show ?thesis unfolding register_invalid(1) using register_invalid
      by (intro inv_goto [OF ck] history_effect [OF ok(2)]) (simp_all add: sequential_simps)
  next
    case (get_invalid i ty p)
    show ?thesis unfolding get_invalid(1) using get_invalid
      by (intro inv_goto [OF ck] history_effect [OF ok(2)]) (simp_all add: sequential_simps get_runtime_def)
  next
    case (find_missing i ty p)
    show ?thesis unfolding find_missing(1) using find_missing ck [of i]
      by (intro inv_goto [OF ck] history_effect [OF ok(2)]) (simp_all add: sequential_simps get_runtime_def)
  next
    case (find_found i ty r p)
    show ?thesis unfolding find_found(1) using find_found ck [of i]
      by (intro inv_goto [OF ck] history_effect [OF ok(2)]) (simp_all add: sequential_simps get_runtime_def)
  next
    case (register_valid i r)
    show ?thesis unfolding register_valid(1) using register_valid ok(2)
      by (intro inv_goto [OF ck] history_goto) simp_all
  next
    case (lock_exclusive i r)
    show ?thesis unfolding lock_exclusive(1) using lock_exclusive ok(2) ck [of i]
      by (intro inv_goto [OF ck] history_goto) simp_all
  next
    case (contains_missing i r)
    show ?thesis unfolding contains_missing(1) using contains_missing ok(2) ck [of i]
      by (intro inv_goto [OF ck] history_goto) simp_all
  next
    case (unlock_exclusive i p)
    show ?thesis unfolding unlock_exclusive(1) using unlock_exclusive ok(2)
      by (intro inv_goto [OF ck] history_goto) simp_all
  next
    case (get_valid i ty)
    show ?thesis unfolding get_valid(1) using get_valid ok(2)
      by (intro inv_goto [OF ck] history_goto) simp_all
  next
    case (lock_shared i ty)
    show ?thesis unfolding lock_shared(1) using lock_shared ok(2) ck [of i]
      by (intro inv_goto [OF ck] history_goto) simp_all
  next
    case (unlock_shared i p)
    show ?thesis unfolding unlock_shared(1) using unlock_shared ok(2)
      by (intro inv_goto [OF ck] history_goto) simp_all
  qed
  then show ?thesis using locks_ok_step [OF step ok(1)] by (simp add: registry_inv_def)
qed

section \<open>Runs\<close>

lemma registry_run_inv: "registry_run calls s \<Longrightarrow> registry_inv calls s"
proof (induction rule: registry_run.induct)
  case registry_start
  show ?case
    by (simp add: registry_inv_def locks_ok_def history_ok_def made_by_def told_def)
qed (rule registry_inv_step)

text \<open>Only a wait for the lock stops a thread.\<close>

fun waits :: "registry_pc \<Rightarrow> registry_state \<Rightarrow> bool" where
  "waits (Want_exclusive _) s \<longleftrightarrow> exclusive s \<noteq> None \<or> sharers s \<noteq> {}"
| "waits (Want_shared _) s \<longleftrightarrow> exclusive s \<noteq> None"
| "waits _ s \<longleftrightarrow> False"

text \<open>A thread that has passed the checks before the lock and has not returned.\<close>

fun in_progress :: "registry_pc \<Rightarrow> bool" where
  "in_progress (Called _) \<longleftrightarrow> False"
| "in_progress (Replied _) \<longleftrightarrow> False"
| "in_progress _ \<longleftrightarrow> True"

definition can_move :: "nat \<Rightarrow> registry_state \<Rightarrow> bool" where
  "can_move i s \<longleftrightarrow> (\<exists>s'. registry_step s s' \<and> stands s' i \<noteq> stands s i)"

lemma can_moveI: "registry_step s (goto i p s1) \<Longrightarrow> stands s i \<noteq> p \<Longrightarrow> can_move i s"
  unfolding can_move_def by (rule exI [of _ "goto i p s1"]) simp

lemma moves:
  assumes "\<not> waits (stands s i) s" "in_progress (stands s i)"
  shows "can_move i s"
proof (cases "stands s i")
  case (Want_exclusive r)
  with assms(1) show ?thesis by (intro can_moveI [OF lock_exclusive]) auto
next
  case (Want_shared ty)
  with assms(1) show ?thesis by (intro can_moveI [OF lock_shared]) auto
next
  case (Contains r)
  show ?thesis
  proof (cases "contains_type r s")
    case True
    with Contains show ?thesis by (intro can_moveI [OF contains_found [OF _ _ refl]]) simp_all
  next
    case False
    with Contains show ?thesis by (intro can_moveI [OF contains_missing]) simp_all
  qed
next
  case (Emplace r)
  then show ?thesis by (intro can_moveI [OF emplace [OF _ refl]]) simp_all
next
  case (Find ty)
  then show ?thesis
    by (cases "runtimes (registry_of s) ty")
      (use can_moveI [OF find_missing [OF Find _ refl]] can_moveI [OF find_found [OF Find _ refl]] in simp_all)
next
  case (Unlock_exclusive p)
  then show ?thesis by (intro can_moveI [OF unlock_exclusive]) simp_all
next
  case (Unlock_shared p)
  then show ?thesis by (intro can_moveI [OF unlock_shared]) simp_all
qed (use assms(2) in simp_all)

lemma waits_for:
  assumes "waits pc s" "locks_ok s"
  obtains j where "holds_exclusive (stands s j) \<or> holds_shared (stands s j)"
  using assms locksD(1,2) [OF assms(2)] by (cases pc) (auto simp: ex_in_conv [symmetric])

lemma holder_moves:
  assumes "holds_exclusive (stands s j) \<or> holds_shared (stands s j)"
  shows "in_progress (stands s j) \<and> can_move j s"
  using moves [of s j] assms by (cases "stands s j") auto

lemma registry_not_stuck:
  assumes "registry_inv calls s" "in_progress (stands s i)"
  shows "\<exists>j. in_progress (stands s j) \<and> can_move j s"
proof (cases "waits (stands s i) s")
  case True
  then obtain j where "holds_exclusive (stands s j) \<or> holds_shared (stands s j)"
    using waits_for assms(1) by (auto simp: registry_inv_def)
  then show ?thesis using holder_moves by blast
next
  case False
  then show ?thesis using moves assms(2) by blast
qed

lemma registry_excludes:
  assumes "registry_inv calls s" "holds_exclusive (stands s i)"
  shows "\<not> holds_shared (stands s j) \<and> (holds_exclusive (stands s j) \<longrightarrow> j = i)"
  using assms locksD [of s] by (auto simp: registry_inv_def)

text \<open>C24: The registry with any number of threads, each of which makes one call, in any interleaving of the
  steps that \<open>register_runtime\<close> and \<open>get\<close> make around the shared mutex: the map is at every moment what the
  calls that have taken effect make of it one after the other in the sequential model, with the same
  replies; every thread that has returned is in that history with exactly its own call and the reply it
  got, once; while a thread writes no other is inside; and as long as a thread is in its call (it has passed
  the checks before the lock and not returned), a thread that is in its call can make a step, so the threads
  in a call never all wait (no deadlock).\<close>

theorem registry_linearizable:
  assumes "registry_run calls s"
  shows "replay (history s) RuntimeRegistry_default = Some (registry_of s) \<and>
    (\<forall>i p. stands s i = Replied p \<longrightarrow> made_by i s = [(i, calls i, p)]) \<and>
    (\<forall>i j. holds_exclusive (stands s i) \<and> i \<noteq> j \<longrightarrow> \<not> holds_exclusive (stands s j) \<and> \<not> holds_shared (stands s j)) \<and>
    (\<forall>i. in_progress (stands s i) \<longrightarrow>
      (\<exists>j s'. in_progress (stands s j) \<and> registry_step s s' \<and> stands s' j \<noteq> stands s j))"
proof -
  note inv = registry_run_inv [OF assms]
  have told: "told i (calls i) (stands s i) (made_by i s)" for i
    using inv by (simp add: registry_inv_def history_ok_def)
  have "made_by i s = [(i, calls i, p)]" if "stands s i = Replied p" for i p
    using told [of i] that by (simp add: told_def)
  moreover have "replay (history s) RuntimeRegistry_default = Some (registry_of s)"
    using inv by (simp add: registry_inv_def history_ok_def)
  ultimately show ?thesis using registry_excludes [OF inv] registry_not_stuck [OF inv] unfolding can_move_def by blast
qed

text \<open>A thread inside the lock while another waits for it and a third has already been refused.\<close>

definition registry_threads :: "nat \<Rightarrow> registry_call" where
  "registry_threads i = (if i = 0 then Register (Some (Cpu_runtime 0)) else if i = 1 then Register None else Get kCPU)"

abbreviation null_refused :: registry_reply where
  "null_refused \<equiv> Registered (status_invalid_argument ''cannot register a null runtime'' (registry_loc 10))"

theorem registry_linearizable_witness:
  "\<exists>s. registry_run registry_threads s \<and> exclusive s = Some 0 \<and>
    made_by 1 s = [(1, Register None, null_refused)] \<and> stands s 2 = Want_shared kCPU \<and>
    (\<exists>j s'. in_progress (stands s j) \<and> registry_step s s' \<and> stands s' j \<noteq> stands s j)"
proof -
  let ?s0 = "\<lparr>registry_of = RuntimeRegistry_default, exclusive = None, sharers = {},
    stands = (\<lambda>i. Called (registry_threads i)), history = []\<rparr>"
  let ?s1 = "goto 0 (Want_exclusive (Cpu_runtime 0)) ?s0"
  let ?s2 = "goto 1 (Replied null_refused) (effect_of 1 (Register None) null_refused ?s1)"
  let ?s3 = "goto 2 (Want_shared kCPU) ?s2"
  let ?s4 = "goto 0 (Contains (Cpu_runtime 0)) (?s3\<lparr>exclusive := Some 0\<rparr>)"
  have "registry_run registry_threads ?s0" by (rule registry_start)
  then have "registry_run registry_threads ?s1"
    by (rule registry_next, intro register_valid)
      (simp_all add: registry_threads_def cpu_device_type_def is_valid_device_type_def)
  then have "registry_run registry_threads ?s2"
    by (rule registry_next, intro register_null) (simp_all add: registry_threads_def)
  then have "registry_run registry_threads ?s3"
    by (rule registry_next, intro get_valid) (simp_all add: registry_threads_def is_valid_device_type_def)
  then have run: "registry_run registry_threads ?s4"
    by (rule registry_next, intro lock_exclusive) simp_all
  have "exclusive ?s4 = Some 0" "stands ?s4 1 = Replied null_refused" "stands ?s4 2 = Want_shared kCPU"
    by simp_all
  with run obtain s where s: "registry_run registry_threads s" "exclusive s = Some 0"
    "stands s 1 = Replied null_refused" "stands s 2 = Want_shared kCPU"
    by blast
  note facts = registry_linearizable [OF s(1)]
  have "made_by 1 s = [(1, Register None, null_refused)]"
    using facts s(3) by (simp add: registry_threads_def)
  moreover have "in_progress (stands s 2)" using s(4) by simp
  ultimately show ?thesis using facts s by blast
qed

end
