(* ===== verification/StaticRegistry.thy ===== *)
theory StaticRegistry
  imports Registries
begin

text \<open>
  \<open>default_runtime_registry\<close> of \<open>backend/cpu/runtime.cc\<close> called by any number of threads. It has two function-local
  statics: the registry, and the status of filling it. C++ lets one thread initialise a static while those
  that arrive meanwhile wait.
\<close>

section \<open>The statics and the steps\<close>

text \<open>A static before, while (by a thread) and after its initialisation.\<close>

datatype guard = Untouched | Initialising nat | Initialised

record statics =
  registry_guard :: guard
  static_registry :: RuntimeRegistry
  initialization_guard :: guard
  initialization :: Status
  made_runtimes :: nat

datatype static_pc = Outside | At_registry | In_registry | At_initialization | In_initialization | Returned

definition statics_start :: statics where
  "statics_start = \<lparr>registry_guard = Untouched, static_registry = RuntimeRegistry_default,
     initialization_guard = Untouched, initialization = Status_default, made_runtimes = 0\<rparr>"

text \<open>
  The steps of thread \<open>i\<close>. \<open>make_shared\<close> makes the runtimes one after the other. A thread that has the reference
  registers runtimes of its own, in calls that are one step each (\<open>RegistryThreads\<close>), and may ask again.
\<close>

inductive static_step :: "nat \<Rightarrow> static_pc \<Rightarrow> statics \<Rightarrow> static_pc \<Rightarrow> statics \<Rightarrow> bool" for i where
  static_call: "static_step i Outside s At_registry s"
| registry_begin: "registry_guard s = Untouched \<Longrightarrow>
    static_step i At_registry s In_registry (s\<lparr>registry_guard := Initialising i\<rparr>)"
| registry_done: "registry_guard s = Initialised \<Longrightarrow> static_step i At_registry s At_initialization s"
| registry_end: "static_step i In_registry s At_initialization
    (s\<lparr>static_registry := RuntimeRegistry_default, registry_guard := Initialised\<rparr>)"
| initialization_begin: "initialization_guard s = Untouched \<Longrightarrow>
    static_step i At_initialization s In_initialization (s\<lparr>initialization_guard := Initialising i\<rparr>)"
| initialization_done: "initialization_guard s = Initialised \<Longrightarrow> static_step i At_initialization s Returned s"
| initialization_end: "register_builtin_runtimes (made_runtimes s) (static_registry s) = (st, registry) \<Longrightarrow>
    static_step i In_initialization s Returned
      (s\<lparr>static_registry := registry, initialization := st, initialization_guard := Initialised,
         made_runtimes := made_runtimes s + 1\<rparr>)"
| returned_register: "register_runtime r (static_registry s) = (st, registry) \<Longrightarrow>
    static_step i Returned s Returned (s\<lparr>static_registry := registry\<rparr>)"
| returned_leave: "static_step i Returned s Outside s"

inductive static_run :: "(nat \<Rightarrow> static_pc) \<Rightarrow> statics \<Rightarrow> bool" where
  static_run_start: "static_run (\<lambda>_. Outside) statics_start"
| static_run_step: "static_run ps s \<Longrightarrow> static_step i (ps i) s p s' \<Longrightarrow> static_run (ps(i := p)) s'"

section \<open>The invariant\<close>

text \<open>The registry one thread alone gets, with the registrations of the threads that have the reference.\<close>

definition default_contents :: "RuntimeRegistry \<Rightarrow> bool" where
  "default_contents g \<longleftrightarrow> (\<exists>rs sts. registrations register_runtime rs (fst (default_runtime_registry 0 None)) = (sts, g))"

definition statics_ok :: "(nat \<Rightarrow> static_pc) \<Rightarrow> statics \<Rightarrow> bool" where
  "statics_ok ps s \<longleftrightarrow>
     (\<forall>i. ps i = In_registry \<longleftrightarrow> registry_guard s = Initialising i) \<and>
     (\<forall>i. ps i = In_initialization \<longleftrightarrow> initialization_guard s = Initialising i) \<and>
     (\<forall>i. ps i \<in> {At_initialization, In_initialization, Returned} \<longrightarrow> registry_guard s = Initialised) \<and>
     (initialization_guard s \<noteq> Untouched \<longrightarrow> registry_guard s = Initialised) \<and>
     (\<forall>i. ps i = Returned \<longrightarrow> initialization_guard s = Initialised) \<and>
     (if initialization_guard s = Initialised
      then default_contents (static_registry s) \<and> status_ok (initialization s) \<and> made_runtimes s = 1
      else static_registry s = RuntimeRegistry_default \<and> made_runtimes s = 0)"

lemma registrations_snoc:
  "registrations reg (rs @ [r]) g = (case registrations reg rs g of (sts, g') \<Rightarrow>
     case reg r g' of (st, g'') \<Rightarrow> (sts @ [st], g''))"
  by (induction rs arbitrary: g) (auto split: prod.splits)

lemma builtin_registered:
  assumes "register_builtin_runtimes 0 RuntimeRegistry_default = (st, g)"
  shows "status_ok st \<and> default_contents g"
proof -
  have "fst (default_runtime_registry 0 None) = g"
    using assms by (simp add: default_runtime_registry_def Let_def)
  moreover have "status_ok st"
    using assms by (auto simp: register_builtin_runtimes_def register_cpu_runtime_def register_runtime_def
        RuntimeRegistry_default_def cpu_device_type_def Let_def is_valid_device_type_def status_ok_def Status_default_def)
  ultimately show ?thesis using assms unfolding default_contents_def by (metis registrations.simps(1))
qed

lemma contents_registered:
  assumes "default_contents g" "register_runtime r g = (st, g')"
  shows "default_contents g'"
proof -
  obtain rs sts where "registrations register_runtime rs (fst (default_runtime_registry 0 None)) = (sts, g)"
    using assms(1) by (auto simp: default_contents_def)
  then have "registrations register_runtime (rs @ [r]) (fst (default_runtime_registry 0 None)) = (sts @ [st], g')"
    using assms(2) by (simp add: registrations_snoc)
  then show ?thesis unfolding default_contents_def by blast
qed

lemma contents_cpu:
  assumes "default_contents g"
  shows "get_runtime kCPU g = Holds (Cpu_runtime 0)"
proof -
  obtain rs sts where r: "registrations register_runtime rs (fst (default_runtime_registry 0 None)) = (sts, g)"
    using assms by (auto simp: default_contents_def)
  have first: "get_runtime kCPU (fst (default_runtime_registry 0 None)) = Holds (Cpu_runtime 0)"
    by (simp add: default_runtime_registry_def register_builtin_runtimes_def register_cpu_runtime_def
        register_runtime_def get_runtime_def RuntimeRegistry_default_def cpu_device_type_def Let_def
        is_valid_device_type_def result_of_value_def)
  moreover have "is_valid_device_type kCPU" by (simp add: is_valid_device_type_def)
  ultimately show ?thesis using runtime_registry.registrations_first(2) [OF _ _ r, of kCPU] by simp
qed

lemma static_step_ok:
  assumes "static_step i (ps i) s p s'" "statics_ok ps s"
  shows "statics_ok (ps(i := p)) s'"
  using assms(1)
proof (cases rule: static_step.cases)
  case (initialization_end st registry)
  then have "static_registry s = RuntimeRegistry_default" "made_runtimes s = 0" "initialization_guard s = Initialising i"
    using assms(2) by (simp_all add: statics_ok_def)
  then show ?thesis
    using initialization_end assms(2) builtin_registered [of st registry] by (auto simp: statics_ok_def)
next
  case (returned_register r st registry)
  then show ?thesis using assms(2) contents_registered by (auto simp: statics_ok_def)
next
  case registry_end
  then have "registry_guard s = Initialising i" using assms(2) by (simp add: statics_ok_def)
  then have "initialization_guard s = Untouched" using assms(2) by (auto simp: statics_ok_def)
  then show ?thesis using registry_end assms(2) by (auto simp: statics_ok_def)
qed (use assms(2) in \<open>auto simp: statics_ok_def\<close>, (metis static_pc.distinct)+)

lemma static_run_ok: "static_run ps s \<Longrightarrow> statics_ok ps s"
proof (induction rule: static_run.induct)
  case static_run_start
  show ?case by (simp add: statics_ok_def statics_start_def)
next
  case (static_run_step ps s i p s')
  show ?case by (rule static_step_ok [OF static_run_step.hyps(2) static_run_step.IH])
qed

section \<open>What the callers get\<close>

lemma static_progress:
  assumes ok: "statics_ok ps s" and i: "ps i \<notin> {Outside, Returned}"
  shows "\<exists>j p s'. ps j \<notin> {Outside, Returned} \<and> static_step j (ps j) s p s' \<and> p \<noteq> ps j"
proof -
  have busy: ?thesis if "ps j = In_registry \<or> ps j = In_initialization" for j
  proof (cases "ps j = In_registry")
    case True
    then show ?thesis using registry_end [of j s] by (intro exI [of _ j]) auto
  next
    case False
    with that have "ps j = In_initialization" by simp
    moreover obtain st g where "register_builtin_runtimes (made_runtimes s) (static_registry s) = (st, g)"
      by (cases "register_builtin_runtimes (made_runtimes s) (static_registry s)")
    ultimately show ?thesis using initialization_end [of s st g j] by (intro exI [of _ j]) auto
  qed
  show ?thesis
  proof (cases "ps i")
    case At_registry
    show ?thesis
    proof (cases "registry_guard s")
      case (Initialising j)
      then show ?thesis using ok by (intro busy [of j]) (simp add: statics_ok_def)
    qed (use At_registry registry_begin [of s i] registry_done [of s i] in \<open>force intro: exI [of _ i]\<close>)+
  next
    case At_initialization
    show ?thesis
    proof (cases "initialization_guard s")
      case (Initialising j)
      then show ?thesis using ok by (intro busy [of j]) (simp add: statics_ok_def)
    qed (use At_initialization initialization_begin [of s i] initialization_done [of s i] in \<open>force intro: exI [of _ i]\<close>)+
  qed (use i busy [of i] in auto)
qed

text \<open>C27: \<open>default_runtime_registry\<close> called by any number of threads at once, in any interleaving: a thread that
  has the reference finds the one CPU runtime there is, registered with success, and besides it only
  what threads that had the reference registered, as if one thread had made the registry before; the
  backend's runtime is made at most once; and a call in progress never waits for good.\<close>

theorem default_registry_threads:
  assumes "static_run ps s"
  shows "(ps i = Returned \<longrightarrow> get_runtime kCPU (static_registry s) = Holds (Cpu_runtime 0) \<and>
      status_ok (initialization s) \<and>
      (\<exists>rs sts. registrations register_runtime rs (fst (default_runtime_registry 0 None)) = (sts, static_registry s))) \<and>
    made_runtimes s \<le> 1 \<and>
    (ps i \<notin> {Outside, Returned} \<longrightarrow>
      (\<exists>j p s'. ps j \<notin> {Outside, Returned} \<and> static_step j (ps j) s p s' \<and> p \<noteq> ps j))"
proof -
  note ok = static_run_ok [OF assms]
  have "default_contents (static_registry s) \<and> status_ok (initialization s)" if "ps i = Returned"
    using ok that by (auto simp: statics_ok_def)
  moreover have "made_runtimes s \<le> 1" using ok by (simp add: statics_ok_def split: if_splits)
  ultimately show ?thesis using contents_cpu static_progress [OF ok, of i] unfolding default_contents_def by blast
qed

text \<open>Thread 0 makes the registry and fills it while thread 1 waits for it.\<close>

theorem default_registry_threads_witness:
  "\<exists>ps s. static_run ps s \<and> ps 0 = Returned \<and> ps 1 = At_registry \<and>
    get_runtime kCPU (static_registry s) = Holds (Cpu_runtime 0)"
proof -
  have run: "\<exists>ps s. static_run ps s \<and> ps 0 = p' \<and> ps 1 = At_registry \<and> P s"
    if start: "\<exists>ps s. static_run ps s \<and> ps 0 = p \<and> ps 1 = At_registry \<and> Q s"
      and move: "\<And>s. Q s \<Longrightarrow> \<exists>s'. static_step 0 p s p' s' \<and> P s'" for p p' P Q
  proof -
    obtain ps s where s: "static_run ps s" "ps 0 = p" "ps 1 = At_registry" "Q s" using start by blast
    obtain s' where "static_step 0 (ps 0) s p' s'" "P s'" using move [OF s(4)] s(2) by blast
    then show ?thesis using static_run_step [OF s(1), of 0] s(3) by (intro exI [of _ "ps(0 := p')"] exI [of _ s']) simp
  qed
  let ?fresh = "\<lambda>s. initialization_guard s = Untouched"
  have "\<exists>ps s. static_run ps s \<and> ps 0 = Outside \<and> ps 1 = At_registry \<and> registry_guard s = Untouched \<and> ?fresh s"
    using static_run_step [OF static_run_start static_call, of 1]
    by (intro exI [of _ "(\<lambda>_. Outside)(1 := At_registry)"] exI [of _ statics_start]) (simp add: statics_start_def)
  then have "\<exists>ps s. static_run ps s \<and> ps 0 = At_registry \<and> ps 1 = At_registry \<and> registry_guard s = Untouched \<and> ?fresh s"
    by (rule run) (auto intro: static_call)
  then have "\<exists>ps s. static_run ps s \<and> ps 0 = In_registry \<and> ps 1 = At_registry \<and> ?fresh s"
    by (rule run) (force intro: registry_begin)
  then have "\<exists>ps s. static_run ps s \<and> ps 0 = At_initialization \<and> ps 1 = At_registry \<and> ?fresh s"
    by (rule run) (force intro: registry_end)
  then have "\<exists>ps s. static_run ps s \<and> ps 0 = In_initialization \<and> ps 1 = At_registry \<and> True"
    by (rule run) (force intro: initialization_begin)
  then have "\<exists>ps s. static_run ps s \<and> ps 0 = Returned \<and> ps 1 = At_registry \<and> True"
    by (rule run) (metis initialization_end surj_pair)
  then show ?thesis using default_registry_threads [of _ _ 0] by blast
qed

end
