(* ===== verification/RuntimeObjects.thy ===== *)
theory RuntimeObjects
  imports Registries
begin

text \<open>
  Calls through pointers to the abstract classes of \<open>runtime/\<close>. An abstract class is the record of its
  virtual functions, on the state of the object they are called on; a class that overrides them is a
  value of the record. A pointer to a base class points to an object of the backend's class or of a class
  of the client's, and a virtual call runs the function of the class the object has.
\<close>

section \<open>The abstract classes\<close>

text \<open>A function that is not \<open>const\<close> returns the object as it leaves it.\<close>

record 's event_class =
  vt_record :: "Stream \<Rightarrow> 's \<Rightarrow> Status \<times> 's"
  vt_query :: "'s \<Rightarrow> bool Result"
  vt_event_synchronize :: "'s \<Rightarrow> Status \<times> 's"
  vt_wait :: "Stream \<Rightarrow> 's \<Rightarrow> Status \<times> 's"

text \<open>The memory an allocator hands out comes from a heap, \<open>'h\<close>.\<close>

record 'h allocator_class =
  vt_allocate :: "size_t \<Rightarrow> size_t \<Rightarrow> Device \<Rightarrow> 'h \<Rightarrow> DataPtr Result \<times> 'h"

text \<open>A runtime \<open>'r\<close> makes events \<open>'e\<close>; \<open>allocator\<close> returns a reference, of which the class matters here.\<close>

record ('r, 'e, 'h) runtime_class =
  vt_device_type :: "'r \<Rightarrow> DeviceType"
  vt_device_count :: "'r \<Rightarrow> i32 Result"
  vt_validate_device :: "Device \<Rightarrow> 'r \<Rightarrow> Status"
  vt_allocator :: "Device \<Rightarrow> 'r \<Rightarrow> 'h allocator_class"
  vt_default_stream :: "Device \<Rightarrow> 'r \<Rightarrow> Stream Result \<times> 'r"
  vt_create_stream :: "Device \<Rightarrow> StreamOptions \<Rightarrow> 'r \<Rightarrow> Stream Result \<times> 'r"
  vt_create_event :: "Device \<Rightarrow> EventOptions \<Rightarrow> 'r \<Rightarrow> 'e Result \<times> 'r"
  vt_runtime_synchronize :: "Device \<Rightarrow> 'r \<Rightarrow> Status \<times> 'r"
  vt_capabilities :: "Device \<Rightarrow> 'r \<Rightarrow> RuntimeCapabilities"

section \<open>The classes of the CPU backend\<close>

definition cpu_event_class :: "CpuEvent event_class" where
  "cpu_event_class =
     \<lparr>vt_record = cpu_event_record, vt_query = cpu_event_query,
      vt_event_synchronize = (\<lambda>e. (cpu_event_synchronize e, e)),
      vt_wait = (\<lambda>s e. (cpu_event_wait s e, e))\<rparr>"

definition cpu_allocator_class :: "memalign \<Rightarrow> heap allocator_class" where
  "cpu_allocator_class posix_memalign = \<lparr>vt_allocate = cpu_allocate posix_memalign\<rparr>"

text \<open>\<open>CpuRuntime::allocator\<close> returns its \<open>allocator_\<close> whatever the device.\<close>

definition cpu_allocator :: "memalign \<Rightarrow> Device \<Rightarrow> CpuRuntime \<Rightarrow> heap allocator_class" where
  "cpu_allocator posix_memalign device r = cpu_allocator_class posix_memalign"

definition cpu_runtime_class :: "memalign \<Rightarrow> (CpuRuntime, CpuEvent, heap) runtime_class" where
  "cpu_runtime_class posix_memalign =
     \<lparr>vt_device_type = (\<lambda>r. cpu_device_type), vt_device_count = (\<lambda>r. cpu_device_count),
      vt_validate_device = (\<lambda>d r. cpu_validate_device d), vt_allocator = cpu_allocator posix_memalign,
      vt_default_stream = (\<lambda>d r. (cpu_default_stream d, r)), vt_create_stream = cpu_create_stream,
      vt_create_event = (\<lambda>d opts r. (cpu_create_event d opts, r)),
      vt_runtime_synchronize = (\<lambda>d r. (cpu_synchronize d, r)), vt_capabilities = (\<lambda>d r. cpu_capabilities d)\<rparr>"

lemmas cpu_runtime_defs = cpu_runtime_class_def cpu_validate_device_def cpu_default_stream_def
  cpu_create_stream_def cpu_create_event_def cpu_synchronize_def cpu_device_type_def result_of_value_def Let_def

section \<open>Virtual calls\<close>

text \<open>An object behind a pointer to its base class: of the backend's class, or of the client's.\<close>

datatype 'e event_object = Cpu_event CpuEvent | Client_event 'e
datatype 'r runtime_object = Cpu_object CpuRuntime | Client_object 'r

primrec on_event :: "(CpuEvent \<Rightarrow> 'a \<times> CpuEvent) \<Rightarrow> ('e \<Rightarrow> 'a \<times> 'e) \<Rightarrow> 'e event_object \<Rightarrow> 'a \<times> 'e event_object" where
  "on_event f g (Cpu_event e) = map_prod id Cpu_event (f e)"
| "on_event f g (Client_event e) = map_prod id Client_event (g e)"

primrec on_runtime ::
  "(CpuRuntime \<Rightarrow> 'a \<times> CpuRuntime) \<Rightarrow> ('r \<Rightarrow> 'a \<times> 'r) \<Rightarrow> 'r runtime_object \<Rightarrow> 'a \<times> 'r runtime_object" where
  "on_runtime f g (Cpu_object r) = map_prod id Cpu_object (f r)"
| "on_runtime f g (Client_object r) = map_prod id Client_object (g r)"

definition virtual_event :: "'e event_class \<Rightarrow> 'e event_object event_class" where
  "virtual_event E =
     \<lparr>vt_record = (\<lambda>s. on_event (vt_record cpu_event_class s) (vt_record E s)),
      vt_query = case_event_object (vt_query cpu_event_class) (vt_query E),
      vt_event_synchronize = on_event (vt_event_synchronize cpu_event_class) (vt_event_synchronize E),
      vt_wait = (\<lambda>s. on_event (vt_wait cpu_event_class s) (vt_wait E s))\<rparr>"

definition virtual_runtime ::
  "memalign \<Rightarrow> ('r, 'e, heap) runtime_class \<Rightarrow> ('r runtime_object, 'e event_object, heap) runtime_class" where
  "virtual_runtime posix_memalign R =
     (let C = cpu_runtime_class posix_memalign in
      \<lparr>vt_device_type = case_runtime_object (vt_device_type C) (vt_device_type R),
       vt_device_count = case_runtime_object (vt_device_count C) (vt_device_count R),
       vt_validate_device = (\<lambda>d. case_runtime_object (vt_validate_device C d) (vt_validate_device R d)),
       vt_allocator = (\<lambda>d. case_runtime_object (vt_allocator C d) (vt_allocator R d)),
       vt_default_stream = (\<lambda>d. on_runtime (vt_default_stream C d) (vt_default_stream R d)),
       vt_create_stream = (\<lambda>d opts. on_runtime (vt_create_stream C d opts) (vt_create_stream R d opts)),
       vt_create_event = (\<lambda>d opts. on_runtime
         (\<lambda>r. map_prod (map_Result Cpu_event) id (vt_create_event C d opts r))
         (\<lambda>r. map_prod (map_Result Client_event) id (vt_create_event R d opts r))),
       vt_runtime_synchronize = (\<lambda>d. on_runtime (vt_runtime_synchronize C d) (vt_runtime_synchronize R d)),
       vt_capabilities = (\<lambda>d. case_runtime_object (vt_capabilities C d) (vt_capabilities R d))\<rparr>)"

lemma map_prod_eq [simp]:
  "map_prod id f p = (a, y) \<longleftrightarrow> (\<exists>c. p = (a, c) \<and> y = f c)"
  "map_prod g id q = (z, b) \<longleftrightarrow> (\<exists>c. q = (c, b) \<and> z = g c)"
  by (cases p, auto) (cases q, auto)

lemma virtual_cpu_event:
  "vt_record (virtual_event E) str (Cpu_event e) = map_prod id Cpu_event (cpu_event_record str e)"
  "vt_query (virtual_event E) (Cpu_event e) = cpu_event_query e"
  "vt_event_synchronize (virtual_event E) (Cpu_event e) = (cpu_event_synchronize e, Cpu_event e)"
  "vt_wait (virtual_event E) str (Cpu_event e) = (cpu_event_wait str e, Cpu_event e)"
  by (simp_all add: virtual_event_def cpu_event_class_def)

section \<open>Runtimes behind the pointers of the registry\<close>

text \<open>The objects the pointers point to, by the identity of the pointer.\<close>

record 'r runtime_store =
  cpu_objects :: "nat \<Rightarrow> CpuRuntime"
  client_objects :: "nat \<Rightarrow> 'r"

fun object_at :: "Runtime \<Rightarrow> 'r runtime_store \<Rightarrow> 'r runtime_object" where
  "object_at (Cpu_runtime i) s = Cpu_object (cpu_objects s i)"
| "object_at (Client_runtime i type) s = Client_object (client_objects s i)"

text \<open>A call through a pointer runs on the object and leaves it in its place.\<close>

fun through_pointer ::
  "('r runtime_object \<Rightarrow> 'a \<times> 'r runtime_object) \<Rightarrow> Runtime \<Rightarrow> 'r runtime_store \<Rightarrow> 'a \<times> 'r runtime_store" where
  "through_pointer f p s = (case f (object_at p s) of (a, x) \<Rightarrow>
     (a, case (p, x) of
           (Cpu_runtime i, Cpu_object r) \<Rightarrow> s\<lparr>cpu_objects := (cpu_objects s)(i := r)\<rparr>
         | (Client_runtime i _, Client_object r) \<Rightarrow> s\<lparr>client_objects := (client_objects s)(i := r)\<rparr>
         | _ \<Rightarrow> s))"

text \<open>The pointers to one object.\<close>

fun same_object :: "Runtime \<Rightarrow> Runtime \<Rightarrow> bool" where
  "same_object (Cpu_runtime i) (Cpu_runtime j) \<longleftrightarrow> i = j"
| "same_object (Client_runtime i _) (Client_runtime j _) \<longleftrightarrow> i = j"
| "same_object _ _ \<longleftrightarrow> False"

lemma through_pointer_object:
  assumes "on_runtime f g (object_at p s) = (a, x)"
  shows "\<exists>s'. through_pointer (on_runtime f g) p s = (a, s') \<and> object_at p s' = x \<and>
    (\<forall>q. \<not> same_object p q \<longrightarrow> object_at q s' = object_at q s)"
proof (cases p)
  case (Cpu_runtime i)
  with assms obtain r where r: "f (cpu_objects s i) = (a, r)" "x = Cpu_object r" by auto
  have "\<not> same_object p q \<Longrightarrow> object_at q (s\<lparr>cpu_objects := (cpu_objects s)(i := r)\<rparr>) = object_at q s" for q
    using Cpu_runtime by (cases q) auto
  then show ?thesis using Cpu_runtime r by (auto simp: map_prod_def)
next
  case (Client_runtime i ty)
  with assms obtain r where r: "g (client_objects s i) = (a, r)" "x = Client_object r" by auto
  have "\<not> same_object p q \<Longrightarrow> object_at q (s\<lparr>client_objects := (client_objects s)(i := r)\<rparr>) = object_at q s" for q
    using Client_runtime by (cases q) auto
  then show ?thesis using Client_runtime r by (auto simp: map_prod_def)
qed

text \<open>The registry gives out what was registered, for its type.\<close>

lemma registered:
  assumes "registrations register_runtime xs g0 = (sts, g)" "get_runtime ty g = Holds p"
  shows "get_runtime ty g0 = Holds p \<or> Some p \<in> set xs \<and> device_type p = ty"
  using assms(1)
proof (induction xs arbitrary: g0 sts)
  case Nil
  then show ?case using assms(2) by simp
next
  case (Cons x xs)
  obtain st g1 where r: "register_runtime x g0 = (st, g1)" by (cases "register_runtime x g0")
  with Cons.prems obtain sts1 where "registrations register_runtime xs g1 = (sts1, g)"
    by (auto split: prod.splits)
  from Cons.IH [OF this] show ?case
  proof
    assume p: "get_runtime ty g1 = Holds p"
    show ?thesis
    proof (cases "offers device_type ty x \<and> is_valid_device_type ty")
      case True
      then show ?thesis using runtime_registry.reg_first [OF r, of ty] p by (auto simp: offers_def split: if_splits)
    next
      case False
      then have "get_runtime ty g1 = get_runtime ty g0 \<or> \<not> is_valid_device_type ty"
        using runtime_registry.reg_other [OF r, of ty] by blast
      then show ?thesis using p runtime_registry.lookup_invalid [of ty g1] by auto
    qed
  qed simp
qed

section \<open>Programs of virtual calls\<close>

text \<open>
  The functions of \<open>Runtime\<close> a client calls through a pointer, and what they return. A call on a runtime of
  the backend is at most one atomic step on its counter, so a sequence of calls is also any interleaving of
  the calls of several threads.
\<close>

datatype runtime_call =
    Device_type
  | Device_count
  | Validate_device Device
  | Default_stream Device
  | Create_stream Device StreamOptions
  | Create_event Device EventOptions
  | Synchronize_device Device
  | Capabilities Device

datatype 'e runtime_answer =
    Gives_type DeviceType
  | Gives_count "i32 Result"
  | Gives_status Status
  | Gives_stream "Stream Result"
  | Gives_event "'e Result"
  | Gives_capabilities RuntimeCapabilities

fun class_call :: "('r, 'e, 'h) runtime_class \<Rightarrow> runtime_call \<Rightarrow> 'r \<Rightarrow> 'e runtime_answer \<times> 'r" where
  "class_call V Device_type x = (Gives_type (vt_device_type V x), x)"
| "class_call V Device_count x = (Gives_count (vt_device_count V x), x)"
| "class_call V (Validate_device d) x = (Gives_status (vt_validate_device V d x), x)"
| "class_call V (Default_stream d) x = map_prod Gives_stream id (vt_default_stream V d x)"
| "class_call V (Create_stream d opts) x = map_prod Gives_stream id (vt_create_stream V d opts x)"
| "class_call V (Create_event d opts) x = map_prod Gives_event id (vt_create_event V d opts x)"
| "class_call V (Synchronize_device d) x = map_prod Gives_status id (vt_runtime_synchronize V d x)"
| "class_call V (Capabilities d) x = (Gives_capabilities (vt_capabilities V d x), x)"

primrec run_calls ::
  "('r runtime_object, 'e, 'h) runtime_class \<Rightarrow> (Runtime \<times> runtime_call) list \<Rightarrow> 'r runtime_store \<Rightarrow>
    (Runtime \<times> runtime_call \<times> 'e runtime_answer) list \<times> 'r runtime_store" where
  "run_calls V [] s = ([], s)"
| "run_calls V (pc # cs) s = (case pc of (p, c) \<Rightarrow> case through_pointer (class_call V c) p s of (a, s') \<Rightarrow>
     case run_calls V cs s' of (log, s'') \<Rightarrow> ((p, c, a) # log, s''))"

text \<open>The calls on one object alone.\<close>

primrec run_alone ::
  "('r, 'e, 'h) runtime_class \<Rightarrow> runtime_call list \<Rightarrow> 'r \<Rightarrow> (runtime_call \<times> 'e runtime_answer) list \<times> 'r" where
  "run_alone V [] x = ([], x)"
| "run_alone V (c # cs) x = (case class_call V c x of (a, x') \<Rightarrow>
     case run_alone V cs x' of (log, x'') \<Rightarrow> ((c, a) # log, x''))"

lemma run_alone_calls: "run_alone V cs x = (l, y) \<Longrightarrow> map fst l = cs"
  by (induction cs arbitrary: x l) (auto split: prod.splits)

text \<open>Dispatch: a virtual call runs the function of the class the object has.\<close>

lemma virtual_call:
  "class_call (virtual_runtime pm R) c (Cpu_object r) =
     map_prod (map_runtime_answer Cpu_event) Cpu_object (class_call (cpu_runtime_class pm) c r)"
  "class_call (virtual_runtime pm R) c (Client_object x) =
     map_prod (map_runtime_answer Client_event) Client_object (class_call R c x)"
  by (cases c; simp add: virtual_runtime_def Let_def prod.map_comp o_def split_beta map_prod_def)+

lemma run_alone_virtual:
  "run_alone (virtual_runtime pm R) cs (Cpu_object r) =
     map_prod (map (map_prod id (map_runtime_answer Cpu_event))) Cpu_object (run_alone (cpu_runtime_class pm) cs r)"
  "run_alone (virtual_runtime pm R) cs (Client_object x) =
     map_prod (map (map_prod id (map_runtime_answer Client_event))) Client_object (run_alone R cs x)"
  by (induction cs arbitrary: r x) (simp_all add: virtual_call split_beta map_prod_def)

lemma virtual_through_pointer:
  "\<exists>s'. through_pointer (class_call (virtual_runtime pm R) c) p s =
      (fst (class_call (virtual_runtime pm R) c (object_at p s)), s') \<and>
    object_at p s' = snd (class_call (virtual_runtime pm R) c (object_at p s)) \<and>
    (\<forall>q. \<not> same_object p q \<longrightarrow> object_at q s' = object_at q s)"
proof -
  let ?f = "\<lambda>r. map_prod (map_runtime_answer Cpu_event) id (class_call (cpu_runtime_class pm) c r)"
  let ?g = "\<lambda>x. map_prod (map_runtime_answer Client_event) id (class_call R c x)"
  have "class_call (virtual_runtime pm R) c x = on_runtime ?f ?g x" for x
    by (cases x) (simp_all add: virtual_call split_beta map_prod_def)
  then have dispatch: "class_call (virtual_runtime pm R) c = on_runtime ?f ?g" by (rule ext)
  show ?thesis
    unfolding dispatch using through_pointer_object [of ?f ?g p s] by (metis surj_pair fst_conv snd_conv)
qed

text \<open>Whatever is called on other objects, the calls on one object run as if they were alone.\<close>

lemma same_object_at: "same_object p q \<Longrightarrow> object_at p s = object_at q s"
  by (cases p; cases q) simp_all

lemma run_calls_alone:
  assumes "run_calls (virtual_runtime pm R) cs s = (log, s')"
  shows "run_alone (virtual_runtime pm R) (map snd (filter (\<lambda>(q, c). same_object p q) cs)) (object_at p s) =
    (map snd (filter (\<lambda>(q, c, a). same_object p q) log), object_at p s')"
  using assms
proof (induction cs arbitrary: s log)
  case (Cons pc cs)
  obtain q c where pc: "pc = (q, c)" by (cases pc)
  obtain s1 where s1: "through_pointer (class_call (virtual_runtime pm R) c) q s =
      (fst (class_call (virtual_runtime pm R) c (object_at q s)), s1)"
    "object_at q s1 = snd (class_call (virtual_runtime pm R) c (object_at q s))"
    "\<And>r. \<not> same_object q r \<Longrightarrow> object_at r s1 = object_at r s"
    using virtual_through_pointer [of pm R c q s] by blast
  obtain log1 where log1: "run_calls (virtual_runtime pm R) cs s1 = (log1, s')"
    "log = (q, c, fst (class_call (virtual_runtime pm R) c (object_at q s))) # log1"
    using Cons.prems pc s1(1) by (auto split: prod.splits simp del: through_pointer.simps)
  show ?case
  proof (cases "same_object p q")
    case True
    note eq = same_object_at [OF True]
    show ?thesis
      using True pc log1(2) Cons.IH [OF log1(1)] s1(2) by (simp add: eq split_beta)
  next
    case False
    have "\<not> same_object q p" using False by (cases p; cases q) auto
    then show ?thesis using False pc log1(2) Cons.IH [OF log1(1)] s1(3) by simp
  qed
qed simp

section \<open>The runtimes of the backend\<close>

fun makes_stream :: "runtime_call \<Rightarrow> bool" where
  "makes_stream (Create_stream d opts) \<longleftrightarrow> d = cpu0"
| "makes_stream _ \<longleftrightarrow> False"

definition streams_made :: "runtime_call list \<Rightarrow> nat" where
  "streams_made cs = length (filter makes_stream cs)"

text \<open>The ids of the streams that calls of \<open>create_stream\<close> returned.\<close>

fun stream_ids :: "(runtime_call \<times> 'e runtime_answer) list \<Rightarrow> u64 list" where
  "stream_ids [] = []"
| "stream_ids ((Create_stream d opts, Gives_stream (Holds st)) # l) = stream_id st # stream_ids l"
| "stream_ids (_ # l) = stream_ids l"

text \<open>What a CPU runtime that has made \<open>n\<close> streams answers. A device it does not serve is an invalid argument.\<close>

fun cpu_answers :: "nat \<Rightarrow> runtime_call \<Rightarrow> CpuEvent runtime_answer \<Rightarrow> bool" where
  "cpu_answers n Device_type a \<longleftrightarrow> a = Gives_type kCPU"
| "cpu_answers n Device_count a \<longleftrightarrow> a = Gives_count (Holds 1)"
| "cpu_answers n (Validate_device d) a \<longleftrightarrow>
     (\<exists>st. a = Gives_status st \<and> st_code st = (if d = cpu0 then kOk else kInvalidArgument))"
| "cpu_answers n (Default_stream d) a \<longleftrightarrow>
     (if d = cpu0 then a = Gives_stream (Holds (Stream_ctor cpu0 0 True))
      else \<exists>st. a = Gives_stream (Fails st) \<and> st_code st = kInvalidArgument)"
| "cpu_answers n (Create_stream d opts) a \<longleftrightarrow>
     (if d = cpu0 then a = Gives_stream (Holds (Stream_ctor cpu0 (of_nat (Suc n)) False))
      else \<exists>st. a = Gives_stream (Fails st) \<and> st_code st = kInvalidArgument)"
| "cpu_answers n (Create_event d opts) a \<longleftrightarrow>
     (if d = cpu0 then a = Gives_event (Holds \<lparr>cpu_event_device = cpu0, cpu_event_recorded = False, cpu_event_completed = False\<rparr>)
      else \<exists>st. a = Gives_event (Fails st) \<and> st_code st = kInvalidArgument)"
| "cpu_answers n (Synchronize_device d) a \<longleftrightarrow>
     (\<exists>st. a = Gives_status st \<and> st_code st = (if d = cpu0 then kOk else kInvalidArgument))"
| "cpu_answers n (Capabilities d) a \<longleftrightarrow>
     a = Gives_capabilities \<lparr>asynchronous_execution = False, pinned_memory = False, minimum_alignment = max_align\<rparr>"

definition made_streams :: "nat \<Rightarrow> CpuRuntime" where
  "made_streams n = \<lparr>next_stream_id = of_nat (Suc n)\<rparr>"

lemma cpu_call:
  assumes "class_call (cpu_runtime_class pm) c (made_streams n) = (a, r)"
  shows "cpu_answers n c a \<and> r = made_streams (n + (if makes_stream c then 1 else 0)) \<and>
    stream_ids ((c, a) # l) = (if makes_stream c then [of_nat (Suc n)] else []) @ stream_ids l"
  using assms
  by (cases c) (auto simp: cpu_runtime_defs made_streams_def cpu_device_count_def cpu_capabilities_def CpuEvent_ctor_def
      Stream_ctor_def)

lemma cpu_run_alone:
  assumes "run_alone (cpu_runtime_class pm) cs (made_streams n) = (log, r)"
  shows "map fst log = cs \<and> (\<forall>k < length cs. cpu_answers (n + streams_made (take k cs)) (cs ! k) (map snd log ! k)) \<and>
    stream_ids log = map (\<lambda>k. of_nat (Suc k)) [n..<n + streams_made cs] \<and> r = made_streams (n + streams_made cs)"
  using assms
proof (induction cs arbitrary: n log)
  case (Cons c cs)
  obtain a r1 where a: "class_call (cpu_runtime_class pm) c (made_streams n) = (a, r1)"
    by (cases "class_call (cpu_runtime_class pm) c (made_streams n)")
  let ?m = "n + (if makes_stream c then 1 else 0)"
  obtain log1 where log1: "run_alone (cpu_runtime_class pm) cs (made_streams ?m) = (log1, r)" "log = (c, a) # log1"
    using Cons.prems a cpu_call [OF a] by (auto split: prod.splits)
  note call = cpu_call [OF a, of log1] and rest = Cons.IH [OF log1(1)]
  have made: "n + streams_made (c # l) = ?m + streams_made l" for l by (simp add: streams_made_def)
  have "cpu_answers (n + streams_made (take k (c # cs))) ((c # cs) ! k) (map snd log ! k)" if "k < length (c # cs)" for k
    using that call rest log1(2) by (cases k) (simp_all only: take_Suc_Cons made, simp_all add: streams_made_def)
  moreover have "stream_ids log = map (\<lambda>k. of_nat (Suc k)) [n..<n + streams_made (c # cs)]"
  proof (cases "makes_stream c")
    case True
    have "[n..<n + Suc (streams_made cs)] = n # [Suc n..<Suc n + streams_made cs]" by (simp add: upt_conv_Cons)
    then show ?thesis using True call rest log1(2) by (simp add: streams_made_def del: upt_Suc of_nat_Suc)
  qed (use call rest log1(2) in \<open>simp add: streams_made_def\<close>)
  ultimately show ?case using rest log1(2) by (simp add: made)
qed (simp add: streams_made_def)

lemma stream_ids_mapped [simp]: "stream_ids (map (map_prod id (map_runtime_answer f)) l) = stream_ids l"
proof (induction l rule: stream_ids.induct)
  case (2 d opts st l)
  then show ?case by (simp add: Result.map)
qed (simp_all add: Result.map)

lemma distinct_ids: "distinct (0 # map (\<lambda>k. of_nat (Suc k)) [0..<n] :: u64 list) \<longleftrightarrow> n < 2 ^ 64"
proof -
  have "[0..<Suc n] = 0 # map Suc [0..<n]" by (simp add: map_Suc_upt upt_conv_Cons del: upt_Suc)
  then have "0 # map (\<lambda>k. of_nat (Suc k)) [0..<n] = map (of_nat :: nat \<Rightarrow> u64) [0..<Suc n]"
    by (simp add: o_def del: upt_Suc)
  then show ?thesis using distinct_of_nat [of "Suc n"] by (simp only: Suc_le_eq)
qed


text \<open>Calls on the registered runtime among calls on another one and on an object of the client.\<close>

definition mixed_calls :: "(Runtime \<times> runtime_call) list" where
  "mixed_calls =
     [(Cpu_runtime 1, Create_stream cpu0 StreamOptions_default), (Client_runtime 3 kCPU, Create_stream cpu0 StreamOptions_default),
      (Cpu_runtime 2, Create_stream cpu0 StreamOptions_default), (Cpu_runtime 1, Create_stream cpu0 StreamOptions_default)]"


end
