(* ===== verification/Sessions.thy ===== *)
theory Sessions
  imports Shapes DTypes CpuMemory RuntimeObjects
begin

text \<open>
  The components together, as a client uses them to get the memory of a tensor: the device from its text,
  the runtime from the default registry, the number of bytes from the shape and the data type, the memory
  from the runtime's allocator, and its release by the owner.
\<close>

lemma parse_gives:
  assumes "device_parse spec = Returns (Holds d)"
  shows "device_valid d \<and> (spec = device_type_name (dev_type d) \<and> dev_index d = 0 \<or>
    (\<exists>s. spec = device_type_name (dev_type d) @ CHR '':'' # s \<and> signed_numeral s (sint (dev_index d))))"
proof (cases spec rule: sep_cases)
  case none
  then show ?thesis using assms device_parse_no_sep_holds [OF none] by simp
next
  case (some a b)
  then have "device_valid d \<and> a = device_type_name (dev_type d) \<and> signed_numeral b (sint (dev_index d))"
    using assms device_parse_sep_holds [of a b d] by simp
  then show ?thesis using some(1) by blast
qed

lemma element_size_positive:
  assumes "element_size dtype = Returns (Holds sz)"
  shows "0 < uint sz"
proof -
  have "is_valid_dtype dtype" "sz = ucast (dt_size_bytes (dtype_entry dtype))"
    using assms by (simp_all add: element_size_def dtype_info_cases result_of_value_def split: if_splits)
  then show ?thesis
    by (cases dtype rule: valid_dtype_cases) (simp_all add: dtype_entry_def kDTypeTable_def make_dtype_info_def)
qed

lemma default_registry_cpu:
  assumes "default_runtime_registry i None = (g, static)"
  shows "get_runtime kCPU g = Holds (Cpu_runtime i)"
  using assms
  by (auto simp: default_runtime_registry_def register_builtin_runtimes_def register_cpu_runtime_def
      register_runtime_def get_runtime_def RuntimeRegistry_default_def cpu_device_type_def Let_def
      is_valid_device_type_def result_of_value_def)

lemma virtual_cpu:
  "vt_validate_device (virtual_runtime pm R) d (object_at (Cpu_runtime i) s) = cpu_validate_device d"
  "vt_allocate (vt_allocator (virtual_runtime pm R) d (object_at (Cpu_runtime i) s)) = cpu_allocate pm"
  by (simp_all add: virtual_runtime_def Let_def cpu_runtime_class_def cpu_allocator_def cpu_allocator_class_def)

text \<open>The default registry has no other runtime.\<close>

lemma default_registry_only:
  assumes "default_runtime_registry i None = (g, static)" "get_runtime ty g = Holds r"
  shows "r = Cpu_runtime i"
  using assms
  by (auto simp: default_runtime_registry_def register_builtin_runtimes_def register_cpu_runtime_def
      register_runtime_def get_runtime_def RuntimeRegistry_default_def cpu_device_type_def Let_def
      is_valid_device_type_def result_of_value_def split: if_splits option.splits)

lemma numel_value:
  assumes "shape_valid shape" "numel shape = Returns (Holds elements)"
  shows "uint elements = numel_int shape"
  using numel_holds [OF assms(1)] numel_overflows [OF assms(1)] assms(2)
  by (cases "numel_int shape \<le> umax_int TYPE(64)") (auto simp del: limits_64)

text \<open>The owner that holds a block just allocated gives it back when it is destroyed.\<close>

lemma destroy_returns_memory:
  assumes "posix_memalign_documented pm" "cpu_allocate pm bytes alignment d h = (Holds p, h')" "live_blocks h 0 = None"
  shows "\<exists>s' h''. dp_dtor a (put_ptr a p s) = Returns s' \<and>
    call_deletions (drop (length (deletions s)) (deletions s')) h' = Returns h'' \<and> live_blocks h'' = live_blocks h"
proof -
  have r: "dp_reset a (put_ptr a p s) = Returns (put_ptr a DataPtr_default
      (put_ptr a p s\<lparr>deletions := deletions s @ deletion_of p\<rparr>))"
    using dp_reset_is [of "put_ptr a p s" a p] by simp
  consider (none) "p = DataPtr_default" "h' = h"
    | (some) "dp_data p \<noteq> 0" "pending_of p = {#(Free_cpu_memory, dp_data p, 0)#}" "live_blocks h (dp_data p) = None"
        "live_blocks h' = (live_blocks h)(dp_data p \<mapsto> bytes)"
    using cpu_allocate_effect [OF assms(1,2)] by auto
  then show ?thesis
  proof cases
    case none
    then have "deletion_of p = []" by (simp add: deletion_of_def DataPtr_default_def)
    then show ?thesis using r none by (simp add: dp_dtor_def)
  next
    case some
    have "mset (deletion_of p) = {#(Free_cpu_memory, dp_data p, 0)#}" using some(2) by simp
    then have "deletion_of p = [(Free_cpu_memory, dp_data p, 0)]"
      by (metis mset_single_iff_right mset_single_iff)
    moreover have "(live_blocks h)(dp_data p := None) = live_blocks h" using some(3) by (simp add: fun_upd_idem)
    ultimately show ?thesis using r some by (simp add: dp_dtor_def free_cpu_memory_def c_free_def)
  qed
qed

text \<open>C21: The components together. When a client parses a device text, finds its runtime in the default registry and
  has it validate the device, counts the bytes of a shape and a data type without overflow, and allocates
  them from its allocator, each by a virtual call through the pointer the registry returns: the text was \<open>cpu\<close> or \<open>cpu:0\<close> in some spelling of the numeral, the runtime is the CPU runtime, the
  bytes are the exact number of elements times their size, the memory is a live block of exactly those
  bytes (or the empty owner, for a shape without elements), and destroying the owner gives the block
  back and leaves the heap as it was.\<close>

theorem tensor_memory_session:
  assumes "posix_memalign_documented pm" "live_blocks h 0 = None" "shape_valid shape"
    and "default_runtime_registry i None = (g, static)" "device_parse spec = Returns (Holds d)"
    and "get_runtime (dev_type d) g = Holds r" "status_ok (vt_validate_device (virtual_runtime pm R) d (object_at r objects))"
    and "numel shape = Returns (Holds elements)" "element_size dtype = Returns (Holds sz)"
    and "checked_multiply_unsigned elements sz = Returns (Holds bytes)"
    and "vt_allocate (vt_allocator (virtual_runtime pm R) d (object_at r objects)) bytes max_align d h = (Holds p, h')"
  shows "(spec = ''cpu'' \<or> (\<exists>s. spec = ''cpu:'' @ s \<and> signed_numeral s 0)) \<and> r = Cpu_runtime i \<and>
    uint bytes = numel_int shape * uint sz \<and>
    (if numel_int shape = 0 then p = DataPtr_default \<and> h' = h
     else dp_data p \<noteq> 0 \<and> live_blocks h (dp_data p) = None \<and> live_blocks h' = (live_blocks h)(dp_data p \<mapsto> bytes)) \<and>
    (\<exists>s' h''. dp_dtor a (put_ptr a p s) = Returns s' \<and>
      call_deletions (drop (length (deletions s)) (deletions s')) h' = Returns h'' \<and> live_blocks h'' = live_blocks h)"
proof -
  have r: "r = Cpu_runtime i" by (rule default_registry_only [OF assms(4,6)])
  then have alloc: "cpu_allocate pm bytes max_align d h = (Holds p, h')" using assms(11) by (simp only: virtual_cpu)
  have d: "d = cpu0"
    using assms(7) r by (simp add: virtual_cpu cpu_validate_device_def status_ok_def del: object_at.simps split: if_splits)
  then have cpu: "dev_type d = kCPU" "dev_index d = 0" "device_type_name kCPU = ''cpu''"
    by (simp_all add: default_device_def kDefaultDeviceIndex_def device_type_name_def)
  have accepted: "spec = ''cpu'' \<or> (\<exists>s. spec = ''cpu:'' @ s \<and> signed_numeral s 0)"
    using parse_gives [OF assms(5)] cpu by auto
  have bytes: "uint bytes = numel_int shape * uint sz"
    using assms(10) numel_value [OF assms(3,8)] by (simp add: umul.holds_iff)
  have "numel_int shape = 0 \<longleftrightarrow> bytes = 0"
    using bytes element_size_positive [OF assms(9)] by (auto simp: word_uint_eq_iff)
  then have "if numel_int shape = 0 then p = DataPtr_default \<and> h' = h
     else dp_data p \<noteq> 0 \<and> live_blocks h (dp_data p) = None \<and> live_blocks h' = (live_blocks h)(dp_data p \<mapsto> bytes)"
    using cpu_allocate_cases [OF assms(1) alloc] by auto
  then show ?thesis using accepted bytes r destroy_returns_memory [OF assms(1) alloc assms(2)] by blast
qed

theorem tensor_memory_session_witness:
  "\<exists>p h'. cpu_allocate one_block_memalign 24 max_align cpu0 empty_heap = (Holds p, h') \<and> dp_data p \<noteq> 0 \<and>
    live_blocks h' = [dp_data p \<mapsto> 24] \<and> (24 :: int) = numel_int \<lparr>shape_dims = [2, 3]\<rparr> * 4"
proof -
  let ?shape = "\<lparr>shape_dims = [2, 3]\<rparr>"
  obtain g static where g: "default_runtime_registry 7 None = (g, static)"
    by (cases "default_runtime_registry 7 None")
  have 16: "is_power_of_two max_align" by (rule max_align_facts(1))
  obtain p h' where alloc: "cpu_allocate one_block_memalign 24 max_align cpu0 empty_heap = (Holds p, h')"
    using 16 by (auto simp: cpu_allocate_guards one_block_memalign_def empty_heap_def s_max_def smax_int_def)
  have parsed: "device_parse ''cpu'' = Returns (Holds cpu0)"
    using device_parse_no_sep_holds [of "''cpu''" cpu0]
    by (simp add: default_device_def device_valid_def is_valid_device_type_def kDefaultDeviceIndex_def
        device_type_name_def)
  have runtime: "get_runtime (dev_type cpu0) g = Holds (Cpu_runtime 7)"
    using default_registry_cpu [OF g] by (simp add: default_device_def)
  have valid: "status_ok (cpu_validate_device cpu0)" by (simp add: cpu_validate_device_def)
  have count: "numel ?shape = Returns (Holds 6)" and multiply: "checked_multiply_unsigned (6 :: size_t) 4 = Returns (Holds 24)"
    and bytes: "element_size kFloat32 = Returns (Holds 4)" by code_simp+
  have "live_blocks empty_heap 0 = None" "shape_valid ?shape" "numel_int ?shape = 6"
    by (simp_all add: empty_heap_def shape_valid_def numel_int_def)
  then show ?thesis
    using tensor_memory_session [where R = "cpu_runtime_class one_block_memalign", OF one_block_documented _ _ g
        parsed runtime _ count bytes multiply, unfolded virtual_cpu, OF _ _ valid alloc] alloc
    by (auto simp: empty_heap_def)
qed

end
