(* ===== verification/Spec2Isabelle.thy ===== *)
theory Spec2Isabelle
  imports Prelude Floats Machine Decimal Status CheckedMath Shapes Codec DTypes Layouts Devices Scalars
    IntrusivePtrs IntrusiveSafety IntrusiveOperations IntrusiveThrows IntrusivePrograms IntrusiveDepth
    IntrusiveThreads IntrusiveProgress
    IntrusiveOrders IntrusiveFronts IntrusiveCounts IntrusiveFinish DataPtrs DataDeleters Runtimes CpuRuntimes
    CpuMemory MutexObjects EventThreads Registries RegistryThreads StaticRegistry
    RuntimeObjects Sessions
begin

text \<open>
  A verification development for GradyX, a C++20 deep-learning framework in its foundation phase: the
  value types of \<^verbatim>\<open>core\<close>, the reference-counted and unique owners of memory, and the runtime boundary
  with its CPU backend. Paths below are those of the repository (\<^verbatim>\<open>include/gradyx/...\<close>,
  \<^verbatim>\<open>src/core\<close>, \<^verbatim>\<open>src/runtime\<close>, \<^verbatim>\<open>backend\<close>).

  \<^bold>\<open>How the program fits together.\<close> Every fallible operation returns a \<^verbatim>\<open>Status\<close> or a \<^verbatim>\<open>Result<T>\<close>. Shapes,
  data types, layouts, devices and scalars are values; their text forms are parsed with such results.
  A \<^verbatim>\<open>Runtime\<close> is looked up in a \<^verbatim>\<open>RuntimeRegistry\<close> by device type; it makes streams and events and
  lends an \<^verbatim>\<open>Allocator\<close>, which returns a \<^verbatim>\<open>DataPtr\<close>, the unique owner of memory with the deleter that frees
  it. Shared objects are targets of \<^verbatim>\<open>IntrusivePtr\<close> and \<^verbatim>\<open>WeakIntrusivePtr\<close>, which count references in a
  control block that outlives the object while weak handles remain.

  \<^bold>\<open>How it is modelled.\<close> A call is a function to an \<open>outcome\<close> (\<open>Prelude\<close>): it returns, throws, calls
  \<^verbatim>\<open>std::terminate\<close> or is undefined; signed overflow, division by zero, an out-of-range cast and every access
  to an object that is not alive are the outcome \<open>Undefined\<close>, so a theorem that a call returns says that none of
  these happens. Functions that can do none of them have their plain result. State is passed
  explicitly. Enumerations with a fixed underlying type are words, since the sources form unnamed
  values with casts. Integers keep their width; the platform is x86-64 Linux (LP64, alignments of the
  System V ABI, the 80-bit \<^verbatim>\<open>long double\<close>). A status carries the file and line of the call that made it, as
  \<^verbatim>\<open>std::source_location\<close> does; the numbers are those of the sources.

  \<^bold>\<open>The theories.\<close>
  \<^item> \<open>Prelude\<close>: type names, outcomes, collections of facts, lemmas on lists and products.
    \<open>Machine\<close>: signed and unsigned arithmetic at a width. \<open>Decimal\<close>: \<^verbatim>\<open>std::to_string\<close> and
    \<^verbatim>\<open>std::from_chars\<close>. \<open>Floats\<close>: exact binary floating-point numbers, the three formats, rounding to
    nearest with ties to even, and that it gives a nearest value of the format.
  \<^item> \<open>Status\<close>: \<^verbatim>\<open>core/status.h\<close>, \<^verbatim>\<open>core/status.cc\<close>, \<^verbatim>\<open>core/result.h\<close>. \<open>result_try\<close> is the idiom by which callers
    propagate an error.
  \<^item> \<open>CheckedMath\<close>: \<^verbatim>\<open>core/checked_math.h\<close>, a signed and an unsigned definition for each template, at any
    width. \<open>Shapes\<close>: \<^verbatim>\<open>core/shape.h\<close>, \<^verbatim>\<open>core/shape.cc\<close>; the loops are recursions on the axis.
  \<^item> \<open>Codec\<close>: the locale of an enumeration with names. \<open>DTypes\<close>, \<open>Layouts\<close>, \<open>Devices\<close>: \<^verbatim>\<open>core/dtype\<close>,
    \<^verbatim>\<open>core/layout\<close>, \<^verbatim>\<open>core/version\<close>, \<^verbatim>\<open>core/device\<close>, with the languages their parsers accept.
  \<^item> \<open>Scalars\<close>: \<^verbatim>\<open>core/scalar.h\<close>. The tagged union is a datatype; each branch of \<^verbatim>\<open>Scalar::to<T>\<close> is a definition.
    The conversions are compared with the exact number the scalar stands for.
  \<^item> \<open>IntrusivePtrs\<close>: \<^verbatim>\<open>core/intrusive_ptr.h\<close> in one thread, over a store of control blocks, targets and
    handles. \<open>IntrusiveSafety\<close>: the invariant of that store and the contract of a release, stated as the locale
    \<open>strong_release\<close>, under which the destructors are proved and which the recursive release then
    satisfies. \<open>IntrusiveOperations\<close>: every operation keeps the invariant. \<open>IntrusiveThrows\<close>: the constructor of
    an object that throws after it has initialised members; while it runs, its control block is in the store
    without any reference, and a frame rule says that no operation touches it. \<open>IntrusivePrograms\<close>: the programs
    built of the operations. \<open>IntrusiveDepth\<close>: the exact depth of the recursion on lists.
  \<^item> \<open>IntrusiveThreads\<close>: the same counts with any number of threads, one atomic access per step, with
    spurious failures of the compare-exchange, sequentially consistent. \<open>IntrusiveProgress\<close>: the bound on the
    steps other than spurious failures until all operations have ended, and the refinement of the life cycle
    of a counted object.
    \<open>IntrusiveOrders\<close>: the same steps with the memory orders of the sources. Each atomic object is the list of
    its values with the view an acquire of it gives; a thread has a view of its own, reads any value its
    view allows, and knows of an access only by synchronisation. It is shown that every step is one of
    \<open>IntrusiveThreads\<close> or a load of an old value, and that no access races with a deletion.
    \<open>IntrusiveFronts\<close>: a load always has a value to read, the newest among them. \<open>IntrusiveCounts\<close>: what
    \<^verbatim>\<open>use_count\<close> and \<^verbatim>\<open>expired\<close> say under these orders. \<open>IntrusiveFinish\<close>: progress under them, with a
    compare-exchange that may fail although nothing changed.
  \<^item> \<open>DataPtrs\<close>: \<^verbatim>\<open>core/data_ptr.h\<close>, with the calls of deleters in a log. \<open>DataDeleters\<close>: deleters that
    destroy further owners, nested as deep as the stack allows. \<open>Runtimes\<close>: \<^verbatim>\<open>runtime/stream.h\<close>,
    \<^verbatim>\<open>runtime/event.h\<close>, \<^verbatim>\<open>runtime/runtime.h\<close>; the virtual interfaces \<^verbatim>\<open>Event\<close> and \<^verbatim>\<open>Runtime\<close> are the locales
    \<open>event_interface\<close> and \<open>runtime_interface\<close>. \<open>CpuRuntimes\<close>: \<^verbatim>\<open>backend/cpu/runtime.cc\<close>, which interprets them, the one
    implementation in the repository.
    \<open>CpuMemory\<close>: the allocator and the owners together. \<open>Registries\<close>: \<^verbatim>\<open>runtime/registry.h\<close>,
    \<^verbatim>\<open>src/runtime/registry.cc\<close>, the default registry, and the error boundary of \<^verbatim>\<open>backend/cuda\<close>.
    \<open>RegistryThreads\<close>: the registry's calls step by step around its shared mutex, in any interleaving, and that
    each takes effect at one point, as a call of \<open>Registries\<close>. \<open>StaticRegistry\<close>: the function-local statics of the
    default registry, initialised by one of the threads that ask first. \<open>MutexObjects\<close>: the locale of an object whose methods
    hold a mutex, and that it is linearizable; \<open>EventThreads\<close>: the CPU event as one.
  \<^item> \<open>RuntimeObjects\<close>: the abstract classes \<^verbatim>\<open>Runtime\<close>, \<^verbatim>\<open>Event\<close> and \<^verbatim>\<open>Allocator\<close> as records of their virtual
    functions, the CPU classes as values of them, and calls through the pointers of the registry, which
    run the functions of the class the object has. Programs of such calls, with a class of the client's about
    which nothing is assumed, answer on each object as if no other were called; what the answers of a CPU
    runtime are is the predicate \<open>cpu_answers\<close>.
  \<^item> \<open>Sessions\<close>: the components together, by virtual calls, from the text of a device and a shape to memory and back.

  \<^bold>\<open>What is proved.\<close> Handles: no sequence of allowed calls meets undefined behaviour; lifetimes and
  counts are exact; \<open>lock\<close> agrees with the life of the target; with threads the same, in every
  interleaving, with progress and refinement; under the memory orders of the sources no access races
  with a deletion, and every operation can finish from wherever stale reads have led it. Memory: no double free, no leak, the guards of the allocator, and where nested resets go
  wrong. Values: the exact behaviour of every parser, printer, conversion and arithmetic helper, errors
  included. Runtime: registration, streams and events over any sequence of calls, registration and events also
  by concurrent threads, and streams through the virtual interface beside classes of the client's.

  \<^bold>\<open>Bounds and fuel.\<close> The only fuel is the stack. \<open>release_strong_ref n\<close> is undefined when \<open>n\<close>, the
  depth left for nested releases, runs out; any \<open>n\<close> above the number of living targets is enough (\<open>IntrusivePrograms\<close>)
  and gives the one result there is (\<open>run_call_one_result\<close> in \<open>IntrusiveDepth\<close>). \<open>nested_reset n\<close> is the same for owners; the number of
  owners that die is enough (\<open>DataDeleters\<close>).
  \<open>handles_fit\<close> and \<open>refs_fit\<close> say that the handles of eight bytes fit the
  address space (fewer than 2^61), from which no count overflows; a property of
  \<open>IntrusivePrograms\<close> says what happens without it.

  \<^bold>\<open>Parameters.\<close> \<^verbatim>\<open>posix_memalign\<close> is a parameter of the allocator; its documented behaviour is a hypothesis of
  the theorems that need it, with an instance that satisfies it. The CUDA toolkit's calls are parameters
  of the error boundary. The class of an intrusive target is the client's and enters as the list of the
  handles among its members; a constructor of it that throws enters as the way it has initialised them before.
  A client's runtimes and events are any records of functions, with no hypothesis.

  \<^bold>\<open>Not modelled.\<close> Load buffering: C++ lets a relaxed load read a value that is written later,
  the model only values written before. In \<open>IntrusiveThreads\<close> each
  thread uses handles of its own: one handle object used by several threads at once is a
  data race. Allocation failure of \<^verbatim>\<open>operator new\<close> and the moved-from state of strings
  and vectors. NaN payloads and the floating-point environment. The streams of the \<^verbatim>\<open>operator<<\<close> overloads beyond the text they print. Deleted special
  members, friend and forward declarations and \<^verbatim>\<open>static_assert\<close>s, which only affect which programs compile.
  Tests, benchmarks and the build.
\<close>

end
